theory Spec2Isabelle
  imports Complex_Main
begin

section \<open>Polly's polyhedral program model builder (ScopInfo.cpp, TempScopInfo.cpp)\<close>

text \<open>
  The development embeds the Scop builder of Polly: the translation of scalar-evolution
  expressions into piecewise affine functions (\<open>SCEVAffinator\<close>), the construction of
  memory accesses, iteration domains and scatterings (\<open>MemoryAccess\<close>, \<open>ScopStmt\<close>), the
  traversal and parameter alignment of \<open>Scop\<close>, and the extraction of branch conditions
  (\<open>TempScopInfo\<close>).

  A call either does not return (a failed \<open>assert\<close>, \<open>llvm_unreachable\<close>, an error of
  the set library, which \<open>ScopInfo::ScopInfo\<close> configures with \<open>ISL_ON_ERROR_ABORT\<close>, the
  dereference of a null pointer, or a loop that runs forever) or returns. Pointers to library objects may be \<open>NULL\<close>; they are
  values of an option type.
\<close>

subsection \<open>Failures\<close>

datatype failure = AssertFailed | Unreachable | IslAbort | NullDeref | Diverges

type_synonym 'a result = "failure + 'a"

definition bindR :: "'a result \<Rightarrow> ('a \<Rightarrow> 'b result) \<Rightarrow> 'b result" where
  "bindR m f = (case m of Inl e \<Rightarrow> Inl e | Inr x \<Rightarrow> f x)"

subsection \<open>LLVM values, loops and scalar-evolution expressions\<close>

text \<open>
  A \<open>Value\<close> is identified by the text \<open>WriteAsOperand\<close> prints for it (\<open>%name\<close>,
  \<open>@name\<close> or a slot number); \<open>getName\<close> may be empty. A \<open>BasicBlock\<close> is the text of
  its operand. A \<open>Loop\<close> carries its depth and its canonical induction variable.
\<close>

datatype llvm_value = Value (asOperand: string) (getName: string)

type_synonym basic_block = string

datatype loop = Loop (loopHeader: basic_block) (Loop_getLoopDepth: nat)
  (getCanonicalInductionVariable: "llvm_value option")

text \<open>
  \<open>SCEV\<close> nodes are uniqued by LLVM, so that pointer equality of \<open>const SCEV *\<close> is
  structural equality. A constant is an \<open>APInt\<close>: a bit width and the bit pattern read
  as an unsigned number. Casts carry the width of their target type.
\<close>

datatype scev =
    SCEVConstant nat nat
  | SCEVTruncateExpr scev nat
  | SCEVZeroExtendExpr scev nat
  | SCEVSignExtendExpr scev nat
  | SCEVAddExpr "scev list"
  | SCEVMulExpr "scev list"
  | SCEVUDivExpr scev scev
  | SCEVAddRecExpr "scev list" loop
  | SCEVSMaxExpr "scev list"
  | SCEVUMaxExpr "scev list"
  | SCEVUnknown llvm_value
  | SCEVCouldNotCompute

subsection \<open>The set library\<close>

text \<open>
  Modelled from the spec: the set library (isl) is not under src/. The spec treats it as
  a black box of sets, maps and affine expressions with defined operations; each operation
  below has the meaning the library documents for it. An identifier is a name with a user
  pointer; identifiers are equal when both agree.
\<close>

datatype user_ptr = UserSCEV scev | UserValue llvm_value

type_synonym isl_id = "string \<times> user_ptr"

text \<open>
  Modelled from the spec: an affine expression is a sum of terms, a rational coefficient
  times a parameter or times a dimension, plus a constant. The coefficient of a
  parameter or dimension is the sum over its terms.
\<close>

record lin =
  pterms :: "(isl_id \<times> rat) list"
  dterms :: "(nat \<times> rat) list"
  cterm :: rat

definition dim_val :: "int list \<Rightarrow> nat \<Rightarrow> int" where
  "dim_val x i = (if i < length x then x ! i else 0)"

definition lin_eval :: "lin \<Rightarrow> (isl_id \<Rightarrow> int) \<Rightarrow> int list \<Rightarrow> rat" where
  "lin_eval l nu x =
     cterm l
     + sum_list (map (\<lambda>(p, c). c * of_int (nu p)) (pterms l))
     + sum_list (map (\<lambda>(i, c). c * of_int (dim_val x i)) (dterms l))"

definition lin_const :: "rat \<Rightarrow> lin" where
  "lin_const c = \<lparr> pterms = [], dterms = [], cterm = c \<rparr>"

definition lin_param :: "isl_id \<Rightarrow> lin" where
  "lin_param p = \<lparr> pterms = [(p, 1)], dterms = [], cterm = 0 \<rparr>"

definition lin_dim :: "nat \<Rightarrow> lin" where
  "lin_dim i = \<lparr> pterms = [], dterms = [(i, 1)], cterm = 0 \<rparr>"

definition lin_add :: "lin \<Rightarrow> lin \<Rightarrow> lin" where
  "lin_add a b = \<lparr> pterms = pterms a @ pterms b, dterms = dterms a @ dterms b,
                   cterm = cterm a + cterm b \<rparr>"

definition lin_scale :: "rat \<Rightarrow> lin \<Rightarrow> lin" where
  "lin_scale k a = \<lparr> pterms = map (\<lambda>(p, c). (p, k * c)) (pterms a),
                     dterms = map (\<lambda>(i, c). (i, k * c)) (dterms a),
                     cterm = k * cterm a \<rparr>"

definition lin_sub :: "lin \<Rightarrow> lin \<Rightarrow> lin" where
  "lin_sub a b = lin_add a (lin_scale (- 1) b)"

definition pcoef :: "lin \<Rightarrow> isl_id \<Rightarrow> rat" where
  "pcoef l p = sum_list (map snd (filter (\<lambda>t. fst t = p) (pterms l)))"

definition dcoef :: "lin \<Rightarrow> nat \<Rightarrow> rat" where
  "dcoef l i = sum_list (map snd (filter (\<lambda>t. fst t = i) (dterms l)))"

text \<open>
  Modelled from the spec: \<open>isl_aff_is_cst\<close>, absent from src/: every coefficient of a
  parameter or a dimension is zero.
\<close>

definition lin_is_cst :: "lin \<Rightarrow> bool" where
  "lin_is_cst l \<longleftrightarrow>
     list_all (\<lambda>t. pcoef l (fst t) = 0) (pterms l) \<and>
     list_all (\<lambda>t. dcoef l (fst t) = 0) (dterms l)"

text \<open>
  Modelled from the spec: the points of a set or map are described by a quantifier-free
  formula over affine atoms; \<open>FGe l\<close> is \<open>l \<ge> 0\<close> and \<open>FEq l\<close> is \<open>l = 0\<close>.
\<close>

datatype fml = FTrue | FFalse | FGe lin | FEq lin | FAnd fml fml | FOr fml fml | FNot fml

fun holds :: "fml \<Rightarrow> (isl_id \<Rightarrow> int) \<Rightarrow> int list \<Rightarrow> bool" where
  "holds FTrue nu x = True"
| "holds FFalse nu x = False"
| "holds (FGe l) nu x = (0 \<le> lin_eval l nu x)"
| "holds (FEq l) nu x = (lin_eval l nu x = 0)"
| "holds (FAnd f g) nu x = (holds f nu x \<and> holds g nu x)"
| "holds (FOr f g) nu x = (holds f nu x \<or> holds g nu x)"
| "holds (FNot f) nu x = (\<not> holds f nu x)"

record isl_set =
  set_params :: "isl_id list"
  set_tuple :: string
  set_n_dim :: nat
  set_fml :: fml

text \<open>The formula of a map ranges over the input dimensions followed by the output ones.\<close>

record isl_map =
  map_params :: "isl_id list"
  map_in_tuple :: string
  map_n_in :: nat
  map_out_tuple :: string
  map_n_out :: nat
  map_fml :: fml

definition in_set :: "isl_set \<Rightarrow> (isl_id \<Rightarrow> int) \<Rightarrow> int list \<Rightarrow> bool" where
  "in_set S nu x \<longleftrightarrow> length x = set_n_dim S \<and> holds (set_fml S) nu x"

definition in_map :: "isl_map \<Rightarrow> (isl_id \<Rightarrow> int) \<Rightarrow> int list \<Rightarrow> int list \<Rightarrow> bool" where
  "in_map M nu x y \<longleftrightarrow>
     length x = map_n_in M \<and> length y = map_n_out M \<and> holds (map_fml M) nu (x @ y)"

text \<open>
  Modelled from the spec: parameter alignment, absent from src/: the aligned object has
  the parameters of the model first, followed by its own parameters the model lacks. The
  model is a space, \<open>NULL\<close> when taken from a \<open>NULL\<close> set.
\<close>

definition align_ids :: "isl_id list \<Rightarrow> isl_id list \<Rightarrow> isl_id list" where
  "align_ids model own = model @ filter (\<lambda>p. p \<notin> set model) own"

definition isl_set_align_params :: "isl_set option \<Rightarrow> isl_id list option \<Rightarrow> isl_set option" where
  "isl_set_align_params S model =
     (case S of None \<Rightarrow> None
      | Some s \<Rightarrow>
         (case model of None \<Rightarrow> None
          | Some ps \<Rightarrow> Some (s\<lparr> set_params := align_ids ps (set_params s) \<rparr>)))"

definition isl_map_align_params :: "isl_map option \<Rightarrow> isl_id list option \<Rightarrow> isl_map option" where
  "isl_map_align_params M model =
     (case M of None \<Rightarrow> None
      | Some m \<Rightarrow>
         (case model of None \<Rightarrow> None
          | Some ps \<Rightarrow> Some (m\<lparr> map_params := align_ids ps (map_params m) \<rparr>)))"

text \<open>
  Modelled from the spec: \<open>isl_map_universe\<close> on \<open>isl_space_alloc\<close> with tuple names,
  absent from src/.
\<close>

definition isl_map_universe :: "isl_id list \<Rightarrow> string \<Rightarrow> nat \<Rightarrow> string \<Rightarrow> nat \<Rightarrow> isl_map" where
  "isl_map_universe ps tin nin tout nout =
     \<lparr> map_params = ps, map_in_tuple = tin, map_n_in = nin,
       map_out_tuple = tout, map_n_out = nout, map_fml = FTrue \<rparr>"

text \<open>
  Modelled from the spec: \<open>isl_map_equate\<close> of an output with an input dimension and
  \<open>isl_map_fix_si\<close> of an output dimension, absent from src/. A position outside the
  tuple is an error of the library; \<open>NULL\<close> is passed through.
\<close>

definition isl_map_equate_out_in :: "isl_map option \<Rightarrow> nat \<Rightarrow> nat \<Rightarrow> isl_map option result" where
  "isl_map_equate_out_in M o_pos i_pos =
     (case M of
        None \<Rightarrow> Inr None
      | Some m \<Rightarrow>
          if o_pos < map_n_out m \<and> i_pos < map_n_in m
          then Inr (Some (m\<lparr> map_fml := FAnd (map_fml m)
                 (FEq (lin_sub (lin_dim (map_n_in m + o_pos)) (lin_dim i_pos))) \<rparr>))
          else Inl IslAbort)"

definition isl_map_fix_si_out :: "isl_map option \<Rightarrow> nat \<Rightarrow> int \<Rightarrow> isl_map option result" where
  "isl_map_fix_si_out M o_pos v =
     (case M of
        None \<Rightarrow> Inr None
      | Some m \<Rightarrow>
          if o_pos < map_n_out m
          then Inr (Some (m\<lparr> map_fml := FAnd (map_fml m)
                 (FEq (lin_sub (lin_dim (map_n_in m + o_pos)) (lin_const (of_int v)))) \<rparr>))
          else Inl IslAbort)"

subsection \<open>Piecewise affine expressions and the sets they define\<close>

text \<open>
  Modelled from the spec: \<open>isl_pw_aff\<close>, absent from src/: a list of pieces, each a
  condition on the point and the affine expression that holds there. All expressions of
  one statement range over the same number of input dimensions, so the operations below
  do not compare the dimensions of their operands.
\<close>

record isl_pw_aff =
  pa_params :: "isl_id list"
  pa_n_in :: nat
  pa_pieces :: "(fml \<times> lin) list"

definition pw_val :: "isl_pw_aff \<Rightarrow> (isl_id \<Rightarrow> int) \<Rightarrow> int list \<Rightarrow> rat \<Rightarrow> bool" where
  "pw_val pa nu x v \<longleftrightarrow> (\<exists>(g, l) \<in> set (pa_pieces pa). holds g nu x \<and> lin_eval l nu x = v)"

text \<open>
  Modelled from the spec: \<open>isl_pw_aff_alloc\<close> on the universe of a set space with the
  given parameters, absent from src/.
\<close>

definition pw_aff_on_universe :: "isl_id list \<Rightarrow> nat \<Rightarrow> lin \<Rightarrow> isl_pw_aff" where
  "pw_aff_on_universe ps n l = \<lparr> pa_params = ps, pa_n_in = n, pa_pieces = [(FTrue, l)] \<rparr>"

text \<open>
  Modelled from the spec: a binary operation on the shared domain, absent from src/: one
  piece for each pair of pieces; the parameters are those of the second operand followed
  by the ones only the first has. \<open>NULL\<close> is passed through.
\<close>

definition pw_on_shared_domain ::
  "(lin \<Rightarrow> lin \<Rightarrow> lin) \<Rightarrow> isl_pw_aff \<Rightarrow> isl_pw_aff \<Rightarrow> isl_pw_aff" where
  "pw_on_shared_domain f a b =
     \<lparr> pa_params = align_ids (pa_params b) (pa_params a), pa_n_in = pa_n_in a,
       pa_pieces = [(FAnd g1 g2, f l1 l2). (g1, l1) \<leftarrow> pa_pieces a, (g2, l2) \<leftarrow> pa_pieces b] \<rparr>"

definition isl_pw_aff_add :: "isl_pw_aff option \<Rightarrow> isl_pw_aff option \<Rightarrow> isl_pw_aff option" where
  "isl_pw_aff_add A B =
     (case A of None \<Rightarrow> None
      | Some a \<Rightarrow> (case B of None \<Rightarrow> None | Some b \<Rightarrow> Some (pw_on_shared_domain lin_add a b)))"

text \<open>
  Modelled from the spec: \<open>isl_pw_aff_is_cst\<close>, absent from src/: \<open>1\<close> when every piece
  is constant, \<open>0\<close> when some piece is not, \<open>-1\<close> on \<open>NULL\<close>.
\<close>

definition isl_pw_aff_is_cst :: "isl_pw_aff option \<Rightarrow> int" where
  "isl_pw_aff_is_cst A =
     (case A of None \<Rightarrow> - 1
      | Some a \<Rightarrow> if list_all (\<lambda>(g, l). lin_is_cst l) (pa_pieces a) then 1 else 0)"

text \<open>
  Modelled from the spec: \<open>isl_aff_mul\<close>, absent from src/: one factor has to be
  constant and scales the other; otherwise the library reports an error.
\<close>

definition isl_aff_mul :: "lin \<Rightarrow> lin \<Rightarrow> lin result" where
  "isl_aff_mul l1 l2 =
     (if lin_is_cst l2 then Inr (lin_scale (cterm l2) l1)
      else if lin_is_cst l1 then Inr (lin_scale (cterm l1) l2)
      else Inl IslAbort)"

fun collect :: "'a result list \<Rightarrow> 'a list result" where
  "collect [] = Inr []"
| "collect (r # rs) = bindR r (\<lambda>x. bindR (collect rs) (\<lambda>xs. Inr (x # xs)))"

definition isl_pw_aff_mul ::
  "isl_pw_aff option \<Rightarrow> isl_pw_aff option \<Rightarrow> isl_pw_aff option result" where
  "isl_pw_aff_mul A B =
     (case A of None \<Rightarrow> Inr None
      | Some a \<Rightarrow>
         (case B of None \<Rightarrow> Inr None
          | Some b \<Rightarrow>
              bindR (collect [bindR (isl_aff_mul l1 l2) (\<lambda>l. Inr (FAnd g1 g2, l)).
                                (g1, l1) \<leftarrow> pa_pieces a, (g2, l2) \<leftarrow> pa_pieces b])
                (\<lambda>ps. Inr (Some \<lparr> pa_params = align_ids (pa_params b) (pa_params a),
                                   pa_n_in = pa_n_in a, pa_pieces = ps \<rparr>))))"

text \<open>
  Modelled from the spec: the comparison sets of two piecewise expressions, absent from
  src/: on the shared domain the difference is formed; it is non-negative
  (\<open>ge\<close>), non-negative after subtracting one (\<open>gt\<close>), or zero (\<open>eq\<close>). \<open>le\<close> and \<open>lt\<close>
  swap the operands; \<open>ne\<close> is the union of \<open>lt\<close> and \<open>gt\<close>.
\<close>

definition cmp_fml :: "(lin \<Rightarrow> fml) \<Rightarrow> isl_pw_aff \<Rightarrow> isl_pw_aff \<Rightarrow> fml" where
  "cmp_fml atom a b =
     foldr FOr [FAnd (FAnd g1 g2) (atom (lin_sub l1 l2)).
                  (g1, l1) \<leftarrow> pa_pieces a, (g2, l2) \<leftarrow> pa_pieces b] FFalse"

definition cmp_set :: "(isl_pw_aff \<Rightarrow> isl_pw_aff \<Rightarrow> fml) \<Rightarrow>
    isl_pw_aff option \<Rightarrow> isl_pw_aff option \<Rightarrow> isl_set option" where
  "cmp_set F A B =
     (case A of None \<Rightarrow> None
      | Some a \<Rightarrow>
         (case B of None \<Rightarrow> None
          | Some b \<Rightarrow> Some \<lparr> set_params = align_ids (pa_params b) (pa_params a),
                              set_tuple = [], set_n_dim = pa_n_in a, set_fml = F a b \<rparr>))"

definition ge_fml :: "isl_pw_aff \<Rightarrow> isl_pw_aff \<Rightarrow> fml" where
  "ge_fml a b = cmp_fml FGe a b"

definition gt_fml :: "isl_pw_aff \<Rightarrow> isl_pw_aff \<Rightarrow> fml" where
  "gt_fml a b = cmp_fml (\<lambda>d. FGe (lin_sub d (lin_const 1))) a b"

definition eq_fml :: "isl_pw_aff \<Rightarrow> isl_pw_aff \<Rightarrow> fml" where
  "eq_fml a b = cmp_fml FEq a b"

definition isl_pw_aff_ge_set :: "isl_pw_aff option \<Rightarrow> isl_pw_aff option \<Rightarrow> isl_set option" where
  "isl_pw_aff_ge_set A B = cmp_set ge_fml A B"

definition isl_pw_aff_gt_set :: "isl_pw_aff option \<Rightarrow> isl_pw_aff option \<Rightarrow> isl_set option" where
  "isl_pw_aff_gt_set A B = cmp_set gt_fml A B"

definition isl_pw_aff_le_set :: "isl_pw_aff option \<Rightarrow> isl_pw_aff option \<Rightarrow> isl_set option" where
  "isl_pw_aff_le_set A B = isl_pw_aff_ge_set B A"

definition isl_pw_aff_lt_set :: "isl_pw_aff option \<Rightarrow> isl_pw_aff option \<Rightarrow> isl_set option" where
  "isl_pw_aff_lt_set A B = isl_pw_aff_gt_set B A"

definition isl_pw_aff_eq_set :: "isl_pw_aff option \<Rightarrow> isl_pw_aff option \<Rightarrow> isl_set option" where
  "isl_pw_aff_eq_set A B = cmp_set eq_fml A B"

definition isl_pw_aff_ne_set :: "isl_pw_aff option \<Rightarrow> isl_pw_aff option \<Rightarrow> isl_set option" where
  "isl_pw_aff_ne_set A B = cmp_set (\<lambda>a b. FOr (gt_fml b a) (gt_fml a b)) A B"

text \<open>
  Modelled from the spec: \<open>isl_pw_aff_nonneg_set\<close>, absent from src/: the points of a
  piece where its expression is non-negative.
\<close>

definition isl_pw_aff_nonneg_set :: "isl_pw_aff option \<Rightarrow> isl_set option" where
  "isl_pw_aff_nonneg_set A =
     map_option (\<lambda>a. \<lparr> set_params = pa_params a, set_tuple = [], set_n_dim = pa_n_in a,
                        set_fml = foldr FOr [FAnd g (FGe l). (g, l) \<leftarrow> pa_pieces a] FFalse \<rparr>) A"

text \<open>
  Modelled from the spec: \<open>isl_pw_aff_max\<close>, absent from src/: the second operand where
  the first is at most the second, the first operand on the rest of the shared domain.
\<close>

definition pw_domain_fml :: "isl_pw_aff \<Rightarrow> fml" where
  "pw_domain_fml a = foldr FOr (map fst (pa_pieces a)) FFalse"

definition isl_pw_aff_max :: "isl_pw_aff option \<Rightarrow> isl_pw_aff option \<Rightarrow> isl_pw_aff option" where
  "isl_pw_aff_max A B =
     (case A of None \<Rightarrow> None
      | Some a \<Rightarrow>
         (case B of None \<Rightarrow> None
          | Some b \<Rightarrow>
             (let le = ge_fml b a;
                  rest = FAnd (FAnd (pw_domain_fml a) (pw_domain_fml b)) (FNot le)
              in Some \<lparr> pa_params = align_ids (pa_params b) (pa_params a), pa_n_in = pa_n_in a,
                        pa_pieces = [(FAnd g le, l). (g, l) \<leftarrow> pa_pieces b]
                                    @ [(FAnd g rest, l). (g, l) \<leftarrow> pa_pieces a] \<rparr>)))"

text \<open>
  Modelled from the spec: \<open>isl_pw_aff_scale_down\<close>, absent from src/: every expression
  is divided by the integer, giving rational coefficients; dividing by zero is an error
  of the library.
\<close>

definition isl_pw_aff_scale_down :: "isl_pw_aff option \<Rightarrow> int \<Rightarrow> isl_pw_aff option result" where
  "isl_pw_aff_scale_down A v =
     (case A of None \<Rightarrow> Inr None
      | Some a \<Rightarrow>
          if v = 0 then Inl IslAbort
          else Inr (Some (a\<lparr> pa_pieces :=
                 map (\<lambda>(g, l). (g, lin_scale (1 / of_int v) l)) (pa_pieces a) \<rparr>)))"

text \<open>
  Modelled from the spec: \<open>isl_map_from_pw_aff\<close>, absent from src/: the map from the
  domain of the expression to one output dimension, whose points satisfy
  \<open>output = expression\<close>; an integer output exists only where the expression is integral.
\<close>

definition isl_map_from_pw_aff :: "isl_pw_aff option \<Rightarrow> isl_map option" where
  "isl_map_from_pw_aff A =
     map_option (\<lambda>a. \<lparr> map_params = pa_params a, map_in_tuple = [], map_n_in = pa_n_in a,
                        map_out_tuple = [], map_n_out = 1,
                        map_fml = foldr FOr [FAnd g (FEq (lin_sub l (lin_dim (pa_n_in a)))).
                                              (g, l) \<leftarrow> pa_pieces a] FFalse \<rparr>) A"

definition isl_map_set_tuple_name_in :: "isl_map option \<Rightarrow> string \<Rightarrow> isl_map option" where
  "isl_map_set_tuple_name_in M s = map_option (\<lambda>m. m\<lparr> map_in_tuple := s \<rparr>) M"

definition isl_map_set_tuple_name_out :: "isl_map option \<Rightarrow> string \<Rightarrow> isl_map option" where
  "isl_map_set_tuple_name_out M s = map_option (\<lambda>m. m\<lparr> map_out_tuple := s \<rparr>) M"

text \<open>
  Modelled from the spec: \<open>isl_set_universe\<close>, \<open>isl_set_intersect\<close> and
  \<open>isl_set_set_tuple_name\<close>, absent from src/. The intersection has the parameters of
  the second set followed by the ones only the first has.
\<close>

definition isl_set_universe :: "isl_id list \<Rightarrow> nat \<Rightarrow> isl_set" where
  "isl_set_universe ps n = \<lparr> set_params = ps, set_tuple = [], set_n_dim = n, set_fml = FTrue \<rparr>"

definition isl_set_intersect :: "isl_set option \<Rightarrow> isl_set option \<Rightarrow> isl_set option" where
  "isl_set_intersect A B =
     (case A of None \<Rightarrow> None
      | Some a \<Rightarrow>
         (case B of None \<Rightarrow> None
          | Some b \<Rightarrow> Some (a\<lparr> set_params := align_ids (set_params b) (set_params a),
                                set_fml := FAnd (set_fml a) (set_fml b) \<rparr>)))"

definition isl_set_set_tuple_name :: "isl_set option \<Rightarrow> string \<Rightarrow> isl_set option" where
  "isl_set_set_tuple_name S s = map_option (\<lambda>a. a\<lparr> set_tuple := s \<rparr>) S"

subsection \<open>Facts of the extraction pass and the program model\<close>

text \<open>
  \<open>CmpInst::Predicate\<close>; \<open>FCMP\<close> stands for the floating-point predicates.
\<close>

datatype predicate =
    ICMP_EQ | ICMP_NE | ICMP_UGT | ICMP_UGE | ICMP_ULT | ICMP_ULE
  | ICMP_SGT | ICMP_SGE | ICMP_SLT | ICMP_SLE | FCMP nat

record Comparison =
  getLHS :: scev
  getRHS :: scev
  getPred :: predicate

datatype TypeKind = READ | WRITE | SCALARREAD | SCALARWRITE

record IRAccess =
  getBase :: llvm_value
  getOffset :: scev
  getElemSizeInBytes :: nat
  irType :: TypeKind
  isAffine :: bool

definition isRead :: "IRAccess \<Rightarrow> bool" where
  "isRead A \<longleftrightarrow> irType A = READ \<or> irType A = SCALARREAD"

datatype AccessType = Read | Write | MayWrite

record MemoryAccess =
  AccessRelation :: "isl_map option"
  newAccessRelation :: "isl_map option"
  BaseAddr :: llvm_value
  BaseName :: string
  Type :: AccessType

type_synonym instruction = string

record ScopStmt =
  BB :: basic_block
  IVS :: "(llvm_value \<times> loop) list"
  Domain :: "isl_set option"
  Scattering :: "isl_map option"
  MemAccs :: "MemoryAccess list"
  InstructionToAccess :: "(instruction \<times> nat) list"
  StmtBaseName :: string

text \<open>
  \<open>ParameterIds\<close> is a \<open>std::map\<close> from expressions to dimensions; it is kept in
  insertion order and read with \<open>map_of\<close>.
\<close>

record Scop =
  MaxLoopDepth :: nat
  Parameters :: "scev list"
  ParameterIds :: "(scev \<times> int) list"
  Context :: "isl_set option"
  Stmts :: "ScopStmt list"

text \<open>
  The analyses the builder consults and whose code is not under src/:
  \<open>getParamsInAffineExpr\<close> of the expression validator and the loop queries of the
  region.
\<close>

record analyses =
  getParamsInAffineExpr :: "scev \<Rightarrow> scev list"
  outermostLoopInRegion :: "loop \<Rightarrow> loop option"
  regionContains :: "loop \<Rightarrow> bool"

record TempScop =
  LoopBounds :: "loop \<rightharpoonup> scev"
  BBConds :: "basic_block \<rightharpoonup> Comparison list"
  AccFuncMap :: "basic_block \<rightharpoonup> (IRAccess \<times> instruction) list"
  getMaxLoopDepth :: nat

subsection \<open>Parameters of the Scop\<close>

fun addParams :: "Scop \<Rightarrow> scev list \<Rightarrow> Scop" where
  "addParams S [] = S"
| "addParams S (Parameter # NewParameters) =
     (if map_of (ParameterIds S) Parameter \<noteq> None then addParams S NewParameters
      else addParams
             (S\<lparr> Parameters := Parameters S @ [Parameter],
                 ParameterIds := ParameterIds S @ [(Parameter, int (length (Parameters S)))] \<rparr>)
             NewParameters)"

function convertIntLoop :: "int \<Rightarrow> string \<Rightarrow> string" where
  "convertIntLoop number temp =
     (if number > 0
      then convertIntLoop (number div 10) (temp @ [char_of (number mod 10 + 48)])
      else temp)"
  by pat_completeness auto
termination
  by (relation "measure (\<lambda>(number, temp). nat number)") auto

declare convertIntLoop.simps [simp del]

definition convertInt :: "int \<Rightarrow> string" where
  "convertInt number = (if number = 0 then ''0'' else rev (convertIntLoop number []))"

definition getIdForParam :: "Scop \<Rightarrow> scev \<Rightarrow> isl_id option" where
  "getIdForParam S Parameter =
     (case map_of (ParameterIds S) Parameter of
        None \<Rightarrow> None
      | Some d \<Rightarrow>
          (let ParameterName = (case Parameter of SCEVUnknown Val \<Rightarrow> getName Val | _ \<Rightarrow> [])
           in Some (if ParameterName = [] \<or> take 2 ParameterName = ''p_''
                    then ''p_'' @ convertInt d else ParameterName,
                    UserSCEV Parameter)))"

definition getParamSpace :: "Scop \<Rightarrow> isl_id list option" where
  "getParamSpace S = map_option set_params (Context S)"

subsection \<open>SCEVAffinator\<close>

text \<open>\<open>MPZ_from_APInt\<close> with \<open>isSigned\<close> set: the two's complement reading of the bits.\<close>

definition MPZ_from_APInt_signed :: "nat \<Rightarrow> nat \<Rightarrow> int" where
  "MPZ_from_APInt_signed w v =
     (let u = int (v mod 2 ^ w) in if u < 2 ^ (w - 1) then u else u - 2 ^ w)"

definition paramAff :: "isl_id \<Rightarrow> nat \<Rightarrow> isl_pw_aff" where
  "paramAff ID NbLoopSpaces = pw_aff_on_universe [ID] NbLoopSpaces (lin_param ID)"

definition ifParam :: "Scop \<Rightarrow> nat \<Rightarrow> scev \<Rightarrow> isl_pw_aff option result \<Rightarrow> isl_pw_aff option result" where
  "ifParam S NbLoopSpaces e otherwise =
     (case getIdForParam S e of
        Some ID \<Rightarrow> Inr (Some (paramAff ID NbLoopSpaces))
      | None \<Rightarrow> otherwise)"

definition visitConstant :: "nat \<Rightarrow> nat \<Rightarrow> nat \<Rightarrow> isl_pw_aff option result" where
  "visitConstant NbLoopSpaces w v =
     Inr (Some (pw_aff_on_universe [] NbLoopSpaces (lin_const (of_int (MPZ_from_APInt_signed w v)))))"

fun addLoop :: "isl_pw_aff option \<Rightarrow> isl_pw_aff option result list \<Rightarrow> isl_pw_aff option result" where
  "addLoop SumA [] = Inr SumA"
| "addLoop SumA (r # rs) = bindR r (\<lambda>NextSummand. addLoop (isl_pw_aff_add SumA NextSummand) rs)"

definition visitAddExpr :: "isl_pw_aff option result list \<Rightarrow> isl_pw_aff option result" where
  "visitAddExpr rs = (case rs of [] \<Rightarrow> Inl AssertFailed | r # rs' \<Rightarrow> bindR r (\<lambda>SumA. addLoop SumA rs'))"

fun mulLoop :: "isl_pw_aff option \<Rightarrow> isl_pw_aff option result list \<Rightarrow> isl_pw_aff option result" where
  "mulLoop Product [] = Inr Product"
| "mulLoop Product (r # rs) =
     bindR r (\<lambda>NextOperand.
       if isl_pw_aff_is_cst Product = 0 \<and> isl_pw_aff_is_cst NextOperand = 0 then Inr None
       else bindR (isl_pw_aff_mul Product NextOperand) (\<lambda>P. mulLoop P rs))"

definition visitMulExpr :: "isl_pw_aff option result list \<Rightarrow> isl_pw_aff option result" where
  "visitMulExpr rs =
     (case rs of [] \<Rightarrow> Inl AssertFailed | r # rs' \<Rightarrow> bindR r (\<lambda>Product. mulLoop Product rs'))"

fun maxLoop :: "isl_pw_aff option \<Rightarrow> isl_pw_aff option result list \<Rightarrow> isl_pw_aff option result" where
  "maxLoop MaxA [] = Inr MaxA"
| "maxLoop MaxA (r # rs) = bindR r (\<lambda>NextOperand. maxLoop (isl_pw_aff_max MaxA NextOperand) rs)"

definition visitSMaxExpr :: "isl_pw_aff option result list \<Rightarrow> isl_pw_aff option result" where
  "visitSMaxExpr rs = (case rs of [] \<Rightarrow> Inl AssertFailed | r # rs' \<Rightarrow> bindR r (\<lambda>MaxA. maxLoop MaxA rs'))"

definition getLoopDepth :: "analyses \<Rightarrow> loop \<Rightarrow> int result" where
  "getLoopDepth E L =
     (case outermostLoopInRegion E L of
        None \<Rightarrow> Inl AssertFailed
      | Some outerLoop \<Rightarrow> Inr (int (Loop_getLoopDepth L) - int (Loop_getLoopDepth outerLoop)))"

text \<open>
  \<open>isl_aff_set_coefficient_si\<close> on an input dimension: a position outside the
  dimensions is an error of the library.
\<close>

definition iteratorAff :: "nat \<Rightarrow> int \<Rightarrow> isl_pw_aff option result" where
  "iteratorAff NbLoopSpaces loopDimension =
     (if 0 \<le> loopDimension \<and> loopDimension < int NbLoopSpaces
      then Inr (Some (pw_aff_on_universe [] NbLoopSpaces (lin_dim (nat loopDimension))))
      else Inl IslAbort)"

definition visitAddRecExpr ::
  "analyses \<Rightarrow> nat \<Rightarrow> loop \<Rightarrow> isl_pw_aff option result list \<Rightarrow> isl_pw_aff option result" where
  "visitAddRecExpr E NbLoopSpaces L rs =
     (if length rs \<noteq> 2 then Inl AssertFailed
      else if \<not> regionContains E L then Inl AssertFailed
      else bindR (rs ! 0) (\<lambda>Start.
           bindR (rs ! 1) (\<lambda>Step.
           bindR (getLoopDepth E L) (\<lambda>loopDimension.
           bindR (iteratorAff NbLoopSpaces loopDimension) (\<lambda>LPwAff.
           bindR (isl_pw_aff_mul Step LPwAff) (\<lambda>P.
           Inr (isl_pw_aff_add Start P)))))))"

definition visitUnknown :: "nat \<Rightarrow> llvm_value \<Rightarrow> isl_pw_aff option result" where
  "visitUnknown NbLoopSpaces Val =
     (let ID = (getName Val, UserValue Val)
      in Inr (Some (pw_aff_on_universe [ID] NbLoopSpaces (lin_param ID))))"

text \<open>
  \<open>visit\<close> first looks the expression up among the parameters on record and otherwise
  dispatches on its kind, as \<open>SCEVVisitor::visit\<close> does.
\<close>

fun visit :: "analyses \<Rightarrow> Scop \<Rightarrow> nat \<Rightarrow> scev \<Rightarrow> isl_pw_aff option result" where
  "visit E S n (SCEVConstant w v) = ifParam S n (SCEVConstant w v) (visitConstant n w v)"
| "visit E S n (SCEVTruncateExpr e w) = ifParam S n (SCEVTruncateExpr e w) (Inl AssertFailed)"
| "visit E S n (SCEVZeroExtendExpr e w) = ifParam S n (SCEVZeroExtendExpr e w) (Inl AssertFailed)"
| "visit E S n (SCEVSignExtendExpr e w) = ifParam S n (SCEVSignExtendExpr e w) (visit E S n e)"
| "visit E S n (SCEVAddExpr ops) =
     ifParam S n (SCEVAddExpr ops) (visitAddExpr (map (visit E S n) ops))"
| "visit E S n (SCEVMulExpr ops) =
     ifParam S n (SCEVMulExpr ops) (visitMulExpr (map (visit E S n) ops))"
| "visit E S n (SCEVUDivExpr a b) = ifParam S n (SCEVUDivExpr a b) (Inl AssertFailed)"
| "visit E S n (SCEVAddRecExpr ops L) =
     ifParam S n (SCEVAddRecExpr ops L) (visitAddRecExpr E n L (map (visit E S n) ops))"
| "visit E S n (SCEVSMaxExpr ops) =
     ifParam S n (SCEVSMaxExpr ops) (visitSMaxExpr (map (visit E S n) ops))"
| "visit E S n (SCEVUMaxExpr ops) = ifParam S n (SCEVUMaxExpr ops) (Inl AssertFailed)"
| "visit E S n (SCEVUnknown Val) = ifParam S n (SCEVUnknown Val) (visitUnknown n Val)"
| "visit E S n SCEVCouldNotCompute = ifParam S n SCEVCouldNotCompute (Inl Unreachable)"

definition getPwAff ::
  "analyses \<Rightarrow> nat \<Rightarrow> Scop \<Rightarrow> scev \<Rightarrow> (isl_pw_aff option \<times> Scop) result" where
  "getPwAff E NbIterators S e =
     (let S' = addParams S (getParamsInAffineExpr E e)
      in bindR (visit E S' NbIterators e) (\<lambda>A. Inr (A, S')))"

subsection \<open>Conditions and iteration domains\<close>

definition buildConditionSet ::
  "analyses \<Rightarrow> nat \<Rightarrow> Scop \<Rightarrow> Comparison \<Rightarrow> (isl_set option \<times> Scop) result" where
  "buildConditionSet E NbIterators S Comp =
     bindR (getPwAff E NbIterators S (getLHS Comp)) (\<lambda>(L, S1).
     bindR (getPwAff E NbIterators S1 (getRHS Comp)) (\<lambda>(R, S2).
       (case getPred Comp of
          ICMP_EQ \<Rightarrow> Inr (isl_pw_aff_eq_set L R, S2)
        | ICMP_NE \<Rightarrow> Inr (isl_pw_aff_ne_set L R, S2)
        | ICMP_SLT \<Rightarrow> Inr (isl_pw_aff_lt_set L R, S2)
        | ICMP_SLE \<Rightarrow> Inr (isl_pw_aff_le_set L R, S2)
        | ICMP_SGT \<Rightarrow> Inr (isl_pw_aff_gt_set L R, S2)
        | ICMP_SGE \<Rightarrow> Inr (isl_pw_aff_ge_set L R, S2)
        | ICMP_ULT \<Rightarrow> Inl Unreachable
        | ICMP_UGT \<Rightarrow> Inl Unreachable
        | ICMP_ULE \<Rightarrow> Inl Unreachable
        | ICMP_UGE \<Rightarrow> Inl Unreachable
        | FCMP k \<Rightarrow> Inl Unreachable)))"

text \<open>
  The loop of \<open>addLoopBoundsToDomain\<close> over the iterators. \<open>LocalSpace\<close> is the space of
  the domain on entry (\<open>NULL\<close> for a \<open>NULL\<close> domain); \<open>getLoopBound\<close> asserts that the loop
  has a bound on record.
\<close>

fun boundsLoop :: "analyses \<Rightarrow> TempScop \<Rightarrow> (llvm_value \<times> loop) list \<Rightarrow> isl_id list option \<Rightarrow>
    nat list \<Rightarrow> isl_set option \<Rightarrow> Scop \<Rightarrow> (isl_set option \<times> Scop) result" where
  "boundsLoop E T ivs LocalSpace [] D S = Inr (D, S)"
| "boundsLoop E T ivs LocalSpace (i # is) D S =
     (let IV = map_option (\<lambda>ps. pw_aff_on_universe ps (length ivs) (lin_dim i)) LocalSpace;
          LowerBound = isl_pw_aff_nonneg_set IV;
          D1 = isl_set_intersect D LowerBound
      in case LoopBounds T (snd (ivs ! i)) of
           None \<Rightarrow> Inl AssertFailed
         | Some LatchExecutions \<Rightarrow>
             bindR (getPwAff E (length ivs) S LatchExecutions) (\<lambda>(UpperBound, S').
               boundsLoop E T ivs LocalSpace is
                 (isl_set_intersect D1 (isl_pw_aff_le_set IV UpperBound)) S'))"

definition addLoopBoundsToDomain :: "analyses \<Rightarrow> TempScop \<Rightarrow> (llvm_value \<times> loop) list \<Rightarrow>
    isl_set option \<Rightarrow> Scop \<Rightarrow> (isl_set option \<times> Scop) result" where
  "addLoopBoundsToDomain E T ivs D S =
     boundsLoop E T ivs (map_option set_params D) [0..<length ivs] D S"

fun condLoop :: "analyses \<Rightarrow> nat \<Rightarrow> Comparison list \<Rightarrow> isl_set option \<Rightarrow> Scop \<Rightarrow>
    (isl_set option \<times> Scop) result" where
  "condLoop E n [] D S = Inr (D, S)"
| "condLoop E n (CI # cs) D S =
     bindR (buildConditionSet E n S CI) (\<lambda>(ConditionSet, S').
       condLoop E n cs (isl_set_intersect D ConditionSet) S')"

text \<open>
  The do-while loop of \<open>addConditionsToDomain\<close> runs once for \<open>CurRegion\<close> and once for
  each of its parents up to the maximal region of the TempScop; the regions are given by
  the list of their entry blocks, innermost first.
\<close>

fun regionLoop :: "analyses \<Rightarrow> TempScop \<Rightarrow> nat \<Rightarrow> basic_block \<Rightarrow> basic_block list \<Rightarrow>
    isl_set option \<Rightarrow> Scop \<Rightarrow> (isl_set option \<times> Scop) result" where
  "regionLoop E T n BranchingBB [] D S = Inr (D, S)"
| "regionLoop E T n BranchingBB (entry # chain) D S =
     bindR (if BranchingBB \<noteq> entry
            then (case BBConds T BranchingBB of
                    Some Condition \<Rightarrow> condLoop E n Condition D S
                  | None \<Rightarrow> Inr (D, S))
            else Inr (D, S))
       (\<lambda>(D', S'). regionLoop E T n entry chain D' S')"

definition addConditionsToDomain :: "analyses \<Rightarrow> TempScop \<Rightarrow> nat \<Rightarrow> basic_block \<Rightarrow>
    basic_block \<Rightarrow> basic_block list \<Rightarrow> isl_set option \<Rightarrow> Scop \<Rightarrow> (isl_set option \<times> Scop) result" where
  "addConditionsToDomain E T n bb CurRegionEntry parents D S =
     regionLoop E T n bb (CurRegionEntry # parents) D S"

definition buildDomain :: "analyses \<Rightarrow> TempScop \<Rightarrow> basic_block \<Rightarrow> (llvm_value \<times> loop) list \<Rightarrow>
    string \<Rightarrow> basic_block \<Rightarrow> basic_block list \<Rightarrow> Scop \<Rightarrow> (isl_set option \<times> Scop) result" where
  "buildDomain E T bb ivs name CurRegionEntry parents S =
     (let D0 = Some (isl_set_universe [] (length ivs))
      in bindR (addLoopBoundsToDomain E T ivs D0 S) (\<lambda>(D1, S1).
         bindR (addConditionsToDomain E T (length ivs) bb CurRegionEntry parents D1 S1) (\<lambda>(D2, S2).
         Inr (isl_set_set_tuple_name D2 name, S2))))"

subsection \<open>ScopStmt::buildScattering\<close>

text \<open>
  \<open>Scatter\<close> is a \<open>SmallVector<unsigned>\<close> of 32-bit counters; an index beyond its size
  fails its assertion. \<open>isl_map_fix_si\<close> takes an \<open>int\<close>, so the counter is converted
  from \<open>unsigned\<close> to \<open>int\<close>.
\<close>

definition unsigned_to_int :: "nat \<Rightarrow> int" where
  "unsigned_to_int n =
     (let u = n mod 2 ^ 32 in if u < 2 ^ 31 then int u else int u - 2 ^ 32)"

definition scatterAt :: "nat list \<Rightarrow> nat \<Rightarrow> nat result" where
  "scatterAt Scatter i = (if i < length Scatter then Inr (Scatter ! i) else Inl AssertFailed)"

fun equateLoop :: "isl_map option \<Rightarrow> nat list \<Rightarrow> isl_map option result" where
  "equateLoop M [] = Inr M"
| "equateLoop M (i # is) =
     bindR (isl_map_equate_out_in M (2 * i + 1) i) (\<lambda>M'. equateLoop M' is)"

fun fixLoop :: "nat list \<Rightarrow> isl_map option \<Rightarrow> nat list \<Rightarrow> isl_map option result" where
  "fixLoop Scatter M [] = Inr M"
| "fixLoop Scatter M (i # is) =
     bindR (scatterAt Scatter i) (\<lambda>v.
     bindR (isl_map_fix_si_out M (2 * i) (unsigned_to_int v)) (\<lambda>M'. fixLoop Scatter M' is))"

fun fillLoop :: "isl_map option \<Rightarrow> nat list \<Rightarrow> isl_map option result" where
  "fillLoop M [] = Inr M"
| "fillLoop M (i # is) =
     bindR (isl_map_fix_si_out M i 0) (\<lambda>M'. fillLoop M' is)"

text \<open>
  The statement is given by what the method reads of it: \<open>getNumIterators()\<close> and
  \<open>getBaseName()\<close>; \<open>Parent\<close> is the Scop.
\<close>

definition buildScattering ::
  "Scop \<Rightarrow> nat \<Rightarrow> string \<Rightarrow> nat list \<Rightarrow> isl_map option result" where
  "buildScattering Parent NbIterators name Scatter =
     (let NbScatteringDims = MaxLoopDepth Parent * 2 + 1;
          Scattering = Some (isl_map_universe [] name NbIterators ''scattering''
                               NbScatteringDims)
      in bindR (equateLoop Scattering [0..<NbIterators]) (\<lambda>S1.
         bindR (fixLoop Scatter S1 [0..<NbIterators + 1]) (\<lambda>S2.
         bindR (fillLoop S2 [2 * NbIterators + 1..<NbScatteringDims]) (\<lambda>S3.
         Inr (isl_map_align_params S3 (getParamSpace Parent))))))"

subsection \<open>Names\<close>

text \<open>
  \<open>replace\<close> substitutes every occurrence of the string searched for, scanning on after
  the replacement. With an empty search string the source's loop never ends.
\<close>

function replaceAll :: "string \<Rightarrow> string \<Rightarrow> string \<Rightarrow> string" where
  "replaceAll fnd rep str =
     (if str = [] then []
      else if fnd \<noteq> [] \<and> take (length fnd) str = fnd
      then rep @ replaceAll fnd rep (drop (length fnd) str)
      else hd str # replaceAll fnd rep (tl str))"
  by pat_completeness auto
termination
  by (relation "measure (\<lambda>(fnd, rep, str). length str)") auto

declare replaceAll.simps [simp del]

definition replace :: "string \<Rightarrow> string \<Rightarrow> string \<Rightarrow> string result" where
  "replace str fnd rep = (if fnd = [] then Inl Diverges else Inr (replaceAll fnd rep str))"

definition makeIslCompatible :: "string \<Rightarrow> string result" where
  "makeIslCompatible str =
     bindR (replace (drop 1 str) ''.'' ''_'') (\<lambda>s1. replace s1 [CHR 0x22] ''_'')"

definition setBaseName :: "llvm_value \<Rightarrow> string result" where
  "setBaseName base = bindR (makeIslCompatible (asOperand base)) (\<lambda>s. Inr (''MemRef_'' @ s))"

subsection \<open>MemoryAccess\<close>

definition createBasicAccessMap :: "nat \<Rightarrow> string \<Rightarrow> string \<Rightarrow> isl_map" where
  "createBasicAccessMap NbIterators stmtName baseName =
     isl_map_universe [] stmtName NbIterators baseName 1"

text \<open>
  The constructor \<open>MemoryAccess(const IRAccess &, ScopStmt *)\<close>; the statement is given by
  its number of iterators and its name.
\<close>

definition newMemoryAccess :: "analyses \<Rightarrow> IRAccess \<Rightarrow> nat \<Rightarrow> string \<Rightarrow> Scop \<Rightarrow>
    (MemoryAccess \<times> Scop) result" where
  "newMemoryAccess E Access NbIterators stmtName S =
     (let Type0 = (if isRead Access then Read else Write)
      in if \<not> isAffine Access
         then bindR (setBaseName (getBase Access)) (\<lambda>baseName.
                Inr (\<lparr> AccessRelation = Some (createBasicAccessMap NbIterators stmtName baseName),
                       newAccessRelation = None, BaseAddr = getBase Access,
                       BaseName = baseName,
                       Type = (if Type0 = Read then Read else MayWrite) \<rparr>, S))
         else bindR (getPwAff E NbIterators S (getOffset Access)) (\<lambda>(Affine, S').
              bindR (setBaseName (getBase Access)) (\<lambda>baseName.
              bindR (isl_pw_aff_scale_down Affine (int (getElemSizeInBytes Access))) (\<lambda>Affine'.
                Inr (\<lparr> AccessRelation =
                         isl_map_set_tuple_name_out
                           (isl_map_set_tuple_name_in (isl_map_from_pw_aff Affine') stmtName)
                           baseName,
                       newAccessRelation = None, BaseAddr = getBase Access,
                       BaseName = baseName, Type = Type0 \<rparr>, S')))))"

definition MemoryAccess_realignParams :: "Scop \<Rightarrow> MemoryAccess \<Rightarrow> MemoryAccess" where
  "MemoryAccess_realignParams Parent MA =
     MA\<lparr> AccessRelation := isl_map_align_params (AccessRelation MA) (getParamSpace Parent) \<rparr>"

subsection \<open>ScopStmt\<close>

text \<open>
  \<open>getNumIterators\<close> returns \<open>1\<close> for a statement without a basic block; the statements
  built here all have one.
\<close>

definition getNumIterators :: "ScopStmt \<Rightarrow> nat" where
  "getNumIterators Stmt = length (IVS Stmt)"

fun buildAccessesLoop :: "analyses \<Rightarrow> nat \<Rightarrow> string \<Rightarrow> (IRAccess \<times> instruction) list \<Rightarrow>
    MemoryAccess list \<Rightarrow> (instruction \<times> nat) list \<Rightarrow> Scop \<Rightarrow>
    (MemoryAccess list \<times> (instruction \<times> nat) list \<times> Scop) result" where
  "buildAccessesLoop E n name [] accs i2a S = Inr (accs, i2a, S)"
| "buildAccessesLoop E n name ((Access, Inst) # rest) accs i2a S =
     bindR (newMemoryAccess E Access n name S) (\<lambda>(MA, S').
       buildAccessesLoop E n name rest (accs @ [MA])
         ((Inst, length accs) # filter (\<lambda>p. fst p \<noteq> Inst) i2a) S')"

definition buildAccesses :: "analyses \<Rightarrow> TempScop \<Rightarrow> basic_block \<Rightarrow> nat \<Rightarrow> string \<Rightarrow> Scop \<Rightarrow>
    (MemoryAccess list \<times> (instruction \<times> nat) list \<times> Scop) result" where
  "buildAccesses E T bb n name S =
     (case AccFuncMap T bb of
        None \<Rightarrow> Inl NullDeref
      | Some AccFuncs \<Rightarrow> buildAccessesLoop E n name AccFuncs [] [] S)"

fun setupIVS :: "loop list \<Rightarrow> (llvm_value \<times> loop) list result" where
  "setupIVS [] = Inr []"
| "setupIVS (L # Ls) =
     (case getCanonicalInductionVariable L of
        None \<Rightarrow> Inl AssertFailed
      | Some PN \<Rightarrow> bindR (setupIVS Ls) (\<lambda>ivs. Inr ((PN, L) # ivs)))"

definition newScopStmt :: "analyses \<Rightarrow> TempScop \<Rightarrow> basic_block \<Rightarrow> basic_block list \<Rightarrow>
    basic_block \<Rightarrow> loop list \<Rightarrow> nat list \<Rightarrow> Scop \<Rightarrow> (ScopStmt \<times> Scop) result" where
  "newScopStmt E T CurRegionEntry parents bb NestLoops Scatter parent =
     bindR (setupIVS NestLoops) (\<lambda>ivs.
     bindR (makeIslCompatible bb) (\<lambda>s.
       (let name = ''Stmt_'' @ s
        in bindR (buildDomain E T bb ivs name CurRegionEntry parents parent) (\<lambda>(D, S1).
           bindR (buildScattering S1 (length ivs) name Scatter) (\<lambda>Sc.
           bindR (buildAccesses E T bb (length ivs) name S1) (\<lambda>(accs, i2a, S2).
             Inr (\<lparr> BB = bb, IVS = ivs, Domain = D, Scattering = Sc, MemAccs = accs,
                    InstructionToAccess = i2a, StmtBaseName = name \<rparr>, S2)))))))"

definition ScopStmt_realignParams :: "Scop \<Rightarrow> ScopStmt \<Rightarrow> ScopStmt" where
  "ScopStmt_realignParams Parent Stmt =
     Stmt\<lparr> MemAccs := map (MemoryAccess_realignParams Parent) (MemAccs Stmt),
           Domain := isl_set_align_params (Domain Stmt) (getParamSpace Parent),
           Scattering := isl_map_align_params (Scattering Stmt) (getParamSpace Parent) \<rparr>"

subsection \<open>Scop\<close>

definition buildContext :: "Scop \<Rightarrow> Scop" where
  "buildContext S = S\<lparr> Context := Some (isl_set_universe [] 0) \<rparr>"

text \<open>
  \<open>Scop::realignParams\<close>. The space is allocated with one unnamed parameter for each
  entry of \<open>ParameterIds\<close>; \<open>isl_space_set_dim_id\<close> fails on a position outside the space
  and returns \<open>NULL\<close> on a \<open>NULL\<close> identifier; aligning to a model with an unnamed parameter
  is an error of the library.
\<close>

fun setDimIds :: "Scop \<Rightarrow> (scev \<times> int) list \<Rightarrow> isl_id option list option \<Rightarrow>
    isl_id option list option result" where
  "setDimIds S [] Space = Inr Space"
| "setDimIds S ((Parameter, d) # rest) Space =
     (case Space of
        None \<Rightarrow> setDimIds S rest None
      | Some ids \<Rightarrow>
         (case getIdForParam S Parameter of
            None \<Rightarrow> setDimIds S rest None
          | Some ident \<Rightarrow>
              if 0 \<le> d \<and> d < int (length ids)
              then setDimIds S rest (Some (ids[nat d := Some ident]))
              else Inl IslAbort))"

definition modelParams :: "isl_id option list option \<Rightarrow> isl_id list option result" where
  "modelParams Space =
     (case Space of
        None \<Rightarrow> Inr None
      | Some ids \<Rightarrow> if list_all (\<lambda>i. i \<noteq> None) ids then Inr (Some (map the ids))
                     else Inl IslAbort)"

definition realignParams :: "Scop \<Rightarrow> Scop result" where
  "realignParams S =
     bindR (setDimIds S (ParameterIds S)
              (Some (replicate (length (ParameterIds S)) None))) (\<lambda>Space.
     bindR (if Context S = None then Inr None else modelParams Space) (\<lambda>model.
       (let S1 = S\<lparr> Context := isl_set_align_params (Context S) model \<rparr>
        in Inr (S1\<lparr> Stmts := map (ScopStmt_realignParams S1) (Stmts S1) \<rparr>))))"

text \<open>
  The region tree: a region has an entry block, the loop \<open>castToLoop\<close> finds for it, and
  its elements in the order of the element iterator.
\<close>

datatype region = Region (getEntry: basic_block) (castToLoop: "loop option") (elements: "relem list")
  and relem = BlockNode basic_block | SubRegion region

definition isTrivialBB :: "TempScop \<Rightarrow> basic_block \<Rightarrow> bool" where
  "isTrivialBB T bb \<longleftrightarrow> AccFuncMap T bb = None"

text \<open>\<open>++\<close> on an \<open>unsigned\<close> counter of \<open>Scatter\<close>.\<close>

definition incr :: "nat list \<Rightarrow> nat \<Rightarrow> nat list" where
  "incr Scatter i = Scatter[i := (Scatter ! i + 1) mod 2 ^ 32]"

record build_state =
  bsScop :: Scop
  bsNestLoops :: "loop list"
  bsScatter :: "nat list"

fun buildScop :: "analyses \<Rightarrow> TempScop \<Rightarrow> basic_block list \<Rightarrow> region \<Rightarrow> build_state \<Rightarrow>
      build_state result"
  and buildElements :: "analyses \<Rightarrow> TempScop \<Rightarrow> basic_block list \<Rightarrow> basic_block \<Rightarrow> nat \<Rightarrow>
      relem list \<Rightarrow> build_state \<Rightarrow> build_state result" where
  "buildScop E T parents (Region entry L elems) st =
     (let NestLoops = (case L of None \<Rightarrow> bsNestLoops st | Some l \<Rightarrow> bsNestLoops st @ [l]);
          loopDepth = length NestLoops
      in if \<not> length (bsScatter st) > loopDepth then Inl AssertFailed
         else bindR (buildElements E T parents entry loopDepth elems
                       (st\<lparr> bsNestLoops := NestLoops \<rparr>)) (\<lambda>st'.
           if L = None then Inr st'
           else Inr (st'\<lparr> bsScatter := incr ((bsScatter st')[loopDepth := 0]) (loopDepth - 1),
                          bsNestLoops := butlast (bsNestLoops st') \<rparr>)))"
| "buildElements E T parents entry loopDepth [] st = Inr st"
| "buildElements E T parents entry loopDepth (SubRegion R # rest) st =
     bindR (buildScop E T (entry # parents) R st) (\<lambda>st'.
       buildElements E T parents entry loopDepth rest st')"
| "buildElements E T parents entry loopDepth (BlockNode bb # rest) st =
     (if isTrivialBB T bb then buildElements E T parents entry loopDepth rest st
      else bindR (newScopStmt E T entry parents bb (bsNestLoops st) (bsScatter st) (bsScop st))
             (\<lambda>(Stmt, S').
               buildElements E T parents entry loopDepth rest
                 (st\<lparr> bsScop := S'\<lparr> Stmts := Stmts S' @ [Stmt] \<rparr>,
                      bsScatter := incr (bsScatter st) loopDepth \<rparr>)))"

text \<open>The constructor of \<open>Scop\<close> for the maximal region of the TempScop.\<close>

definition newScop :: "analyses \<Rightarrow> TempScop \<Rightarrow> region \<Rightarrow> Scop result" where
  "newScop E T R =
     (let S0 = buildContext \<lparr> MaxLoopDepth = getMaxLoopDepth T, Parameters = [],
                              ParameterIds = [], Context = None, Stmts = [] \<rparr>;
          st0 = \<lparr> bsScop = S0, bsNestLoops = [],
                  bsScatter = replicate (getMaxLoopDepth T + 1) 0 \<rparr>
      in bindR (buildScop E T [] R st0) (\<lambda>st.
         bindR (realignParams (bsScop st)) (\<lambda>S.
           if bsNestLoops st = [] then Inr S else Inl AssertFailed)))"

subsection \<open>TempScopInfo: branch conditions and access facts\<close>

text \<open>
  The condition of a branch is a constant integer (its type's width and its bits), an
  integer comparison (its predicate, its operands and its block) or something else. A
  terminator is a branch or something else.
\<close>

datatype cond_value =
    ConstantInt nat nat
  | ICmpInst predicate llvm_value llvm_value basic_block
  | OtherValue

datatype terminator =
    BrUnconditional basic_block
  | BrConditional cond_value basic_block basic_block
  | OtherTerminator

text \<open>A node of the dominator tree with the chain of its immediate dominators.\<close>

datatype DomTreeNode = DomTreeNode (getBlock: basic_block) (getIDom: "DomTreeNode option")

text \<open>
  The analyses \<open>TempScopInfo\<close> consults and whose code is not under src/: scalar
  evolution, loop info, the dominator and post-dominator trees, data layout, and the
  terminators of the blocks.
\<close>

record tsi_analyses =
  getSCEVAtScope :: "llvm_value \<Rightarrow> loop option \<Rightarrow> scev"
  getLoopFor :: "basic_block \<Rightarrow> loop option"
  getNode :: "basic_block \<Rightarrow> DomTreeNode option"
  DT_dominates :: "basic_block \<Rightarrow> basic_block \<Rightarrow> bool"
  PDT_dominates :: "basic_block \<Rightarrow> basic_block \<Rightarrow> bool"
  getTerminator :: "basic_block \<Rightarrow> terminator"
  getPointerBase :: "scev \<Rightarrow> scev"
  getMinusSCEV :: "scev \<Rightarrow> scev \<Rightarrow> scev"
  isAffineExpr :: "scev \<Rightarrow> llvm_value \<Rightarrow> bool"

text \<open>\<open>CmpInst::getInversePredicate\<close> on the integer predicates.\<close>

fun getInversePredicate :: "predicate \<Rightarrow> predicate" where
  "getInversePredicate ICMP_EQ = ICMP_NE"
| "getInversePredicate ICMP_NE = ICMP_EQ"
| "getInversePredicate ICMP_UGT = ICMP_ULE"
| "getInversePredicate ICMP_ULT = ICMP_UGE"
| "getInversePredicate ICMP_UGE = ICMP_ULT"
| "getInversePredicate ICMP_ULE = ICMP_UGT"
| "getInversePredicate ICMP_SGT = ICMP_SLE"
| "getInversePredicate ICMP_SLT = ICMP_SGE"
| "getInversePredicate ICMP_SGE = ICMP_SLT"
| "getInversePredicate ICMP_SLE = ICMP_SGT"
| "getInversePredicate (FCMP k) = FCMP k"

definition isOne :: "nat \<Rightarrow> nat \<Rightarrow> bool" where
  "isOne w v \<longleftrightarrow> v mod 2 ^ w = 1"

definition buildAffineCondition :: "tsi_analyses \<Rightarrow> cond_value \<Rightarrow> bool \<Rightarrow> Comparison result" where
  "buildAffineCondition A V inverted =
     (case V of
        ConstantInt w v \<Rightarrow>
          (let LHS = SCEVConstant w 0; RHS = SCEVConstant w (1 mod 2 ^ w)
           in if isOne w v = inverted
              then Inr \<lparr> getLHS = LHS, getRHS = RHS, getPred = ICMP_SLE \<rparr>
              else Inr \<lparr> getLHS = LHS, getRHS = RHS, getPred = ICMP_SGE \<rparr>)
      | ICmpInst p op0 op1 parent \<Rightarrow>
          (let L = getLoopFor A parent;
               LHS = getSCEVAtScope A op0 L;
               RHS = getSCEVAtScope A op1 L;
               Pred = (if inverted then getInversePredicate p else p)
           in Inr \<lparr> getLHS = LHS, getRHS = RHS, getPred = Pred \<rparr>)
      | OtherValue \<Rightarrow> Inl AssertFailed)"

text \<open>
  The loop of \<open>buildCondition\<close>: \<open>BBNode\<close> walks up the dominator tree until it is the
  node of the region's entry.
\<close>

fun walkUp :: "tsi_analyses \<Rightarrow> basic_block \<Rightarrow> DomTreeNode \<Rightarrow> DomTreeNode \<Rightarrow> Comparison list \<Rightarrow>
    Comparison list result" where
  "walkUp A bb EntryNode (DomTreeNode CurBB idom) Cond =
     (if DomTreeNode CurBB idom = EntryNode then Inr Cond
      else case idom of
             None \<Rightarrow> Inl AssertFailed
           | Some BBNode \<Rightarrow>
               if PDT_dominates A CurBB (getBlock BBNode) then walkUp A bb EntryNode BBNode Cond
               else (case getTerminator A (getBlock BBNode) of
                       OtherTerminator \<Rightarrow> Inl AssertFailed
                     | BrUnconditional s \<Rightarrow> walkUp A bb EntryNode BBNode Cond
                     | BrConditional c s0 s1 \<Rightarrow>
                         (let inverted = DT_dominates A s1 bb
                          in bindR (buildAffineCondition A c inverted) (\<lambda>Cmp.
                               walkUp A bb EntryNode BBNode (Cond @ [Cmp])))))"

definition buildCondition :: "tsi_analyses \<Rightarrow> basic_block \<Rightarrow> basic_block \<Rightarrow>
    (basic_block \<rightharpoonup> Comparison list) \<Rightarrow> (basic_block \<rightharpoonup> Comparison list) result" where
  "buildCondition A bb RegionEntry conds =
     (case getNode A bb of
        None \<Rightarrow> Inl AssertFailed
      | Some BBNode \<Rightarrow>
         (case getNode A RegionEntry of
            None \<Rightarrow> Inl AssertFailed
          | Some EntryNode \<Rightarrow>
              bindR (walkUp A bb EntryNode BBNode []) (\<lambda>Cond.
                Inr (if Cond \<noteq> [] then conds(bb \<mapsto> Cond) else conds))))"

text \<open>
  \<open>buildIRAccess\<close> for a load or a store, given by its pointer operand and the store size
  of the accessed type.
\<close>

datatype mem_inst = LoadInst llvm_value nat | StoreInst llvm_value nat

definition buildIRAccess :: "tsi_analyses \<Rightarrow> mem_inst \<Rightarrow> loop option \<Rightarrow> IRAccess result" where
  "buildIRAccess A Inst L =
     (let (ptr, Size, kind) = (case Inst of LoadInst p sz \<Rightarrow> (p, sz, READ)
                                          | StoreInst p sz \<Rightarrow> (p, sz, WRITE));
          AccessFunction = getSCEVAtScope A ptr L
      in case getPointerBase A AccessFunction of
           SCEVUnknown BasePointer \<Rightarrow>
             (let Offset = getMinusSCEV A AccessFunction (SCEVUnknown BasePointer)
              in Inr \<lparr> getBase = BasePointer, getOffset = Offset, getElemSizeInBytes = Size,
                       irType = kind, isAffine = isAffineExpr A Offset BasePointer \<rparr>)
         | _ \<Rightarrow> Inl AssertFailed)"

subsection \<open>Auxiliary notions for the properties\<close>

text \<open>An affine expression, and a piecewise one, with integer coefficients.\<close>

definition int_lin :: "lin \<Rightarrow> bool" where
  "int_lin l \<longleftrightarrow>
     cterm l \<in> \<int> \<and> list_all (\<lambda>t. snd t \<in> \<int>) (pterms l) \<and> list_all (\<lambda>t. snd t \<in> \<int>) (dterms l)"

definition int_pw :: "isl_pw_aff \<Rightarrow> bool" where
  "int_pw a \<longleftrightarrow> list_all (\<lambda>p. int_lin (snd p)) (pa_pieces a)"

text \<open>
  The comparison predicates the spec lists as supported, with the relation each stands
  for: equal, not-equal and the four signed relational operators.
\<close>

fun predicate_rel :: "predicate \<Rightarrow> (rat \<Rightarrow> rat \<Rightarrow> bool) option" where
  "predicate_rel ICMP_EQ = Some (\<lambda>l r. l = r)"
| "predicate_rel ICMP_NE = Some (\<lambda>l r. l \<noteq> r)"
| "predicate_rel ICMP_SLT = Some (\<lambda>l r. l < r)"
| "predicate_rel ICMP_SLE = Some (\<lambda>l r. l \<le> r)"
| "predicate_rel ICMP_SGT = Some (\<lambda>l r. l > r)"
| "predicate_rel ICMP_SGE = Some (\<lambda>l r. l \<ge> r)"
| "predicate_rel p = None"

text \<open>
  The parameter table of a Scop is well formed when \<open>ParameterIds\<close> maps each entry of
  \<open>Parameters\<close> to its position and no parameter occurs twice.
\<close>

definition wfParams :: "Scop \<Rightarrow> bool" where
  "wfParams S \<longleftrightarrow>
     ParameterIds S = zip (Parameters S) (map int [0..<length (Parameters S)]) \<and>
     distinct (Parameters S)"

text \<open>A piecewise expression with a piece whose constant term is not zero.\<close>

definition has_nonzero :: "isl_pw_aff \<Rightarrow> bool" where
  "has_nonzero a \<longleftrightarrow> list_ex (\<lambda>p. cterm (snd p) \<noteq> 0) (pa_pieces a)"

text \<open>
  An affine expression, a formula and a piecewise expression that mention only the first
  \<open>n\<close> dimensions.
\<close>

definition lin_dims_below :: "nat \<Rightarrow> lin \<Rightarrow> bool" where
  "lin_dims_below n l \<longleftrightarrow> list_all (\<lambda>t. fst t < n) (dterms l)"

fun fml_dims_below :: "nat \<Rightarrow> fml \<Rightarrow> bool" where
  "fml_dims_below n FTrue = True"
| "fml_dims_below n FFalse = True"
| "fml_dims_below n (FGe l) = lin_dims_below n l"
| "fml_dims_below n (FEq l) = lin_dims_below n l"
| "fml_dims_below n (FAnd f g) = (fml_dims_below n f \<and> fml_dims_below n g)"
| "fml_dims_below n (FOr f g) = (fml_dims_below n f \<and> fml_dims_below n g)"
| "fml_dims_below n (FNot f) = fml_dims_below n f"

definition pw_dims_below :: "nat \<Rightarrow> isl_pw_aff \<Rightarrow> bool" where
  "pw_dims_below n a \<longleftrightarrow>
     list_all (\<lambda>p. fml_dims_below n (fst p) \<and> lin_dims_below n (snd p)) (pa_pieces a)"

text \<open>
  The translations of a list of expressions for one statement, one after the other (each
  may record parameters the later ones find on record).
\<close>

fun getPwAffs :: "analyses \<Rightarrow> nat \<Rightarrow> Scop \<Rightarrow> scev list \<Rightarrow>
    (isl_pw_aff option list \<times> Scop) result" where
  "getPwAffs E n S [] = Inr ([], S)"
| "getPwAffs E n S (e # es) =
     bindR (getPwAff E n S e) (\<lambda>(A, S1).
     bindR (getPwAffs E n S1 es) (\<lambda>(As, S2). Inr (A # As, S2)))"

text \<open>
  The branch conditions that reach a block according to the spec: the conditions on
  record for the block, and for the entry of each region around it up to the maximal
  region, where a block that is the entry of the region at hand contributes nothing.
\<close>

fun reachingConds :: "TempScop \<Rightarrow> basic_block \<Rightarrow> basic_block list \<Rightarrow> Comparison list" where
  "reachingConds T b [] = []"
| "reachingConds T b (entry # chain) =
     (if b \<noteq> entry then (case BBConds T b of Some cs \<Rightarrow> cs | None \<Rightarrow> []) else [])
     @ reachingConds T entry chain"

text \<open>
  The walk up the dominator tree in the words of the spec: the steps from a node to the
  node of the region's entry, each step a node's block and the block of its immediate
  dominator; there is none when the entry is not among the dominators. The conditional
  branches found on the walk are those of the immediate dominators which the current
  node does not post-dominate, each with its condition and its two successors.
\<close>

fun domWalk :: "DomTreeNode \<Rightarrow> DomTreeNode \<Rightarrow> (basic_block \<times> basic_block) list option" where
  "domWalk EntryNode (DomTreeNode CurBB idom) =
     (if DomTreeNode CurBB idom = EntryNode then Some []
      else case idom of
             None \<Rightarrow> None
           | Some BBNode \<Rightarrow>
               map_option ((#) (CurBB, getBlock BBNode)) (domWalk EntryNode BBNode))"

definition conditionalBranches ::
  "tsi_analyses \<Rightarrow> (basic_block \<times> basic_block) list \<Rightarrow>
     (cond_value \<times> basic_block \<times> basic_block) list" where
  "conditionalBranches A steps =
     concat (map (\<lambda>(cur, dom).
        if PDT_dominates A cur dom then []
        else (case getTerminator A dom of
                BrConditional c s0 s1 \<Rightarrow> [(c, s0, s1)]
              | _ \<Rightarrow> [])) steps)"

text \<open>
  The values whose \<open>SCEVUnknown\<close> occurs in an expression outside every expression of
  a given list; and the identifiers of the parameters on record in the order of their
  dimensions: the global parameter space of the Scop.
\<close>

fun uncovered :: "scev list \<Rightarrow> scev \<Rightarrow> llvm_value list" where
  "uncovered ps (SCEVConstant w v) = []"
| "uncovered ps (SCEVTruncateExpr e w) =
     (if SCEVTruncateExpr e w \<in> set ps then [] else uncovered ps e)"
| "uncovered ps (SCEVZeroExtendExpr e w) =
     (if SCEVZeroExtendExpr e w \<in> set ps then [] else uncovered ps e)"
| "uncovered ps (SCEVSignExtendExpr e w) =
     (if SCEVSignExtendExpr e w \<in> set ps then [] else uncovered ps e)"
| "uncovered ps (SCEVAddExpr ops) =
     (if SCEVAddExpr ops \<in> set ps then [] else concat (map (uncovered ps) ops))"
| "uncovered ps (SCEVMulExpr ops) =
     (if SCEVMulExpr ops \<in> set ps then [] else concat (map (uncovered ps) ops))"
| "uncovered ps (SCEVUDivExpr a b) =
     (if SCEVUDivExpr a b \<in> set ps then [] else uncovered ps a @ uncovered ps b)"
| "uncovered ps (SCEVAddRecExpr ops L) =
     (if SCEVAddRecExpr ops L \<in> set ps then [] else concat (map (uncovered ps) ops))"
| "uncovered ps (SCEVSMaxExpr ops) =
     (if SCEVSMaxExpr ops \<in> set ps then [] else concat (map (uncovered ps) ops))"
| "uncovered ps (SCEVUMaxExpr ops) =
     (if SCEVUMaxExpr ops \<in> set ps then [] else concat (map (uncovered ps) ops))"
| "uncovered ps (SCEVUnknown Val) = (if SCEVUnknown Val \<in> set ps then [] else [Val])"
| "uncovered ps SCEVCouldNotCompute = []"

definition globalParams :: "Scop \<Rightarrow> isl_id list" where
  "globalParams S = List.map_filter (getIdForParam S) (Parameters S)"

text \<open>
  A later state of the Scop under construction: the parameter table is well formed, no
  identifier of the global space was lost, and context, statements and loop depth are
  the same.
\<close>

definition grows :: "Scop \<Rightarrow> Scop \<Rightarrow> bool" where
  "grows S S' \<longleftrightarrow>
     wfParams S' \<and> set (globalParams S) \<subseteq> set (globalParams S') \<and>
     Context S' = Context S \<and> Stmts S' = Stmts S \<and> MaxLoopDepth S' = MaxLoopDepth S"

text \<open>
  The parameters of every object of a statement are among given identifiers; and the
  state of a Scop between two steps of its construction: a well-formed parameter table,
  the context of \<open>buildContext\<close>, and statements whose parameters are on record.
\<close>

definition stmtParamsIn :: "isl_id set \<Rightarrow> ScopStmt \<Rightarrow> bool" where
  "stmtParamsIn G Stmt \<longleftrightarrow>
     (\<forall>d. Domain Stmt = Some d \<longrightarrow> set (set_params d) \<subseteq> G) \<and>
     (\<forall>m. Scattering Stmt = Some m \<longrightarrow> set (map_params m) \<subseteq> G) \<and>
     (\<forall>MA \<in> set (MemAccs Stmt). \<forall>m. AccessRelation MA = Some m \<longrightarrow> set (map_params m) \<subseteq> G)"

definition scopInv :: "Scop \<Rightarrow> bool" where
  "scopInv S \<longleftrightarrow>
     wfParams S \<and> Context S = Some (isl_set_universe [] 0) \<and>
     (\<forall>Stmt \<in> set (Stmts S). stmtParamsIn (set (globalParams S)) Stmt)"

text \<open>
  The validator reports, for every \<open>SCEVUnknown\<close> of an expression, that expression or
  an expression around it as a parameter; and it does so for the expressions of a
  TempScop that are translated: the loop bounds, the operands of the conditions and the
  offsets of the affine accesses.
\<close>

definition reportsUnknowns :: "analyses \<Rightarrow> scev \<Rightarrow> bool" where
  "reportsUnknowns E e \<longleftrightarrow> uncovered (getParamsInAffineExpr E e) e = []"

definition validated :: "analyses \<Rightarrow> TempScop \<Rightarrow> bool" where
  "validated E T \<longleftrightarrow>
     (\<forall>l b. LoopBounds T l = Some b \<longrightarrow> reportsUnknowns E b) \<and>
     (\<forall>bb cs. BBConds T bb = Some cs \<longrightarrow>
        (\<forall>c \<in> set cs. reportsUnknowns E (getLHS c) \<and> reportsUnknowns E (getRHS c))) \<and>
     (\<forall>bb fs. AccFuncMap T bb = Some fs \<longrightarrow>
        (\<forall>f \<in> set fs. isAffine (fst f) \<longrightarrow> reportsUnknowns E (getOffset (fst f))))"

text \<open>
  The shapes whose handler in \<open>SCEVAffinator\<close> is \<open>assert(0 && "Not yet supported")\<close>:
  truncation, zero extension, unsigned division and unsigned maximum.
\<close>

fun notYetSupported :: "scev \<Rightarrow> bool" where
  "notYetSupported (SCEVTruncateExpr e w) = True"
| "notYetSupported (SCEVZeroExtendExpr e w) = True"
| "notYetSupported (SCEVUDivExpr a b) = True"
| "notYetSupported (SCEVUMaxExpr ops) = True"
| "notYetSupported e = False"

text \<open>Two maps over the same space.\<close>

definition same_space :: "isl_map \<Rightarrow> isl_map \<Rightarrow> bool" where
  "same_space m m' \<longleftrightarrow> map_params m' = map_params m \<and> map_in_tuple m' = map_in_tuple m \<and>
     map_n_in m' = map_n_in m \<and> map_out_tuple m' = map_out_tuple m \<and> map_n_out m' = map_n_out m"

section \<open>Properties\<close>

lemma bindR_Inr [simp]: "bindR (Inr x) f = f x"
  by (simp add: bindR_def)

lemma bindR_Inl [simp]: "bindR (Inl e) f = Inl e"
  by (simp add: bindR_def)

lemma lin_eval_const [simp]: "lin_eval (lin_const c) nu x = c"
  by (simp add: lin_eval_def lin_const_def)

lemma lin_eval_dim [simp]: "lin_eval (lin_dim i) nu x = of_int (dim_val x i)"
  by (simp add: lin_eval_def lin_dim_def)

lemma lin_eval_param [simp]: "lin_eval (lin_param p) nu x = of_int (nu p)"
  by (simp add: lin_eval_def lin_param_def)

lemma lin_eval_add [simp]: "lin_eval (lin_add a b) nu x = lin_eval a nu x + lin_eval b nu x"
  by (simp add: lin_eval_def lin_add_def)

lemma sum_list_scale_p:
  "sum_list (map (\<lambda>(p, c). c * of_int (nu p)) (map (\<lambda>(p, c). (p, k * c)) ts))
     = k * sum_list (map (\<lambda>(p, c). c * of_int (nu p)) ts)" for k :: rat
  by (induction ts) (auto simp: algebra_simps)

lemma sum_list_scale_d:
  "sum_list (map (\<lambda>(i, c). c * of_int (dim_val x i)) (map (\<lambda>(i, c). (i, k * c)) ts))
     = k * sum_list (map (\<lambda>(i, c). c * of_int (dim_val x i)) ts)" for k :: rat
  by (induction ts) (auto simp: algebra_simps)

lemma lin_eval_scale [simp]: "lin_eval (lin_scale k a) nu x = k * lin_eval a nu x"
  by (simp add: lin_eval_def lin_scale_def sum_list_scale_p sum_list_scale_d distrib_left
      del: map_map)

lemma lin_eval_sub [simp]: "lin_eval (lin_sub a b) nu x = lin_eval a nu x - lin_eval b nu x"
  by (simp add: lin_sub_def)


lemma equateLoop_Some:
  "\<forall>i \<in> set is. 2 * i + 1 < map_n_out m \<and> i < map_n_in m \<Longrightarrow>
   \<exists>m'. equateLoop (Some m) is = Inr (Some m') \<and> same_space m m' \<and>
     (\<forall>nu z. holds (map_fml m') nu z \<longleftrightarrow>
        holds (map_fml m) nu z \<and> (\<forall>i \<in> set is. dim_val z (map_n_in m + (2 * i + 1)) = dim_val z i))"
proof (induction "is" arbitrary: m)
  case Nil
  then show ?case by (simp add: same_space_def)
next
  case (Cons i "is")
  let ?m1 = "m\<lparr> map_fml := FAnd (map_fml m)
                 (FEq (lin_sub (lin_dim (map_n_in m + (2 * i + 1))) (lin_dim i))) \<rparr>"
  have step: "isl_map_equate_out_in (Some m) (2 * i + 1) i = Inr (Some ?m1)"
    using Cons.prems by (simp add: isl_map_equate_out_in_def)
  have "\<forall>j \<in> set is. 2 * j + 1 < map_n_out ?m1 \<and> j < map_n_in ?m1"
    using Cons.prems by simp
  from Cons.IH [OF this] obtain m' where
    m': "equateLoop (Some ?m1) is = Inr (Some m')" "same_space ?m1 m'"
      "\<forall>nu z. holds (map_fml m') nu z \<longleftrightarrow>
        holds (map_fml ?m1) nu z \<and> (\<forall>i \<in> set is. dim_val z (map_n_in ?m1 + (2 * i + 1)) = dim_val z i)"
    by blast
  show ?case
    using m' step by (auto simp: same_space_def)
qed


lemma fixLoop_Some:
  "\<forall>i \<in> set is. i < length Scatter \<and> 2 * i < map_n_out m \<Longrightarrow>
   \<exists>m'. fixLoop Scatter (Some m) is = Inr (Some m') \<and> same_space m m' \<and>
     (\<forall>nu z. holds (map_fml m') nu z \<longleftrightarrow>
        holds (map_fml m) nu z \<and>
        (\<forall>i \<in> set is. dim_val z (map_n_in m + 2 * i) = unsigned_to_int (Scatter ! i)))"
proof (induction "is" arbitrary: m)
  case Nil
  then show ?case by (simp add: same_space_def)
next
  case (Cons i "is")
  let ?m1 = "m\<lparr> map_fml := FAnd (map_fml m)
                 (FEq (lin_sub (lin_dim (map_n_in m + 2 * i))
                    (lin_const (of_int (unsigned_to_int (Scatter ! i)))))) \<rparr>"
  have step: "bindR (scatterAt Scatter i) (\<lambda>v. isl_map_fix_si_out (Some m) (2 * i) (unsigned_to_int v))
                = Inr (Some ?m1)"
    using Cons.prems by (simp add: isl_map_fix_si_out_def scatterAt_def)
  have "\<forall>j \<in> set is. j < length Scatter \<and> 2 * j < map_n_out ?m1"
    using Cons.prems by simp
  from Cons.IH [OF this] obtain m' where
    m': "fixLoop Scatter (Some ?m1) is = Inr (Some m')" "same_space ?m1 m'"
      "\<forall>nu z. holds (map_fml m') nu z \<longleftrightarrow>
        holds (map_fml ?m1) nu z \<and>
        (\<forall>i \<in> set is. dim_val z (map_n_in ?m1 + 2 * i) = unsigned_to_int (Scatter ! i))"
    by blast
  have "fixLoop Scatter (Some m) (i # is) = fixLoop Scatter (Some ?m1) is"
    using Cons.prems by (simp add: isl_map_fix_si_out_def scatterAt_def)
  then show ?case
    using m' by (auto simp: same_space_def)
qed

lemma fillLoop_Some:
  "\<forall>i \<in> set is. i < map_n_out m \<Longrightarrow>
   \<exists>m'. fillLoop (Some m) is = Inr (Some m') \<and> same_space m m' \<and>
     (\<forall>nu z. holds (map_fml m') nu z \<longleftrightarrow>
        holds (map_fml m) nu z \<and> (\<forall>i \<in> set is. dim_val z (map_n_in m + i) = 0))"
proof (induction "is" arbitrary: m)
  case Nil
  then show ?case by (simp add: same_space_def)
next
  case (Cons i "is")
  let ?m1 = "m\<lparr> map_fml := FAnd (map_fml m)
                 (FEq (lin_sub (lin_dim (map_n_in m + i)) (lin_const (of_int 0)))) \<rparr>"
  have "\<forall>j \<in> set is. j < map_n_out ?m1"
    using Cons.prems by simp
  from Cons.IH [OF this] obtain m' where
    m': "fillLoop (Some ?m1) is = Inr (Some m')" "same_space ?m1 m'"
      "\<forall>nu z. holds (map_fml m') nu z \<longleftrightarrow>
        holds (map_fml ?m1) nu z \<and> (\<forall>i \<in> set is. dim_val z (map_n_in ?m1 + i) = 0)"
    by blast
  have "fillLoop (Some m) (i # is) = fillLoop (Some ?m1) is"
    using Cons.prems by (simp add: isl_map_fix_si_out_def)
  then show ?case
    using m' by (auto simp: same_space_def)
qed

lemma dim_val_append_in: "i < length x \<Longrightarrow> dim_val (x @ y) i = x ! i"
  by (simp add: dim_val_def nth_append)

lemma dim_val_append_out: "k < length y \<Longrightarrow> dim_val (x @ y) (length x + k) = y ! k"
  by (simp add: dim_val_def nth_append)

text \<open>
  Claim C1. The scattering of a statement has \<open>2 * MaxLoopDepth + 1\<close> output
  dimensions whatever the statement's own depth. For a statement of a built model (its
  iterators are at most \<open>MaxLoopDepth\<close>, \<open>Scatter\<close> has an entry for each depth, and the
  counters are below \<open>2^31\<close>) a pair of points is in the scattering exactly when output
  dimension \<open>2 i + 1\<close> equals iterator \<open>i\<close>, output dimension \<open>2 i\<close> equals the counter
  \<open>Scatter[i]\<close> for \<open>i\<close> up to the number of iterators, and every later output dimension
  is \<open>0\<close>.
\<close>

theorem buildScattering_shape:
  fixes NbIterators :: nat
  assumes depth: "NbIterators \<le> MaxLoopDepth Parent"
    and ctx: "Context Parent \<noteq> None"
    and size: "NbIterators < length Scatter"
    and small: "\<forall>i \<le> NbIterators. Scatter ! i < 2 ^ 31"
  shows "\<exists>m. buildScattering Parent NbIterators name Scatter = Inr (Some m)
      \<and> map_n_in m = NbIterators \<and> map_n_out m = 2 * MaxLoopDepth Parent + 1
      \<and> (\<forall>nu x y. in_map m nu x y \<longleftrightarrow>
            length x = NbIterators \<and> length y = 2 * MaxLoopDepth Parent + 1
            \<and> (\<forall>i < NbIterators. y ! (2 * i + 1) = x ! i)
            \<and> (\<forall>i \<le> NbIterators. y ! (2 * i) = int (Scatter ! i))
            \<and> (\<forall>j. 2 * NbIterators < j \<and> j < 2 * MaxLoopDepth Parent + 1 \<longrightarrow> y ! j = 0))"
proof -
  let ?n = NbIterators
  let ?d = "MaxLoopDepth Parent * 2 + 1"
  let ?m0 = "isl_map_universe [] name ?n ''scattering'' ?d"
  have sp0 [simp]: "map_n_in (isl_map_universe ps tin a tout b) = a"
      "map_n_out (isl_map_universe ps tin a tout b) = b"
      "map_fml (isl_map_universe ps tin a tout b) = FTrue" for ps tin a tout b
    by (simp_all add: isl_map_universe_def)
  have "\<forall>i \<in> set [0..<?n]. 2 * i + 1 < map_n_out ?m0 \<and> i < map_n_in ?m0"
    using depth by (auto simp: sp0)
  from equateLoop_Some [OF this] obtain m1 where
    m1: "equateLoop (Some ?m0) [0..<?n] = Inr (Some m1)" "same_space ?m0 m1"
      "\<forall>nu z. holds (map_fml m1) nu z \<longleftrightarrow>
         (\<forall>i \<in> set [0..<?n]. dim_val z (?n + (2 * i + 1)) = dim_val z i)"
    by (auto simp: sp0)
  have sp1: "map_n_in m1 = ?n" "map_n_out m1 = ?d"
    using m1(2) by (simp_all add: same_space_def sp0)
  have "\<forall>i \<in> set [0..<?n + 1]. i < length Scatter \<and> 2 * i < map_n_out m1"
    using depth size by (auto simp: sp1)
  from fixLoop_Some [OF this] obtain m2 where
    m2: "fixLoop Scatter (Some m1) [0..<?n + 1] = Inr (Some m2)" "same_space m1 m2"
      "\<forall>nu z. holds (map_fml m2) nu z \<longleftrightarrow>
         holds (map_fml m1) nu z \<and>
         (\<forall>i \<in> set [0..<?n + 1]. dim_val z (?n + 2 * i) = unsigned_to_int (Scatter ! i))"
    by (auto simp: sp1)
  have sp2: "map_n_in m2 = ?n" "map_n_out m2 = ?d"
    using m2(2) by (simp_all add: same_space_def sp1)
  have "\<forall>i \<in> set [2 * ?n + 1..<?d]. i < map_n_out m2"
    by (auto simp: sp2)
  from fillLoop_Some [OF this] obtain m3 where
    m3: "fillLoop (Some m2) [2 * ?n + 1..<?d] = Inr (Some m3)" "same_space m2 m3"
      "\<forall>nu z. holds (map_fml m3) nu z \<longleftrightarrow>
         holds (map_fml m2) nu z \<and> (\<forall>i \<in> set [2 * ?n + 1..<?d]. dim_val z (?n + i) = 0)"
    by (auto simp: sp2)
  have sp3: "map_n_in m3 = ?n" "map_n_out m3 = ?d"
    using m3(2) by (simp_all add: same_space_def sp2)
  from ctx obtain c where c: "Context Parent = Some c" by auto
  let ?m = "m3\<lparr> map_params := align_ids (set_params c) (map_params m3) \<rparr>"
  have res: "buildScattering Parent ?n name Scatter = Inr (Some ?m)"
    using m1(1) m2(1) m3(1) c
    by (simp add: buildScattering_def Let_def isl_map_align_params_def getParamSpace_def)
  have sgn: "unsigned_to_int (Scatter ! i) = int (Scatter ! i)" if "i \<le> ?n" for i
  proof -
    have "Scatter ! i < 2 ^ 31" using small that by blast
    then show ?thesis by (simp add: unsigned_to_int_def)
  qed
  have sem: "in_map ?m nu x y \<longleftrightarrow>
            length x = ?n \<and> length y = 2 * MaxLoopDepth Parent + 1
            \<and> (\<forall>i < ?n. y ! (2 * i + 1) = x ! i)
            \<and> (\<forall>i \<le> ?n. y ! (2 * i) = int (Scatter ! i))
            \<and> (\<forall>j. 2 * ?n < j \<and> j < 2 * MaxLoopDepth Parent + 1 \<longrightarrow> y ! j = 0)" for nu x y
  proof (cases "length x = ?n \<and> length y = 2 * MaxLoopDepth Parent + 1")
    case False
    then show ?thesis by (auto simp: in_map_def sp3)
  next
    case True
    then have lx: "length x = ?n" and ly: "length y = 2 * MaxLoopDepth Parent + 1" by simp_all
    have a: "(\<forall>i \<in> set [0..<?n]. dim_val (x @ y) (?n + (2 * i + 1)) = dim_val (x @ y) i)
          \<longleftrightarrow> (\<forall>i < ?n. y ! (2 * i + 1) = x ! i)"
    proof -
      have "dim_val (x @ y) (?n + (2 * i + 1)) = y ! (2 * i + 1)" if "i < ?n" for i
        using dim_val_append_out [of "2 * i + 1" y x] that depth lx ly by simp
      moreover have "dim_val (x @ y) i = x ! i" if "i < ?n" for i
        using dim_val_append_in [of i x y] that lx by simp
      ultimately show ?thesis by auto
    qed
    have b: "(\<forall>i \<in> set [0..<?n + 1]. dim_val (x @ y) (?n + 2 * i) = unsigned_to_int (Scatter ! i))
          \<longleftrightarrow> (\<forall>i \<le> ?n. y ! (2 * i) = int (Scatter ! i))"
    proof -
      have "dim_val (x @ y) (?n + 2 * i) = y ! (2 * i)" if "i \<le> ?n" for i
        using dim_val_append_out [of "2 * i" y x] that depth lx ly by simp
      then have e: "(dim_val (x @ y) (?n + 2 * i) = unsigned_to_int (Scatter ! i))
                 = (y ! (2 * i) = int (Scatter ! i))" if "i \<le> ?n" for i
        using sgn that by simp
      have s: "i \<in> set [0..<?n + 1] \<longleftrightarrow> i \<le> ?n" for i by auto
      show ?thesis
        unfolding Ball_def s using e by blast
    qed
    have c: "(\<forall>i \<in> set [2 * ?n + 1..<?d]. dim_val (x @ y) (?n + i) = 0)
          \<longleftrightarrow> (\<forall>j. 2 * ?n < j \<and> j < 2 * MaxLoopDepth Parent + 1 \<longrightarrow> y ! j = 0)"
    proof -
      have "dim_val (x @ y) (?n + j) = y ! j" if "j < 2 * MaxLoopDepth Parent + 1" for j
        using dim_val_append_out [of j y x] that lx ly by simp
      then have e: "(dim_val (x @ y) (?n + j) = 0) = (y ! j = 0)"
        if "j < 2 * MaxLoopDepth Parent + 1" for j
        using that by simp
      have s: "j \<in> set [2 * ?n + 1..<?d] \<longleftrightarrow> 2 * ?n < j \<and> j < 2 * MaxLoopDepth Parent + 1" for j
        by auto
      show ?thesis
        unfolding Ball_def s using e by blast
    qed
    have "in_map ?m nu x y \<longleftrightarrow> holds (map_fml m3) nu (x @ y)"
      using lx ly by (simp add: in_map_def sp3)
    also have "\<dots> \<longleftrightarrow> (\<forall>i < ?n. y ! (2 * i + 1) = x ! i)
            \<and> (\<forall>i \<le> ?n. y ! (2 * i) = int (Scatter ! i))
            \<and> (\<forall>j. 2 * ?n < j \<and> j < 2 * MaxLoopDepth Parent + 1 \<longrightarrow> y ! j = 0)"
      unfolding m3(3) [rule_format] m2(3) [rule_format] m1(3) [rule_format] a b c by blast
    finally show ?thesis using lx ly by simp
  qed
  show ?thesis
    using res sem sp3 by (intro exI [of _ ?m]) (simp add: mult.commute)
qed

theorem buildScattering_shape_witness:
  "(1::nat) \<le> 2 \<and> 1 < length [3, 0, 0 :: nat] \<and>
   [3, 0, 0 :: nat] ! 0 < 2 ^ 31 \<and> [3, 0, 0 :: nat] ! 1 < 2 ^ 31 \<and>
   (\<exists>m. buildScattering
          \<lparr> MaxLoopDepth = 2, Parameters = [], ParameterIds = [],
            Context = Some (isl_set_universe [] 0), Stmts = [] \<rparr>
          1 ''Stmt_body'' [3, 0, 0] = Inr (Some m)
      \<and> map_n_in m = 1 \<and> map_n_out m = 5
      \<and> in_map m (\<lambda>p. 0) [7] [3, 7, 0, 0, 0]
      \<and> \<not> in_map m (\<lambda>p. 0) [7] [3, 7, 0, 1, 0])"
proof -
  let ?P = "\<lparr> MaxLoopDepth = 2, Parameters = [], ParameterIds = [],
            Context = Some (isl_set_universe [] 0), Stmts = [] \<rparr>"
  have h: "\<forall>i \<le> 1. [3, 0, 0 :: nat] ! i < 2 ^ 31"
    by (simp add: le_Suc_eq)
  have a: "\<forall>i < Suc 0. [3, 7, 0, 0, 0 :: int] ! (2 * i + 1) = [7] ! i" by simp
  have b: "\<forall>i \<le> Suc 0. [3, 7, 0, 0, 0 :: int] ! (2 * i) = int ([3, 0, 0] ! i)"
    by (simp add: le_Suc_eq)
  have c: "\<forall>j. 2 * Suc 0 < j \<and> j < 2 * 2 + 1 \<longrightarrow> [3, 7, 0, 0, 0 :: int] ! j = 0"
  proof (intro allI impI)
    fix j :: nat assume "2 * Suc 0 < j \<and> j < 2 * 2 + 1"
    then have "j = 3 \<or> j = 4" by arith
    then show "[3, 7, 0, 0, 0 :: int] ! j = 0" by auto
  qed
  have d: "\<not> (\<forall>j. 2 * Suc 0 < j \<and> j < 2 * 2 + 1 \<longrightarrow> [3, 7, 0, 1, 0 :: int] ! j = 0)"
    by (auto intro!: exI [of _ 3])
  from buildScattering_shape [where NbIterators = 1 and Parent = ?P
      and Scatter = "[3, 0, 0]" and name = "''Stmt_body''"] h
  obtain m where m: "buildScattering ?P 1 ''Stmt_body'' [3, 0, 0] = Inr (Some m)"
      "map_n_in m = 1" "map_n_out m = 2 * 2 + 1"
      "\<forall>nu x y. in_map m nu x y \<longleftrightarrow>
            length x = 1 \<and> length y = 2 * 2 + 1
            \<and> (\<forall>i < 1. y ! (2 * i + 1) = x ! i)
            \<and> (\<forall>i \<le> 1. y ! (2 * i) = int ([3, 0, 0] ! i))
            \<and> (\<forall>j. 2 * 1 < j \<and> j < 2 * 2 + 1 \<longrightarrow> y ! j = 0)"
    by auto
  have "in_map m (\<lambda>p. 0) [7] [3, 7, 0, 0, 0]"
    using m(4) a b c by simp
  moreover have "\<not> in_map m (\<lambda>p. 0) [7] [3, 7, 0, 1, 0]"
    using m(4) d by simp
  ultimately show ?thesis using m h by auto
qed

lemma replace_total: "fnd \<noteq> [] \<Longrightarrow> replace str fnd rep = Inr (replaceAll fnd rep str)"
  by (simp add: replace_def)

lemma makeIslCompatible_total:
  "makeIslCompatible str = Inr (replaceAll [CHR 0x22] ''_'' (replaceAll ''.'' ''_'' (drop 1 str)))"
  by (simp add: makeIslCompatible_def replace_def)

lemma setBaseName_total:
  "setBaseName v = Inr (''MemRef_'' @
     replaceAll [CHR 0x22] ''_'' (replaceAll ''.'' ''_'' (drop 1 (asOperand v))))"
  by (simp add: setBaseName_def makeIslCompatible_total)

text \<open>
  Claim C3. For an access whose offset is not affine the construction of the memory access
  returns: its relation is the universal relation from the statement's iteration space
  to the one-dimensional space named after the base address, and its kind is \<open>Read\<close> for a
  read and \<open>MayWrite\<close> for a write.
\<close>

theorem newMemoryAccess_nonaffine:
  assumes "\<not> isAffine Access"
  shows "\<exists>MA m. newMemoryAccess E Access NbIterators stmtName S = Inr (MA, S)
      \<and> Type MA = (if isRead Access then Read else MayWrite)
      \<and> BaseAddr MA = getBase Access
      \<and> setBaseName (getBase Access) = Inr (BaseName MA)
      \<and> AccessRelation MA = Some m
      \<and> map_n_in m = NbIterators \<and> map_in_tuple m = stmtName
      \<and> map_n_out m = 1 \<and> map_out_tuple m = BaseName MA
      \<and> (\<forall>nu x y. in_map m nu x y \<longleftrightarrow> length x = NbIterators \<and> length y = 1)"
  using assms
  by (simp add: newMemoryAccess_def setBaseName_total createBasicAccessMap_def
      isl_map_universe_def in_map_def)

theorem newMemoryAccess_nonaffine_witness:
  "\<not> isAffine \<lparr> getBase = Value ''%A'' ''A'', getOffset = SCEVUnknown (Value ''%idx'' ''idx''),
        getElemSizeInBytes = 4, irType = WRITE, isAffine = False \<rparr>
   \<and> (\<exists>MA m. newMemoryAccess
          \<lparr> getParamsInAffineExpr = (\<lambda>e. []), outermostLoopInRegion = (\<lambda>l. None),
            regionContains = (\<lambda>l. False) \<rparr>
          \<lparr> getBase = Value ''%A'' ''A'', getOffset = SCEVUnknown (Value ''%idx'' ''idx''),
            getElemSizeInBytes = 4, irType = WRITE, isAffine = False \<rparr>
          1 ''Stmt_body''
          \<lparr> MaxLoopDepth = 1, Parameters = [], ParameterIds = [],
            Context = Some (isl_set_universe [] 0), Stmts = [] \<rparr>
        = Inr (MA, \<lparr> MaxLoopDepth = 1, Parameters = [], ParameterIds = [],
            Context = Some (isl_set_universe [] 0), Stmts = [] \<rparr>)
      \<and> Type MA = MayWrite \<and> AccessRelation MA = Some m \<and> map_n_out m = 1
      \<and> in_map m (\<lambda>p. 0) [5] [42])"
  using newMemoryAccess_nonaffine [where Access = "\<lparr> getBase = Value ''%A'' ''A'',
        getOffset = SCEVUnknown (Value ''%idx'' ''idx''),
        getElemSizeInBytes = 4, irType = WRITE, isAffine = False \<rparr>"
      and NbIterators = 1 and stmtName = "''Stmt_body''"
      and E = "\<lparr> getParamsInAffineExpr = (\<lambda>e. []), outermostLoopInRegion = (\<lambda>l. None),
            regionContains = (\<lambda>l. False) \<rparr>"
      and S = "\<lparr> MaxLoopDepth = 1, Parameters = [], ParameterIds = [],
            Context = Some (isl_set_universe [] 0), Stmts = [] \<rparr>"]
  by (auto simp: isRead_def)

lemma holds_foldr_FOr:
  "holds (foldr FOr fs FFalse) nu x \<longleftrightarrow> (\<exists>f \<in> set fs. holds f nu x)"
  by (induction fs) auto

lemma holds_cmp_fml:
  "holds (cmp_fml atom a b) nu x \<longleftrightarrow>
     (\<exists>p \<in> set (pa_pieces a). \<exists>q \<in> set (pa_pieces b).
        holds (fst p) nu x \<and> holds (fst q) nu x \<and> holds (atom (lin_sub (snd p) (snd q))) nu x)"
  unfolding cmp_fml_def holds_foldr_FOr
  by (simp add: split_def)

lemma pw_val_iff:
  "pw_val a nu x u \<longleftrightarrow> (\<exists>p \<in> set (pa_pieces a). holds (fst p) nu x \<and> lin_eval (snd p) nu x = u)"
  by (simp add: pw_val_def split_def)

lemma holds_cmp_fml_val:
  assumes atom: "\<And>d. holds (atom d) nu x = R (lin_eval d nu x)"
  shows "holds (cmp_fml atom a b) nu x \<longleftrightarrow>
     (\<exists>u v. pw_val a nu x u \<and> pw_val b nu x v \<and> R (u - v))"
proof
  assume "holds (cmp_fml atom a b) nu x"
  then obtain p q where pq: "p \<in> set (pa_pieces a)" "q \<in> set (pa_pieces b)"
      "holds (fst p) nu x" "holds (fst q) nu x" "holds (atom (lin_sub (snd p) (snd q))) nu x"
    unfolding holds_cmp_fml by blast
  have "pw_val a nu x (lin_eval (snd p) nu x)" "pw_val b nu x (lin_eval (snd q) nu x)"
    unfolding pw_val_iff using pq by blast+
  moreover have "R (lin_eval (snd p) nu x - lin_eval (snd q) nu x)"
    using pq(5) by (simp add: atom)
  ultimately show "\<exists>u v. pw_val a nu x u \<and> pw_val b nu x v \<and> R (u - v)" by blast
next
  assume "\<exists>u v. pw_val a nu x u \<and> pw_val b nu x v \<and> R (u - v)"
  then obtain u v where uv: "pw_val a nu x u" "pw_val b nu x v" "R (u - v)" by blast
  from uv(1) obtain p where p: "p \<in> set (pa_pieces a)" "holds (fst p) nu x"
      "lin_eval (snd p) nu x = u"
    unfolding pw_val_iff by blast
  from uv(2) obtain q where q: "q \<in> set (pa_pieces b)" "holds (fst q) nu x"
      "lin_eval (snd q) nu x = v"
    unfolding pw_val_iff by blast
  have "holds (atom (lin_sub (snd p) (snd q))) nu x"
    using uv(3) p(3) q(3) by (simp add: atom)
  then show "holds (cmp_fml atom a b) nu x"
    unfolding holds_cmp_fml using p q by blast
qed

lemma holds_ge_fml:
  "holds (ge_fml a b) nu x \<longleftrightarrow> (\<exists>u v. pw_val a nu x u \<and> pw_val b nu x v \<and> v \<le> u)"
  unfolding ge_fml_def
  by (subst holds_cmp_fml_val [where R = "\<lambda>d. 0 \<le> d"]) simp_all

lemma holds_gt_fml:
  "holds (gt_fml a b) nu x \<longleftrightarrow> (\<exists>u v. pw_val a nu x u \<and> pw_val b nu x v \<and> v + 1 \<le> u)"
proof -
  have e: "(0 \<le> u - v - 1) = (v + 1 \<le> u)" for u v :: rat by linarith
  show ?thesis
    unfolding gt_fml_def
    by (subst holds_cmp_fml_val [where R = "\<lambda>d. 0 \<le> d - 1"]) (simp_all only: e holds.simps lin_eval_sub lin_eval_const)
qed

lemma holds_eq_fml:
  "holds (eq_fml a b) nu x \<longleftrightarrow> (\<exists>u. pw_val a nu x u \<and> pw_val b nu x u)"
  unfolding eq_fml_def
  by (subst holds_cmp_fml_val [where R = "\<lambda>d. d = 0"]) simp_all

subsection \<open>Invariants of the translation\<close>

lemma addLoop_inv:
  assumes add: "\<And>a b. P a \<Longrightarrow> P b \<Longrightarrow> P (pw_on_shared_domain lin_add a b)"
  shows "addLoop A rs = Inr (Some c) \<Longrightarrow> (\<And>a. A = Some a \<Longrightarrow> P a) \<Longrightarrow>
         (\<And>r a. r \<in> set rs \<Longrightarrow> r = Inr (Some a) \<Longrightarrow> P a) \<Longrightarrow> P c"
proof (induction rs arbitrary: A)
  case Nil
  then show ?case by simp
next
  case (Cons r rs)
  from Cons.prems(1) obtain N where r: "r = Inr N"
    and rest: "addLoop (isl_pw_aff_add A N) rs = Inr (Some c)"
    by (cases r) auto
  show ?case
  proof (rule Cons.IH [OF rest])
    fix a' assume a': "isl_pw_aff_add A N = Some a'"
    then obtain a n where an: "A = Some a" "N = Some n" "a' = pw_on_shared_domain lin_add a n"
      by (auto simp: isl_pw_aff_add_def split: option.splits)
    have "P a" using Cons.prems(2) an(1) by blast
    moreover have "P n" using Cons.prems(3) [of r n] r an(2) by simp
    ultimately show "P a'" using add an(3) by blast
  next
    fix r' a assume "r' \<in> set rs" "r' = Inr (Some a)"
    then show "P a" using Cons.prems(3) [of r' a] by simp
  qed
qed

lemma maxLoop_inv:
  assumes mx: "\<And>a b c. P a \<Longrightarrow> P b \<Longrightarrow> isl_pw_aff_max (Some a) (Some b) = Some c \<Longrightarrow> P c"
  shows "maxLoop A rs = Inr (Some c) \<Longrightarrow> (\<And>a. A = Some a \<Longrightarrow> P a) \<Longrightarrow>
         (\<And>r a. r \<in> set rs \<Longrightarrow> r = Inr (Some a) \<Longrightarrow> P a) \<Longrightarrow> P c"
proof (induction rs arbitrary: A)
  case Nil
  then show ?case by simp
next
  case (Cons r rs)
  from Cons.prems(1) obtain N where r: "r = Inr N"
    and rest: "maxLoop (isl_pw_aff_max A N) rs = Inr (Some c)"
    by (cases r) auto
  show ?case
  proof (rule Cons.IH [OF rest])
    fix a' assume a': "isl_pw_aff_max A N = Some a'"
    then obtain a n where an: "A = Some a" "N = Some n"
      by (auto simp: isl_pw_aff_max_def split: option.splits)
    have "P a" using Cons.prems(2) an(1) by blast
    moreover have "P n" using Cons.prems(3) [of r n] r an(2) by simp
    ultimately show "P a'" using mx a' an by blast
  next
    fix r' a assume "r' \<in> set rs" "r' = Inr (Some a)"
    then show "P a" using Cons.prems(3) [of r' a] by simp
  qed
qed

lemma isl_pw_aff_mul_Some:
  "isl_pw_aff_mul A B = Inr (Some c) \<Longrightarrow> \<exists>a b. A = Some a \<and> B = Some b"
  by (auto simp: isl_pw_aff_mul_def split: option.splits)

lemma mulLoop_inv:
  assumes mul: "\<And>a b c. P a \<Longrightarrow> P b \<Longrightarrow> isl_pw_aff_mul (Some a) (Some b) = Inr (Some c) \<Longrightarrow> P c"
  shows "mulLoop A rs = Inr (Some c) \<Longrightarrow> (\<And>a. A = Some a \<Longrightarrow> P a) \<Longrightarrow>
         (\<And>r a. r \<in> set rs \<Longrightarrow> r = Inr (Some a) \<Longrightarrow> P a) \<Longrightarrow> P c"
proof (induction rs arbitrary: A)
  case Nil
  then show ?case by simp
next
  case (Cons r rs)
  from Cons.prems(1) obtain N where r: "r = Inr N"
    by (cases r) auto
  have nz: "\<not> (isl_pw_aff_is_cst A = 0 \<and> isl_pw_aff_is_cst N = 0)"
    using Cons.prems(1) r by auto
  then have "bindR (isl_pw_aff_mul A N) (\<lambda>P. mulLoop P rs) = Inr (Some c)"
    using Cons.prems(1) r by (auto split: if_splits)
  then obtain A' where m: "isl_pw_aff_mul A N = Inr A'"
    and rest: "mulLoop A' rs = Inr (Some c)"
    by (cases "isl_pw_aff_mul A N") auto
  show ?case
  proof (rule Cons.IH [OF rest])
    fix a' assume a': "A' = Some a'"
    with m isl_pw_aff_mul_Some obtain a n where an: "A = Some a" "N = Some n"
      by blast
    have "P a" using Cons.prems(2) an(1) by blast
    moreover have "P n" using Cons.prems(3) [of r n] r an(2) by simp
    ultimately show "P a'" using mul m a' an by blast
  next
    fix r' a assume "r' \<in> set rs" "r' = Inr (Some a)"
    then show "P a" using Cons.prems(3) [of r' a] by simp
  qed
qed

lemma ifParam_cases:
  assumes "ifParam S n e k = Inr (Some c)"
  obtains ID where "getIdForParam S e = Some ID" "c = paramAff ID n"
    | "getIdForParam S e = None" "k = Inr (Some c)"
  using assms by (auto simp: ifParam_def split: option.splits)

lemma visit_inv:
  assumes par: "\<And>e ID. getIdForParam S e = Some ID \<Longrightarrow> P (paramAff ID n)"
    and cst: "\<And>k. P (pw_aff_on_universe [] n (lin_const (of_int k)))"
    and add: "\<And>a b. P a \<Longrightarrow> P b \<Longrightarrow> P (pw_on_shared_domain lin_add a b)"
    and mul: "\<And>a b c. P a \<Longrightarrow> P b \<Longrightarrow> isl_pw_aff_mul (Some a) (Some b) = Inr (Some c) \<Longrightarrow> P c"
    and mx: "\<And>a b c. P a \<Longrightarrow> P b \<Longrightarrow> isl_pw_aff_max (Some a) (Some b) = Some c \<Longrightarrow> P c"
    and it: "\<And>i. i < n \<Longrightarrow> P (pw_aff_on_universe [] n (lin_dim i))"
    and unk: "\<And>v. getIdForParam S (SCEVUnknown v) = None \<Longrightarrow>
               P (pw_aff_on_universe [(getName v, UserValue v)] n (lin_param (getName v, UserValue v)))"
  shows "visit E S n e = Inr (Some c) \<Longrightarrow> P c"
proof (induction e arbitrary: c)
  case (SCEVConstant w v)
  from SCEVConstant.prems [unfolded visit.simps] show ?case
    by (rule ifParam_cases) (auto simp: visitConstant_def intro: par cst)
next
  case (SCEVTruncateExpr e w)
  from SCEVTruncateExpr.prems [unfolded visit.simps] show ?case
    by (rule ifParam_cases) (auto intro: par)
next
  case (SCEVZeroExtendExpr e w)
  from SCEVZeroExtendExpr.prems [unfolded visit.simps] show ?case
    by (rule ifParam_cases) (auto intro: par)
next
  case (SCEVSignExtendExpr e w)
  from SCEVSignExtendExpr.prems [unfolded visit.simps] show ?case
    by (rule ifParam_cases) (auto intro: par SCEVSignExtendExpr.IH)
next
  case (SCEVAddExpr ops)
  have ih: "P a" if "r \<in> set (map (visit E S n) ops)" "r = Inr (Some a)" for r a
    using that SCEVAddExpr.IH by auto
  from SCEVAddExpr.prems [unfolded visit.simps] show ?case
  proof (rule ifParam_cases)
    fix ID assume "getIdForParam S (SCEVAddExpr ops) = Some ID" "c = paramAff ID n"
    then show ?thesis using par by blast
  next
    assume v: "visitAddExpr (map (visit E S n) ops) = Inr (Some c)"
    then obtain r rs where rs: "map (visit E S n) ops = r # rs"
      by (cases "map (visit E S n) ops") (auto simp: visitAddExpr_def)
    with v obtain A where A: "r = Inr A" "addLoop A rs = Inr (Some c)"
      by (cases r) (auto simp: visitAddExpr_def)
    show ?thesis
    proof (rule addLoop_inv [where P = P, OF add A(2)])
      fix a assume "A = Some a"
      then show "P a" using ih [of r a] rs A(1) by simp
    next
      fix r' a assume "r' \<in> set rs" "r' = Inr (Some a)"
      then show "P a" using ih [of r' a] rs by simp
    qed
  qed
next
  case (SCEVMulExpr ops)
  have ih: "P a" if "r \<in> set (map (visit E S n) ops)" "r = Inr (Some a)" for r a
    using that SCEVMulExpr.IH by auto
  from SCEVMulExpr.prems [unfolded visit.simps] show ?case
  proof (rule ifParam_cases)
    fix ID assume "getIdForParam S (SCEVMulExpr ops) = Some ID" "c = paramAff ID n"
    then show ?thesis using par by blast
  next
    assume v: "visitMulExpr (map (visit E S n) ops) = Inr (Some c)"
    then obtain r rs where rs: "map (visit E S n) ops = r # rs"
      by (cases "map (visit E S n) ops") (auto simp: visitMulExpr_def)
    with v obtain A where A: "r = Inr A" "mulLoop A rs = Inr (Some c)"
      by (cases r) (auto simp: visitMulExpr_def)
    show ?thesis
    proof (rule mulLoop_inv [where P = P, OF mul A(2)])
      fix a assume "A = Some a"
      then show "P a" using ih [of r a] rs A(1) by simp
    next
      fix r' a assume "r' \<in> set rs" "r' = Inr (Some a)"
      then show "P a" using ih [of r' a] rs by simp
    qed
  qed
next
  case (SCEVUDivExpr a b)
  from SCEVUDivExpr.prems [unfolded visit.simps] show ?case
    by (rule ifParam_cases) (auto intro: par)
next
  case (SCEVAddRecExpr ops L)
  have ih: "P a" if "r \<in> set (map (visit E S n) ops)" "r = Inr (Some a)" for r a
    using that SCEVAddRecExpr.IH by auto
  from SCEVAddRecExpr.prems [unfolded visit.simps] show ?case
  proof (rule ifParam_cases)
    fix ID assume "getIdForParam S (SCEVAddRecExpr ops L) = Some ID" "c = paramAff ID n"
    then show ?thesis using par by blast
  next
    let ?rs = "map (visit E S n) ops"
    assume v: "visitAddRecExpr E n L ?rs = Inr (Some c)"
    then have len: "length ?rs = 2"
      by (auto simp: visitAddRecExpr_def split: if_splits)
    from v len obtain Start Step d LP M where
      st: "?rs ! 0 = Inr Start" and sp: "?rs ! 1 = Inr Step"
      and d: "iteratorAff n d = Inr LP"
      and m: "isl_pw_aff_mul Step LP = Inr M"
      and c: "isl_pw_aff_add Start M = Some c"
      by (auto simp: visitAddRecExpr_def bindR_def split: if_splits sum.splits)
    from c obtain s0 m0 where sm: "Start = Some s0" "M = Some m0"
        "c = pw_on_shared_domain lin_add s0 m0"
      by (auto simp: isl_pw_aff_add_def split: option.splits)
    from m sm(2) isl_pw_aff_mul_Some obtain sp0 lp0 where sl: "Step = Some sp0" "LP = Some lp0"
      by blast
    have "P s0" using ih [of "?rs ! 0" s0] st sm(1) len by (metis nth_mem zero_less_numeral)
    moreover have "P sp0" using ih [of "?rs ! 1" sp0] sp sl(1) len
      by (metis nth_mem one_less_numeral_iff semiring_norm(76))
    moreover have "P lp0" using d sl(2) it
      by (auto simp: iteratorAff_def split: if_splits)
    ultimately show ?thesis using add mul m sm sl by blast
  qed
next
  case (SCEVSMaxExpr ops)
  have ih: "P a" if "r \<in> set (map (visit E S n) ops)" "r = Inr (Some a)" for r a
    using that SCEVSMaxExpr.IH by auto
  from SCEVSMaxExpr.prems [unfolded visit.simps] show ?case
  proof (rule ifParam_cases)
    fix ID assume "getIdForParam S (SCEVSMaxExpr ops) = Some ID" "c = paramAff ID n"
    then show ?thesis using par by blast
  next
    assume v: "visitSMaxExpr (map (visit E S n) ops) = Inr (Some c)"
    then obtain r rs where rs: "map (visit E S n) ops = r # rs"
      by (cases "map (visit E S n) ops") (auto simp: visitSMaxExpr_def)
    with v obtain A where A: "r = Inr A" "maxLoop A rs = Inr (Some c)"
      by (cases r) (auto simp: visitSMaxExpr_def)
    show ?thesis
    proof (rule maxLoop_inv [where P = P, OF mx A(2)])
      fix a assume "A = Some a"
      then show "P a" using ih [of r a] rs A(1) by simp
    next
      fix r' a assume "r' \<in> set rs" "r' = Inr (Some a)"
      then show "P a" using ih [of r' a] rs by simp
    qed
  qed
next
  case (SCEVUMaxExpr ops)
  from SCEVUMaxExpr.prems [unfolded visit.simps] show ?case
    by (rule ifParam_cases) (auto intro: par)
next
  case (SCEVUnknown Val)
  from SCEVUnknown.prems [unfolded visit.simps] show ?case
    by (rule ifParam_cases) (auto simp: visitUnknown_def Let_def intro: par unk)
next
  case SCEVCouldNotCompute
  from SCEVCouldNotCompute.prems [unfolded visit.simps] show ?case
    by (rule ifParam_cases) (auto intro: par)
qed

lemma collect_Inr:
  "collect rs = Inr xs \<Longrightarrow> rs = map Inr xs"
proof (induction rs arbitrary: xs)
  case Nil
  then show ?case by simp
next
  case (Cons r rs)
  from Cons.prems obtain y ys where "r = Inr y" "collect rs = Inr ys" "xs = y # ys"
    by (cases r; cases "collect rs") auto
  then show ?case using Cons.IH by simp
qed

lemma isl_pw_aff_mul_pieces:
  assumes "isl_pw_aff_mul (Some a) (Some b) = Inr (Some c)"
  shows "pa_params c = align_ids (pa_params b) (pa_params a)"
    and "pa_n_in c = pa_n_in a"
    and "p \<in> set (pa_pieces c) \<Longrightarrow>
         \<exists>p1 \<in> set (pa_pieces a). \<exists>p2 \<in> set (pa_pieces b).
            isl_aff_mul (snd p1) (snd p2) = Inr (snd p) \<and> fst p = FAnd (fst p1) (fst p2)"
    and "(pa_pieces c = []) = (pa_pieces a = [] \<or> pa_pieces b = [])"
proof -
  let ?rs = "[bindR (isl_aff_mul l1 l2) (\<lambda>l. Inr (FAnd g1 g2, l)).
                (g1, l1) \<leftarrow> pa_pieces a, (g2, l2) \<leftarrow> pa_pieces b]"
  from assms obtain ps where ps: "collect ?rs = Inr ps"
    and c: "c = \<lparr> pa_params = align_ids (pa_params b) (pa_params a),
                  pa_n_in = pa_n_in a, pa_pieces = ps \<rparr>"
    by (cases "collect ?rs") (auto simp: isl_pw_aff_mul_def)
  from collect_Inr [OF ps] have rs: "?rs = map Inr ps" .
  show "pa_params c = align_ids (pa_params b) (pa_params a)" "pa_n_in c = pa_n_in a"
    using c by simp_all
  have cz: "concat (map (\<lambda>p. []) xs) = []" for xs :: "(fml \<times> lin) list"
    by (induction xs) auto
  have "length ?rs = length ps" using rs by (metis length_map)
  then show "(pa_pieces c = []) = (pa_pieces a = [] \<or> pa_pieces b = [])"
    using c by (cases "pa_pieces a"; cases "pa_pieces b") (auto simp: split_def cz)
  assume "p \<in> set (pa_pieces c)"
  then have "Inr p \<in> set ?rs" using rs c by simp
  then obtain p1 p2 where p12: "p1 \<in> set (pa_pieces a)" "p2 \<in> set (pa_pieces b)"
      "Inr p = bindR (isl_aff_mul (snd p1) (snd p2)) (\<lambda>l. Inr (FAnd (fst p1) (fst p2), l))"
    by (auto simp: split_def)
  then obtain l where "isl_aff_mul (snd p1) (snd p2) = Inr l" "p = (FAnd (fst p1) (fst p2), l)"
    by (cases "isl_aff_mul (snd p1) (snd p2)") auto
  then show "\<exists>p1 \<in> set (pa_pieces a). \<exists>p2 \<in> set (pa_pieces b).
            isl_aff_mul (snd p1) (snd p2) = Inr (snd p) \<and> fst p = FAnd (fst p1) (fst p2)"
    using p12 by auto
qed

lemma int_lin_add: "int_lin a \<Longrightarrow> int_lin b \<Longrightarrow> int_lin (lin_add a b)"
  by (simp add: int_lin_def lin_add_def)

lemma int_lin_scale: "k \<in> \<int> \<Longrightarrow> int_lin a \<Longrightarrow> int_lin (lin_scale k a)"
  by (auto simp: int_lin_def lin_scale_def list_all_iff)

lemma int_lin_mul:
  assumes "int_lin a" "int_lin b" "isl_aff_mul a b = Inr c"
  shows "int_lin c"
proof -
  have "cterm a \<in> \<int>" "cterm b \<in> \<int>"
    using assms by (simp_all add: int_lin_def)
  then show ?thesis
    using assms int_lin_scale by (auto simp: isl_aff_mul_def split: if_splits)
qed

lemma int_lin_eval: "int_lin l \<Longrightarrow> lin_eval l nu x \<in> \<int>"
proof -
  have p: "list_all (\<lambda>t. snd t \<in> \<int>) ts \<Longrightarrow>
        sum_list (map (\<lambda>(p, c). c * of_int (nu p)) ts) \<in> \<int>" for ts :: "(isl_id \<times> rat) list"
    by (induction ts) (auto simp: split_def)
  have d: "list_all (\<lambda>t. snd t \<in> \<int>) ts \<Longrightarrow>
        sum_list (map (\<lambda>(i, c). c * of_int (dim_val x i)) ts) \<in> \<int>" for ts :: "(nat \<times> rat) list"
    by (induction ts) (auto simp: split_def)
  show "int_lin l \<Longrightarrow> lin_eval l nu x \<in> \<int>"
    by (simp add: int_lin_def lin_eval_def p d)
qed

lemma int_pw_val: "int_pw a \<Longrightarrow> pw_val a nu x v \<Longrightarrow> v \<in> \<int>"
  by (auto simp: int_pw_def pw_val_def list_all_iff int_lin_eval)

lemma pw_on_shared_domain_pieces:
  "p \<in> set (pa_pieces (pw_on_shared_domain f a b)) \<longleftrightarrow>
     (\<exists>p1 \<in> set (pa_pieces a). \<exists>p2 \<in> set (pa_pieces b).
        p = (FAnd (fst p1) (fst p2), f (snd p1) (snd p2)))"
  by (simp add: pw_on_shared_domain_def split_def image_iff)

lemma isl_pw_aff_max_pieces:
  assumes "isl_pw_aff_max (Some a) (Some b) = Some c"
  shows "pa_params c = align_ids (pa_params b) (pa_params a)"
    and "pa_n_in c = pa_n_in a"
    and "p \<in> set (pa_pieces c) \<Longrightarrow> \<exists>q \<in> set (pa_pieces a) \<union> set (pa_pieces b). snd p = snd q"
    and "(pa_pieces c = []) = (pa_pieces a = [] \<and> pa_pieces b = [])"
proof -
  let ?le = "ge_fml b a"
  let ?rest = "FAnd (FAnd (pw_domain_fml a) (pw_domain_fml b)) (FNot ?le)"
  have c: "c = \<lparr> pa_params = align_ids (pa_params b) (pa_params a), pa_n_in = pa_n_in a,
                  pa_pieces = map (\<lambda>q. (FAnd (fst q) ?le, snd q)) (pa_pieces b)
                            @ map (\<lambda>q. (FAnd (fst q) ?rest, snd q)) (pa_pieces a) \<rparr>"
    using assms by (simp add: isl_pw_aff_max_def Let_def split_def)
  show "pa_params c = align_ids (pa_params b) (pa_params a)" "pa_n_in c = pa_n_in a"
    "(pa_pieces c = []) = (pa_pieces a = [] \<and> pa_pieces b = [])"
    by (simp_all add: c conj_commute)
  assume "p \<in> set (pa_pieces c)"
  then have "p \<in> (\<lambda>q. (FAnd (fst q) ?le, snd q)) ` set (pa_pieces b)
           \<or> p \<in> (\<lambda>q. (FAnd (fst q) ?rest, snd q)) ` set (pa_pieces a)"
    by (simp add: c)
  then show "\<exists>q \<in> set (pa_pieces a) \<union> set (pa_pieces b). snd p = snd q"
    by (elim disjE imageE) (simp_all, blast+)
qed

lemma visit_int_pw:
  assumes "visit E S n e = Inr (Some c)"
  shows "int_pw c"
proof (rule visit_inv [where P = int_pw, OF _ _ _ _ _ _ _ assms])
  show "int_pw (paramAff ID n)" for ID
    by (simp add: paramAff_def pw_aff_on_universe_def int_pw_def int_lin_def lin_param_def)
  show "int_pw (pw_aff_on_universe [] n (lin_const (of_int k)))" for k
    by (simp add: pw_aff_on_universe_def int_pw_def int_lin_def lin_const_def)
  show "int_pw (pw_on_shared_domain lin_add a b)" if "int_pw a" "int_pw b" for a b
    unfolding int_pw_def list_all_iff
  proof
    fix p assume "p \<in> set (pa_pieces (pw_on_shared_domain lin_add a b))"
    then obtain p1 p2 where "p1 \<in> set (pa_pieces a)" "p2 \<in> set (pa_pieces b)"
        "p = (FAnd (fst p1) (fst p2), lin_add (snd p1) (snd p2))"
      unfolding pw_on_shared_domain_pieces by blast
    then show "int_lin (snd p)"
      using that int_lin_add by (simp add: int_pw_def list_all_iff)
  qed
  show "int_pw c" if "int_pw a" "int_pw b" "isl_pw_aff_mul (Some a) (Some b) = Inr (Some c)"
    for a b c
    unfolding int_pw_def list_all_iff
  proof
    fix p assume "p \<in> set (pa_pieces c)"
    from isl_pw_aff_mul_pieces(3) [OF that(3) this] obtain p1 p2 where
      "p1 \<in> set (pa_pieces a)" "p2 \<in> set (pa_pieces b)"
      "isl_aff_mul (snd p1) (snd p2) = Inr (snd p)" by blast
    moreover have "int_lin (snd p1)" "int_lin (snd p2)"
      using that(1,2) calculation(1,2) by (simp_all add: int_pw_def list_all_iff)
    ultimately show "int_lin (snd p)"
      using int_lin_mul by blast
  qed
  show "int_pw c" if "int_pw a" "int_pw b" "isl_pw_aff_max (Some a) (Some b) = Some c" for a b c
    unfolding int_pw_def list_all_iff
  proof
    fix p assume "p \<in> set (pa_pieces c)"
    from isl_pw_aff_max_pieces(3) [OF that(3) this] obtain q where
      "q \<in> set (pa_pieces a) \<union> set (pa_pieces b)" "snd p = snd q" by blast
    then show "int_lin (snd p)"
      using that(1,2) by (auto simp: int_pw_def list_all_iff)
  qed
  show "int_pw (pw_aff_on_universe [] n (lin_dim i))" for i
    by (simp add: pw_aff_on_universe_def int_pw_def int_lin_def lin_dim_def)
  show "int_pw (pw_aff_on_universe [(getName v, UserValue v)] n (lin_param (getName v, UserValue v)))"
    for v
    by (simp add: pw_aff_on_universe_def int_pw_def int_lin_def lin_param_def)
qed

lemma getPwAff_visit:
  "getPwAff E n S e = Inr (A, S') \<Longrightarrow>
     S' = addParams S (getParamsInAffineExpr E e) \<and> visit E S' n e = Inr A"
  by (cases "visit E (addParams S (getParamsInAffineExpr E e)) n e")
     (auto simp: getPwAff_def Let_def)

lemma getPwAff_int_pw:
  "getPwAff E n S e = Inr (Some c, S') \<Longrightarrow> int_pw c"
  using getPwAff_visit visit_int_pw by blast

lemma visit_n_in:
  assumes "visit E S n e = Inr (Some c)"
  shows "pa_n_in c = n"
proof (rule visit_inv [where P = "\<lambda>a. pa_n_in a = n", OF _ _ _ _ _ _ _ assms])
  show "pa_n_in c = n" if "pa_n_in a = n" "isl_pw_aff_mul (Some a) (Some b) = Inr (Some c)"
    for a b c
    using isl_pw_aff_mul_pieces(2) [OF that(2)] that(1) by simp
  show "pa_n_in c = n" if "pa_n_in a = n" "isl_pw_aff_max (Some a) (Some b) = Some c" for a b c
    using isl_pw_aff_max_pieces(2) [OF that(2)] that(1) by simp
qed (simp_all add: paramAff_def pw_aff_on_universe_def pw_on_shared_domain_def)

lemma getPwAff_n_in:
  "getPwAff E n S e = Inr (Some c, S') \<Longrightarrow> pa_n_in c = n"
  using getPwAff_visit visit_n_in by blast

lemma Ints_less_iff_add_one_le:
  assumes "u \<in> \<int>" "v \<in> \<int>"
  shows "(v + 1 \<le> u) \<longleftrightarrow> (v < (u :: rat))"
proof -
  from assms obtain a b where ab: "u = of_int a" "v = of_int b"
    by (auto elim!: Ints_cases)
  have "(rat_of_int b + 1 \<le> of_int a) = (b + 1 \<le> a)"
    using of_int_le_iff [of "b + 1" a, where ?'a = rat] by simp
  moreover have "(b + 1 \<le> a) = (b < a)" by linarith
  moreover have "(b < a) = (rat_of_int b < of_int a)"
    by (rule of_int_less_iff [symmetric])
  ultimately show ?thesis unfolding ab by blast
qed

lemma in_cmp_set:
  "cmp_set F (Some a) (Some b) = Some D \<Longrightarrow>
     set_n_dim D = pa_n_in a \<and> (in_set D nu x \<longleftrightarrow> length x = pa_n_in a \<and> holds (F a b) nu x)"
  by (auto simp: cmp_set_def in_set_def)


lemma buildConditionSet_eval:
  assumes L: "getPwAff E n S (getLHS Comp) = Inr (L, S1)"
    and R: "getPwAff E n S1 (getRHS Comp) = Inr (R, S2)"
  shows "buildConditionSet E n S Comp =
       (case getPred Comp of
          ICMP_EQ \<Rightarrow> Inr (isl_pw_aff_eq_set L R, S2)
        | ICMP_NE \<Rightarrow> Inr (isl_pw_aff_ne_set L R, S2)
        | ICMP_SLT \<Rightarrow> Inr (isl_pw_aff_lt_set L R, S2)
        | ICMP_SLE \<Rightarrow> Inr (isl_pw_aff_le_set L R, S2)
        | ICMP_SGT \<Rightarrow> Inr (isl_pw_aff_gt_set L R, S2)
        | ICMP_SGE \<Rightarrow> Inr (isl_pw_aff_ge_set L R, S2)
        | _ \<Rightarrow> Inl Unreachable)"
  using L R by (cases "getPred Comp") (simp_all add: buildConditionSet_def)

lemma buildConditionSet_unsupported:
  assumes "predicate_rel (getPred Comp) = None"
  shows "\<exists>f. buildConditionSet E n S Comp = Inl f"
proof (cases "getPwAff E n S (getLHS Comp)")
  case (Inl f)
  then show ?thesis by (simp add: buildConditionSet_def)
next
  case (Inr p)
  obtain L S1 where p: "p = (L, S1)" by (cases p)
  show ?thesis
  proof (cases "getPwAff E n S1 (getRHS Comp)")
    case (Inl f)
    then show ?thesis using Inr p by (simp add: buildConditionSet_def)
  next
    case R: (Inr q)
    obtain R' S2 where q: "q = (R', S2)" by (cases q)
    show ?thesis
      using buildConditionSet_eval [of E n S Comp L S1 R' S2] Inr p R q assms
      by (cases "getPred Comp") simp_all
  qed
qed

text \<open>
  Claim C7. Condition-set translation supports exactly the equal, not-equal and four
  signed relational predicates: when both operands translate, the set holds the points
  where the two translated operands stand in the predicate's relation. On an unsigned (or
  a non-integer) predicate the translation never returns; it reaches the
  \<open>llvm_unreachable\<close> when both operands translate.
\<close>

theorem buildConditionSet_predicates:
  "(predicate_rel (getPred Comp) = None \<longrightarrow> (\<exists>f. buildConditionSet E n S Comp = Inl f)) \<and>
   (\<forall>L S1 R S2.
      getPwAff E n S (getLHS Comp) = Inr (Some L, S1) \<longrightarrow>
      getPwAff E n S1 (getRHS Comp) = Inr (Some R, S2) \<longrightarrow>
      (case predicate_rel (getPred Comp) of
         None \<Rightarrow> buildConditionSet E n S Comp = Inl Unreachable
       | Some rel \<Rightarrow>
           (\<exists>D. buildConditionSet E n S Comp = Inr (Some D, S2) \<and> set_n_dim D = n \<and>
              (\<forall>nu x. in_set D nu x \<longleftrightarrow>
                 length x = n \<and> (\<exists>l r. pw_val L nu x l \<and> pw_val R nu x r \<and> rel l r)))))"
proof (intro conjI allI impI)
  assume "predicate_rel (getPred Comp) = None"
  then show "\<exists>f. buildConditionSet E n S Comp = Inl f"
    by (rule buildConditionSet_unsupported)
next
  fix L S1 R S2
  assume L: "getPwAff E n S (getLHS Comp) = Inr (Some L, S1)"
    and R: "getPwAff E n S1 (getRHS Comp) = Inr (Some R, S2)"
  note ev = buildConditionSet_eval [OF L R]
  have nL: "pa_n_in L = n" and nR: "pa_n_in R = n"
    using getPwAff_n_in L R by blast+
  have iL: "l \<in> \<int>" if "pw_val L nu x l" for nu x l
    using getPwAff_int_pw [OF L] int_pw_val that by blast
  have iR: "r \<in> \<int>" if "pw_val R nu x r" for nu x r
    using getPwAff_int_pw [OF R] int_pw_val that by blast
  have ge: "holds (ge_fml L R) nu x \<longleftrightarrow> (\<exists>l r. pw_val L nu x l \<and> pw_val R nu x r \<and> r \<le> l)"
    for nu x by (rule holds_ge_fml)
  have le: "holds (ge_fml R L) nu x \<longleftrightarrow> (\<exists>l r. pw_val L nu x l \<and> pw_val R nu x r \<and> l \<le> r)"
    for nu x unfolding holds_ge_fml by blast
  have gt: "holds (gt_fml L R) nu x \<longleftrightarrow> (\<exists>l r. pw_val L nu x l \<and> pw_val R nu x r \<and> r < l)"
    for nu x unfolding holds_gt_fml using iL iR Ints_less_iff_add_one_le by blast
  have lt: "holds (gt_fml R L) nu x \<longleftrightarrow> (\<exists>l r. pw_val L nu x l \<and> pw_val R nu x r \<and> l < r)"
    for nu x unfolding holds_gt_fml using iL iR Ints_less_iff_add_one_le by blast
  have eq: "holds (eq_fml L R) nu x \<longleftrightarrow> (\<exists>l r. pw_val L nu x l \<and> pw_val R nu x r \<and> l = r)"
    for nu x unfolding holds_eq_fml by blast
  have ne: "holds (FOr (gt_fml R L) (gt_fml L R)) nu x \<longleftrightarrow>
        (\<exists>l r. pw_val L nu x l \<and> pw_val R nu x r \<and> l \<noteq> r)"
    for nu x unfolding holds.simps lt gt by (metis less_irrefl linorder_neqE_linordered_idom)
  show "case predicate_rel (getPred Comp) of
         None \<Rightarrow> buildConditionSet E n S Comp = Inl Unreachable
       | Some rel \<Rightarrow>
           (\<exists>D. buildConditionSet E n S Comp = Inr (Some D, S2) \<and> set_n_dim D = n \<and>
              (\<forall>nu x. in_set D nu x \<longleftrightarrow>
                 length x = n \<and> (\<exists>l r. pw_val L nu x l \<and> pw_val R nu x r \<and> rel l r)))"
  proof (cases "getPred Comp")
    case ICMP_EQ
    then show ?thesis
      using ev by (simp add: isl_pw_aff_eq_set_def cmp_set_def in_set_def nL eq)
  next
    case ICMP_NE
    then show ?thesis
      using ev by (simp add: isl_pw_aff_ne_set_def cmp_set_def in_set_def nL ne del: holds.simps)
  next
    case ICMP_SGT
    then show ?thesis
      using ev by (simp add: isl_pw_aff_gt_set_def cmp_set_def in_set_def nL gt)
  next
    case ICMP_SGE
    then show ?thesis
      using ev by (simp add: isl_pw_aff_ge_set_def cmp_set_def in_set_def nL ge)
  next
    case ICMP_SLT
    then show ?thesis
      using ev by (simp add: isl_pw_aff_lt_set_def isl_pw_aff_gt_set_def cmp_set_def
          in_set_def nR lt)
  next
    case ICMP_SLE
    then show ?thesis
      using ev by (simp add: isl_pw_aff_le_set_def isl_pw_aff_ge_set_def cmp_set_def
          in_set_def nR le)
  qed (use ev in simp_all)
qed


theorem buildConditionSet_predicates_witness:
  "\<exists>D. buildConditionSet
          \<lparr> getParamsInAffineExpr = (\<lambda>e. []), outermostLoopInRegion = (\<lambda>l. None),
            regionContains = (\<lambda>l. False) \<rparr> 0
          \<lparr> MaxLoopDepth = 0, Parameters = [], ParameterIds = [],
            Context = Some (isl_set_universe [] 0), Stmts = [] \<rparr>
          \<lparr> getLHS = SCEVConstant 32 3, getRHS = SCEVConstant 32 5, getPred = ICMP_SLT \<rparr>
        = Inr (Some D, \<lparr> MaxLoopDepth = 0, Parameters = [], ParameterIds = [],
            Context = Some (isl_set_universe [] 0), Stmts = [] \<rparr>)
      \<and> set_n_dim D = 0 \<and> in_set D (\<lambda>p. 0) []"
proof -
  let ?E = "\<lparr> getParamsInAffineExpr = (\<lambda>e. []), outermostLoopInRegion = (\<lambda>l. None),
            regionContains = (\<lambda>l. False) \<rparr>"
  let ?S = "\<lparr> MaxLoopDepth = 0, Parameters = [], ParameterIds = [],
            Context = Some (isl_set_universe [] 0), Stmts = [] \<rparr>"
  let ?C = "\<lparr> getLHS = SCEVConstant 32 3, getRHS = SCEVConstant 32 5, getPred = ICMP_SLT \<rparr>"
  let ?L = "pw_aff_on_universe [] 0 (lin_const 3)"
  let ?R = "pw_aff_on_universe [] 0 (lin_const 5)"
  have L: "getPwAff ?E 0 ?S (getLHS ?C) = Inr (Some ?L, ?S)"
    by (simp add: getPwAff_def ifParam_def getIdForParam_def visitConstant_def
        MPZ_from_APInt_signed_def)
  have R: "getPwAff ?E 0 ?S (getRHS ?C) = Inr (Some ?R, ?S)"
    by (simp add: getPwAff_def ifParam_def getIdForParam_def visitConstant_def
        MPZ_from_APInt_signed_def)
  from buildConditionSet_predicates [of ?C ?E 0 ?S] L R
  obtain D where D: "buildConditionSet ?E 0 ?S ?C = Inr (Some D, ?S)" "set_n_dim D = 0"
      "\<forall>nu x. in_set D nu x \<longleftrightarrow>
         length x = 0 \<and> (\<exists>l r. pw_val ?L nu x l \<and> pw_val ?R nu x r \<and> l < r)"
    by auto
  have "pw_val ?L (\<lambda>p. 0) [] 3 \<and> pw_val ?R (\<lambda>p. 0) [] 5 \<and> (3 :: rat) < 5"
    by (simp add: pw_val_def pw_aff_on_universe_def)
  then have "\<exists>l r. pw_val ?L (\<lambda>p. 0) [] l \<and> pw_val ?R (\<lambda>p. 0) [] r \<and> l < r"
    by blast
  then have "in_set D (\<lambda>p. 0) []"
    using D(3) by simp
  then show ?thesis using D by blast
qed

subsection \<open>Constant branch conditions\<close>

lemma getPwAff_constant:
  assumes "getParamsInAffineExpr E (SCEVConstant w v) = []"
    and "map_of (ParameterIds S) (SCEVConstant w v) = None"
  shows "getPwAff E n S (SCEVConstant w v) =
     Inr (Some (pw_aff_on_universe [] n (lin_const (of_int (MPZ_from_APInt_signed w v)))), S)"
  using assms
  by (simp add: getPwAff_def ifParam_def getIdForParam_def visitConstant_def)

lemma pw_val_on_universe:
  "pw_val (pw_aff_on_universe ps n l) nu x v \<longleftrightarrow> lin_eval l nu x = v"
  by (simp add: pw_val_def pw_aff_on_universe_def)

lemma in_set_intersect:
  assumes "set_n_dim B = set_n_dim A"
  shows "\<exists>C. isl_set_intersect (Some A) (Some B) = Some C \<and> set_n_dim C = set_n_dim A \<and>
           set_tuple C = set_tuple A \<and>
           set_params C = align_ids (set_params B) (set_params A) \<and>
           (\<forall>nu x. in_set C nu x \<longleftrightarrow> in_set A nu x \<and> in_set B nu x)"
  using assms by (auto simp: isl_set_intersect_def in_set_def)

text \<open>
  A constant condition of the one-bit type: the comparison that is recorded, the set it
  is translated to and its intersection with a domain. The constants are assumed not to
  be on record as parameters.
\<close>

lemma buildAffineCondition_constant_sets:
  assumes v0: "getParamsInAffineExpr E (SCEVConstant 1 0) = []"
    and v1: "getParamsInAffineExpr E (SCEVConstant 1 1) = []"
    and s0: "map_of (ParameterIds S) (SCEVConstant 1 0) = None"
    and s1: "map_of (ParameterIds S) (SCEVConstant 1 1) = None"
    and dim: "set_n_dim Dom = n"
  shows "\<exists>Cmp D Dom'.
      buildAffineCondition A (ConstantInt 1 v) inverted = Inr Cmp
      \<and> getLHS Cmp = SCEVConstant 1 0 \<and> getRHS Cmp = SCEVConstant 1 1
      \<and> getPred Cmp = (if isOne 1 v \<noteq> inverted then ICMP_SGE else ICMP_SLE)
      \<and> buildConditionSet E n S Cmp = Inr (Some D, S)
      \<and> (\<forall>nu x. in_set D nu x \<longleftrightarrow> length x = n \<and> isOne 1 v \<noteq> inverted)
      \<and> isl_set_intersect (Some Dom) (Some D) = Some Dom'
      \<and> (\<forall>nu x. in_set Dom' nu x \<longleftrightarrow> in_set Dom nu x \<and> isOne 1 v \<noteq> inverted)"
proof -
  let ?L = "pw_aff_on_universe [] n (lin_const (of_int (MPZ_from_APInt_signed 1 0)))"
  let ?R = "pw_aff_on_universe [] n (lin_const (of_int (MPZ_from_APInt_signed 1 1)))"
  let ?Cmp = "\<lparr> getLHS = SCEVConstant 1 0, getRHS = SCEVConstant 1 1,
                 getPred = (if isOne 1 v \<noteq> inverted then ICMP_SGE else ICMP_SLE) \<rparr>"
  have cmp: "buildAffineCondition A (ConstantInt 1 v) inverted = Inr ?Cmp"
    by (simp add: buildAffineCondition_def Let_def)
  have L: "getPwAff E n S (getLHS ?Cmp) = Inr (Some ?L, S)"
    using getPwAff_constant [OF v0 s0] by simp
  have R: "getPwAff E n S (getRHS ?Cmp) = Inr (Some ?R, S)"
    using getPwAff_constant [OF v1 s1] by simp
  have vals: "MPZ_from_APInt_signed (Suc 0) 0 = 0" "MPZ_from_APInt_signed (Suc 0) (Suc 0) = - 1"
    by (simp_all add: MPZ_from_APInt_signed_def)
  have ge: "holds (ge_fml ?L ?R) nu x" for nu x
    unfolding holds_ge_fml pw_val_on_universe by (simp add: vals)
  have le: "\<not> holds (ge_fml ?R ?L) nu x" for nu x
    unfolding holds_ge_fml pw_val_on_universe by (simp add: vals)
  obtain D where D: "buildConditionSet E n S ?Cmp = Inr (Some D, S)" "set_n_dim D = n"
    "\<forall>nu x. in_set D nu x \<longleftrightarrow> length x = n \<and> isOne 1 v \<noteq> inverted"
  proof (cases "isOne 1 v \<noteq> inverted")
    case True
    let ?D = "\<lparr> set_params = align_ids [] [], set_tuple = [], set_n_dim = n,
                 set_fml = ge_fml ?L ?R \<rparr>"
    have "buildConditionSet E n S ?Cmp = Inr (Some ?D, S)"
      using buildConditionSet_eval [OF L R] True
      by (simp add: isl_pw_aff_ge_set_def cmp_set_def pw_aff_on_universe_def)
    moreover have "\<forall>nu x. in_set ?D nu x \<longleftrightarrow> length x = n \<and> isOne 1 v \<noteq> inverted"
      using True ge by (simp add: in_set_def)
    ultimately show ?thesis using that [of ?D] by simp
  next
    case False
    let ?D = "\<lparr> set_params = align_ids [] [], set_tuple = [], set_n_dim = n,
                 set_fml = ge_fml ?R ?L \<rparr>"
    have "buildConditionSet E n S ?Cmp = Inr (Some ?D, S)"
      using buildConditionSet_eval [OF L R] False
      by (simp add: isl_pw_aff_le_set_def isl_pw_aff_ge_set_def cmp_set_def pw_aff_on_universe_def)
    moreover have "\<forall>nu x. in_set ?D nu x \<longleftrightarrow> length x = n \<and> isOne 1 v \<noteq> inverted"
      using False le by (simp add: in_set_def)
    ultimately show ?thesis using that [of ?D] by simp
  qed
  from in_set_intersect [of D Dom] dim D(2) obtain Dom' where
    Dom': "isl_set_intersect (Some Dom) (Some D) = Some Dom'"
      "\<forall>nu x. in_set Dom' nu x \<longleftrightarrow> in_set Dom nu x \<and> in_set D nu x"
    by auto
  have "\<forall>nu x. in_set Dom' nu x \<longleftrightarrow> in_set Dom nu x \<and> isOne 1 v \<noteq> inverted"
    using Dom'(2) D(3) dim by (auto simp: in_set_def)
  then show ?thesis
    using cmp D(1,3) Dom'(1) by (intro exI [of _ ?Cmp] exI [of _ D] exI [of _ Dom']) simp
qed

text \<open>
  Claim C10. The failing input: a branch on the constant \<open>true\<close> of the one-bit type and a
  block on the side of the first successor (\<open>inverted\<close> is false), so that the constant
  selects the edge towards the block. \<open>buildAffineCondition\<close> records \<open>0 sge 1\<close> there,
  where the claim, and the comment of the function (an always true condition creates
  \<open>0 <= 1\<close>), have \<open>0 sle 1\<close>: the test \<open>C->isOne() == inverted\<close> selects the
  condition that is always false. The translator reads the one-bit constant \<open>1\<close> as the
  signed value \<open>-1\<close>, so the set of the recorded comparison is the whole space all the
  same and the domain is left unchanged.
\<close>

theorem buildAffineCondition_constant:
  "buildAffineCondition
     \<lparr> getSCEVAtScope = (\<lambda>v l. SCEVUnknown v), getLoopFor = (\<lambda>b. None), getNode = (\<lambda>b. None),
       DT_dominates = (\<lambda>a b. False), PDT_dominates = (\<lambda>a b. False),
       getTerminator = (\<lambda>b. OtherTerminator), getPointerBase = (\<lambda>e. e),
       getMinusSCEV = (\<lambda>a b. a), isAffineExpr = (\<lambda>e v. True) \<rparr>
     (ConstantInt 1 1) False
   = Inr \<lparr> getLHS = SCEVConstant 1 0, getRHS = SCEVConstant 1 1, getPred = ICMP_SGE \<rparr>
   \<and> (\<exists>D Dom'.
        buildConditionSet
          \<lparr> getParamsInAffineExpr = (\<lambda>e. []), outermostLoopInRegion = (\<lambda>l. None),
            regionContains = (\<lambda>l. False) \<rparr> 0
          \<lparr> MaxLoopDepth = 0, Parameters = [], ParameterIds = [],
            Context = Some (isl_set_universe [] 0), Stmts = [] \<rparr>
          \<lparr> getLHS = SCEVConstant 1 0, getRHS = SCEVConstant 1 1, getPred = ICMP_SGE \<rparr>
        = Inr (Some D, \<lparr> MaxLoopDepth = 0, Parameters = [], ParameterIds = [],
            Context = Some (isl_set_universe [] 0), Stmts = [] \<rparr>)
      \<and> in_set D (\<lambda>p. 0) []
      \<and> isl_set_intersect (Some (isl_set_universe [] 0)) (Some D) = Some Dom'
      \<and> in_set Dom' (\<lambda>p. 0) [])"
proof -
  let ?A = "\<lparr> getSCEVAtScope = (\<lambda>v l. SCEVUnknown v), getLoopFor = (\<lambda>b. None),
          getNode = (\<lambda>b. None), DT_dominates = (\<lambda>a b. False),
          PDT_dominates = (\<lambda>a b. False), getTerminator = (\<lambda>b. OtherTerminator),
          getPointerBase = (\<lambda>e. e), getMinusSCEV = (\<lambda>a b. a),
          isAffineExpr = (\<lambda>e v. True) \<rparr>"
  let ?E = "\<lparr> getParamsInAffineExpr = (\<lambda>e. []), outermostLoopInRegion = (\<lambda>l. None),
            regionContains = (\<lambda>l. False) \<rparr>"
  let ?S = "\<lparr> MaxLoopDepth = 0, Parameters = [], ParameterIds = [],
            Context = Some (isl_set_universe [] 0), Stmts = [] \<rparr>"
  let ?C = "\<lparr> getLHS = SCEVConstant 1 0, getRHS = SCEVConstant 1 1, getPred = ICMP_SGE \<rparr>"
  have one: "isOne 1 1" by (simp add: isOne_def)
  have rec: "buildAffineCondition ?A (ConstantInt 1 1) False = Inr ?C"
    by (simp add: buildAffineCondition_def isOne_def)
  have u: "in_set (isl_set_universe [] 0) (\<lambda>p. 0) []"
    by (simp add: in_set_def isl_set_universe_def)
  from buildAffineCondition_constant_sets [where E = ?E and S = ?S and n = 0 and A = ?A
      and Dom = "isl_set_universe [] 0" and v = 1 and inverted = False]
  obtain Cmp D Dom' where r:
      "buildAffineCondition ?A (ConstantInt 1 1) False = Inr Cmp"
      "buildConditionSet ?E 0 ?S Cmp = Inr (Some D, ?S)"
      "\<forall>nu x. in_set D nu x \<longleftrightarrow> length x = 0 \<and> isOne 1 1 \<noteq> False"
      "isl_set_intersect (Some (isl_set_universe [] 0)) (Some D) = Some Dom'"
      "\<forall>nu x. in_set Dom' nu x \<longleftrightarrow> in_set (isl_set_universe [] 0) nu x \<and> isOne 1 1 \<noteq> False"
    by (auto simp: isl_set_universe_def)
  have "Cmp = ?C" using r(1) rec by simp
  then show ?thesis
    using rec r(2,3,4,5) one u by (intro conjI exI [of _ D] exI [of _ Dom']) simp_all
qed

subsection \<open>The parameter table\<close>

lemma map_of_zip_None:
  "map_of (zip xs (map int [0..<length xs])) e = None \<longleftrightarrow> e \<notin> set xs"
proof -
  have "map fst (zip xs (map int [0..<length xs])) = xs" by simp
  then have "fst ` set (zip xs (map int [0..<length xs])) = set xs"
    by (metis set_map)
  then show ?thesis by (simp add: map_of_eq_None_iff)
qed

lemma map_of_zip_index:
  assumes "distinct xs"
  shows "map_of (zip xs (map int [0..<length xs])) e = Some (int d) \<longleftrightarrow>
     d < length xs \<and> xs ! d = e"
proof -
  have "distinct (map fst (zip xs (map int [0..<length xs])))"
    using assms by simp
  then have "map_of (zip xs (map int [0..<length xs])) e = Some (int d) \<longleftrightarrow>
      (e, int d) \<in> set (zip xs (map int [0..<length xs]))"
    by (rule map_of_eq_Some_iff)
  also have "\<dots> \<longleftrightarrow> d < length xs \<and> xs ! d = e"
    by (auto simp: in_set_zip)
  finally show ?thesis .
qed

lemma wfParams_lookup:
  assumes "wfParams S"
  shows "map_of (ParameterIds S) e = Some (int d) \<longleftrightarrow>
     d < length (Parameters S) \<and> Parameters S ! d = e"
proof -
  have "ParameterIds S = zip (Parameters S) (map int [0..<length (Parameters S)])"
    and "distinct (Parameters S)"
    using assms by (simp_all add: wfParams_def)
  then show ?thesis using map_of_zip_index [of "Parameters S" e d] by metis
qed

lemma wfParams_None:
  assumes "wfParams S"
  shows "map_of (ParameterIds S) e = None \<longleftrightarrow> e \<notin> set (Parameters S)"
proof -
  have "ParameterIds S = zip (Parameters S) (map int [0..<length (Parameters S)])"
    using assms by (simp add: wfParams_def)
  then show ?thesis using map_of_zip_None [of "Parameters S" e] by metis
qed

lemma addParams_wf:
  "wfParams S \<Longrightarrow>
     wfParams (addParams S ps) \<and>
     (\<exists>new. Parameters (addParams S ps) = Parameters S @ new) \<and>
     set (Parameters (addParams S ps)) = set (Parameters S) \<union> set ps \<and>
     Context (addParams S ps) = Context S \<and> Stmts (addParams S ps) = Stmts S \<and>
     MaxLoopDepth (addParams S ps) = MaxLoopDepth S"
proof (induction ps arbitrary: S)
  case Nil
  then show ?case by simp
next
  case (Cons p ps)
  show ?case
  proof (cases "map_of (ParameterIds S) p = None")
    case False
    then have "p \<in> set (Parameters S)" using wfParams_None [OF Cons.prems, of p] by simp
    then show ?thesis using Cons.IH [OF Cons.prems] False by auto
  next
    case True
    let ?S1 = "S\<lparr> Parameters := Parameters S @ [p],
                 ParameterIds := ParameterIds S @ [(p, int (length (Parameters S)))] \<rparr>"
    have "p \<notin> set (Parameters S)" using wfParams_None [OF Cons.prems, of p] True by simp
    then have wf1: "wfParams ?S1"
      using Cons.prems by (simp add: wfParams_def)
    from Cons.IH [OF wf1] show ?thesis using True by auto
  qed
qed


lemma visit_on_record:
  "getIdForParam S e = Some ID \<Longrightarrow> visit E S n e = Inr (Some (paramAff ID n))"
  by (cases e) (simp_all add: ifParam_def)

lemma getIdForParam_Some_iff:
  "(\<exists>ID. getIdForParam S e = Some ID) \<longleftrightarrow> map_of (ParameterIds S) e \<noteq> None"
  by (auto simp: getIdForParam_def Let_def split: option.splits)

lemma getPwAff_reported_parameter:
  assumes wf: "wfParams S"
    and rec: "e \<in> set (Parameters S) \<or> e \<in> set (getParamsInAffineExpr E e)"
  shows "\<exists>ID d S'. getPwAff E n S e = Inr (Some (paramAff ID n), S')
      \<and> S' = addParams S (getParamsInAffineExpr E e)
      \<and> getIdForParam S' e = Some ID
      \<and> pa_params (paramAff ID n) = [ID]
      \<and> pa_pieces (paramAff ID n) = [(FTrue, \<lparr> pterms = [(ID, 1)], dterms = [], cterm = 0 \<rparr>)]
      \<and> d < length (Parameters S') \<and> Parameters S' ! d = e
      \<and> map_of (ParameterIds S') e = Some (int d)
      \<and> (e \<in> set (Parameters S) \<longrightarrow> map_of (ParameterIds S) e = Some (int d))
      \<and> (e \<notin> set (Parameters S) \<longrightarrow> length (Parameters S) \<le> d)"
proof -
  let ?S' = "addParams S (getParamsInAffineExpr E e)"
  from addParams_wf [OF wf, of "getParamsInAffineExpr E e"] obtain new where
    wf': "wfParams ?S'" and app: "Parameters ?S' = Parameters S @ new"
    and st: "set (Parameters ?S') = set (Parameters S) \<union> set (getParamsInAffineExpr E e)"
    by blast
  have mem: "e \<in> set (Parameters ?S')" using rec st by blast
  then obtain d where d: "d < length (Parameters ?S')" "Parameters ?S' ! d = e"
    by (auto simp: in_set_conv_nth)
  then have look: "map_of (ParameterIds ?S') e = Some (int d)"
    using wfParams_lookup [OF wf'] by blast
  then obtain ID where ID: "getIdForParam ?S' e = Some ID"
    using getIdForParam_Some_iff [of ?S' e] by auto
  have res: "getPwAff E n S e = Inr (Some (paramAff ID n), ?S')"
    using visit_on_record [OF ID] by (simp add: getPwAff_def Let_def)
  have dist: "distinct (Parameters ?S')" using wf' by (simp add: wfParams_def)
  have old: "map_of (ParameterIds S) e = Some (int d)" if "e \<in> set (Parameters S)"
  proof -
    from that obtain k where k: "k < length (Parameters S)" "Parameters S ! k = e"
      by (auto simp: in_set_conv_nth)
    then have "k < length (Parameters ?S')" "Parameters ?S' ! k = e"
      using app by (simp_all add: nth_append)
    then have "k = d" using d dist nth_eq_iff_index_eq [of "Parameters ?S'" k d] by metis
    then show ?thesis using wfParams_lookup [OF wf] k by blast
  qed
  have fresh: "length (Parameters S) \<le> d" if "e \<notin> set (Parameters S)"
  proof (rule ccontr)
    assume "\<not> length (Parameters S) \<le> d"
    then have lt: "d < length (Parameters S)" by simp
    then have "Parameters S ! d = e"
      using d(2) app by (simp add: nth_append)
    moreover have "Parameters S ! d \<in> set (Parameters S)"
      using lt by (rule nth_mem)
    ultimately show False using that by simp
  qed
  have shape: "pa_params (paramAff ID n) = [ID]"
    "pa_pieces (paramAff ID n) = [(FTrue, \<lparr> pterms = [(ID, 1)], dterms = [], cterm = 0 \<rparr>)]"
    by (simp_all add: paramAff_def pw_aff_on_universe_def lin_param_def)
  show ?thesis
    using res ID shape d look old fresh
    by (intro exI [of _ ID] exI [of _ d] exI [of _ ?S']) simp
qed

lemma not_on_record:
  assumes wf: "wfParams S"
    and n1: "e \<notin> set (Parameters S)" and n2: "e \<notin> set ps"
  shows "getIdForParam (addParams S ps) e = None"
proof -
  from addParams_wf [OF wf, of ps] have wf': "wfParams (addParams S ps)"
    and st: "set (Parameters (addParams S ps)) = set (Parameters S) \<union> set ps"
    by blast+
  have "e \<notin> set (Parameters (addParams S ps))" using st n1 n2 by simp
  then have "map_of (ParameterIds (addParams S ps)) e = None"
    using wfParams_None [OF wf', of e] by simp
  then show ?thesis by (simp add: getIdForParam_def)
qed

lemma paramAff_shape:
  "pa_params (paramAff ID n) = [ID]"
  "pa_pieces (paramAff ID n) = [(FTrue, \<lparr> pterms = [(ID, 1)], dterms = [], cterm = 0 \<rparr>)]"
  by (simp_all add: paramAff_def pw_aff_on_universe_def lin_param_def)

lemma getPwAff_unknown:
  "\<exists>ID. getPwAff E n S (SCEVUnknown Val)
        = Inr (Some (paramAff ID n), addParams S (getParamsInAffineExpr E (SCEVUnknown Val)))
      \<and> (case getIdForParam (addParams S (getParamsInAffineExpr E (SCEVUnknown Val)))
                 (SCEVUnknown Val) of
            Some I \<Rightarrow> ID = I
          | None \<Rightarrow> ID = (getName Val, UserValue Val))"
proof (cases "getIdForParam (addParams S (getParamsInAffineExpr E (SCEVUnknown Val)))
                 (SCEVUnknown Val)")
  case None
  then have "getPwAff E n S (SCEVUnknown Val)
      = Inr (Some (paramAff (getName Val, UserValue Val) n),
             addParams S (getParamsInAffineExpr E (SCEVUnknown Val)))"
    by (simp add: getPwAff_def Let_def ifParam_def visitUnknown_def paramAff_def)
  then show ?thesis using None by (intro exI [of _ "(getName Val, UserValue Val)"]) simp
next
  case (Some I)
  then have "getPwAff E n S (SCEVUnknown Val)
      = Inr (Some (paramAff I n), addParams S (getParamsInAffineExpr E (SCEVUnknown Val)))"
    using visit_on_record [OF Some] by (simp add: getPwAff_def Let_def)
  then show ?thesis using Some by (intro exI [of _ I]) simp
qed

lemma getPwAff_not_yet_supported:
  assumes "notYetSupported e"
    and "getIdForParam (addParams S (getParamsInAffineExpr E e)) e = None"
  shows "getPwAff E n S e = Inl AssertFailed"
  using assms by (cases e) (simp_all add: getPwAff_def Let_def ifParam_def)


text \<open>
  Claim C9, as amended. An expression that is on record as a parameter, or that the
  validator reports as a parameter of itself (\<open>getPwAff\<close> records what the validator
  reports before translating), is treated as an opaque parameter whatever its shape: a
  parameter already on record keeps its dimension, otherwise a fresh dimension behind the
  existing ones is introduced, and the result is the affine expression whose only term
  is that parameter with coefficient \<open>1\<close>. A \<open>SCEVUnknown\<close> is translated to such an
  expression in every case: when it is neither on record nor reported, \<open>visitUnknown\<close>
  introduces a parameter identified by the name of the value and the value, which is
  not entered in the table. A truncation, a zero extension, an unsigned division or an
  unsigned maximum that is neither on record nor reported fails the assertion of its
  handler.
\<close>

theorem getPwAff_opaque_parameter:
  "(wfParams S \<and> (e \<in> set (Parameters S) \<or> e \<in> set (getParamsInAffineExpr E e)) \<longrightarrow>
       (\<exists>ID d S'. getPwAff E n S e = Inr (Some (paramAff ID n), S')
          \<and> S' = addParams S (getParamsInAffineExpr E e)
          \<and> getIdForParam S' e = Some ID
          \<and> pa_params (paramAff ID n) = [ID]
          \<and> pa_pieces (paramAff ID n)
              = [(FTrue, \<lparr> pterms = [(ID, 1)], dterms = [], cterm = 0 \<rparr>)]
          \<and> d < length (Parameters S') \<and> Parameters S' ! d = e
          \<and> map_of (ParameterIds S') e = Some (int d)
          \<and> (e \<in> set (Parameters S) \<longrightarrow> map_of (ParameterIds S) e = Some (int d))
          \<and> (e \<notin> set (Parameters S) \<longrightarrow> length (Parameters S) \<le> d)))
    \<and> (\<forall>Val. e = SCEVUnknown Val \<longrightarrow>
       (\<exists>ID. getPwAff E n S e
                = Inr (Some (paramAff ID n), addParams S (getParamsInAffineExpr E e))
          \<and> pa_params (paramAff ID n) = [ID]
          \<and> pa_pieces (paramAff ID n)
              = [(FTrue, \<lparr> pterms = [(ID, 1)], dterms = [], cterm = 0 \<rparr>)]
          \<and> (case getIdForParam (addParams S (getParamsInAffineExpr E e)) e of
                Some I \<Rightarrow> ID = I
              | None \<Rightarrow> ID = (getName Val, UserValue Val))))
    \<and> (wfParams S \<and> notYetSupported e \<and> e \<notin> set (Parameters S)
          \<and> e \<notin> set (getParamsInAffineExpr E e) \<longrightarrow>
         getPwAff E n S e = Inl AssertFailed)"
proof (intro conjI impI allI)
  assume a: "wfParams S \<and> (e \<in> set (Parameters S) \<or> e \<in> set (getParamsInAffineExpr E e))"
  then have wf: "wfParams S"
    and rec: "e \<in> set (Parameters S) \<or> e \<in> set (getParamsInAffineExpr E e)" by blast+
  from getPwAff_reported_parameter [OF wf rec]
  show "\<exists>ID d S'. getPwAff E n S e = Inr (Some (paramAff ID n), S')
          \<and> S' = addParams S (getParamsInAffineExpr E e)
          \<and> getIdForParam S' e = Some ID
          \<and> pa_params (paramAff ID n) = [ID]
          \<and> pa_pieces (paramAff ID n)
              = [(FTrue, \<lparr> pterms = [(ID, 1)], dterms = [], cterm = 0 \<rparr>)]
          \<and> d < length (Parameters S') \<and> Parameters S' ! d = e
          \<and> map_of (ParameterIds S') e = Some (int d)
          \<and> (e \<in> set (Parameters S) \<longrightarrow> map_of (ParameterIds S) e = Some (int d))
          \<and> (e \<notin> set (Parameters S) \<longrightarrow> length (Parameters S) \<le> d)" .
next
  fix Val assume e: "e = SCEVUnknown Val"
  from getPwAff_unknown [of E n S Val] obtain ID where
    "getPwAff E n S e = Inr (Some (paramAff ID n), addParams S (getParamsInAffineExpr E e))"
    "case getIdForParam (addParams S (getParamsInAffineExpr E e)) e of
                Some I \<Rightarrow> ID = I
              | None \<Rightarrow> ID = (getName Val, UserValue Val)"
    unfolding e by blast
  then show "\<exists>ID. getPwAff E n S e
                = Inr (Some (paramAff ID n), addParams S (getParamsInAffineExpr E e))
          \<and> pa_params (paramAff ID n) = [ID]
          \<and> pa_pieces (paramAff ID n)
              = [(FTrue, \<lparr> pterms = [(ID, 1)], dterms = [], cterm = 0 \<rparr>)]
          \<and> (case getIdForParam (addParams S (getParamsInAffineExpr E e)) e of
                Some I \<Rightarrow> ID = I
              | None \<Rightarrow> ID = (getName Val, UserValue Val))"
    using paramAff_shape [of ID n] by (intro exI [of _ ID]) simp
next
  assume a: "wfParams S \<and> notYetSupported e \<and> e \<notin> set (Parameters S)
      \<and> e \<notin> set (getParamsInAffineExpr E e)"
  then have "getIdForParam (addParams S (getParamsInAffineExpr E e)) e = None"
    using not_on_record [of S e "getParamsInAffineExpr E e"] by blast
  then show "getPwAff E n S e = Inl AssertFailed"
    using a getPwAff_not_yet_supported by blast
qed

text \<open>
  Claim C9 as stated fails: an unsigned division that is neither on record nor reported
  by the validator has no translation rule and is not made a parameter; the translation
  fails the assertion of \<open>visitUDivExpr\<close>.
\<close>

theorem getPwAff_opaque_parameter_counterexample:
  "getPwAff
     \<lparr> getParamsInAffineExpr = (\<lambda>e. []), outermostLoopInRegion = (\<lambda>l. None),
       regionContains = (\<lambda>l. False) \<rparr> 1
     \<lparr> MaxLoopDepth = 1, Parameters = [], ParameterIds = [],
       Context = Some (isl_set_universe [] 0), Stmts = [] \<rparr>
     (SCEVUDivExpr
        (SCEVAddRecExpr [SCEVConstant 64 0, SCEVConstant 64 1]
           (Loop ''%for.body'' 1 (Some (Value ''%i'' ''i''))))
        (SCEVConstant 64 2))
   = Inl AssertFailed"
  by (simp add: getPwAff_def ifParam_def getIdForParam_def)

theorem getPwAff_opaque_parameter_witness:
  "(\<exists>ID S'. getPwAff
     \<lparr> getParamsInAffineExpr = (\<lambda>e. [e]), outermostLoopInRegion = (\<lambda>l. None),
       regionContains = (\<lambda>l. False) \<rparr> 1
     \<lparr> MaxLoopDepth = 1, Parameters = [SCEVUnknown (Value ''%n'' ''n'')],
       ParameterIds = [(SCEVUnknown (Value ''%n'' ''n''), 0)],
       Context = Some (isl_set_universe [] 0), Stmts = [] \<rparr>
     (SCEVUDivExpr (SCEVUnknown (Value ''%m'' ''m'')) (SCEVConstant 64 2))
   = Inr (Some (paramAff ID 1), S')
   \<and> pa_pieces (paramAff ID 1) = [(FTrue, \<lparr> pterms = [(ID, 1)], dterms = [], cterm = 0 \<rparr>)]
   \<and> Parameters S' ! 1 = SCEVUDivExpr (SCEVUnknown (Value ''%m'' ''m'')) (SCEVConstant 64 2)
   \<and> map_of (ParameterIds S')
        (SCEVUDivExpr (SCEVUnknown (Value ''%m'' ''m'')) (SCEVConstant 64 2)) = Some 1)
   \<and> getPwAff
       \<lparr> getParamsInAffineExpr = (\<lambda>e. []), outermostLoopInRegion = (\<lambda>l. None),
         regionContains = (\<lambda>l. False) \<rparr> 1
       \<lparr> MaxLoopDepth = 1, Parameters = [SCEVUnknown (Value ''%n'' ''n'')],
         ParameterIds = [(SCEVUnknown (Value ''%n'' ''n''), 0)],
         Context = Some (isl_set_universe [] 0), Stmts = [] \<rparr>
       (SCEVUnknown (Value ''%m'' ''m''))
     = Inr (Some \<lparr> pa_params = [(''m'', UserValue (Value ''%m'' ''m''))], pa_n_in = 1,
                    pa_pieces = [(FTrue, \<lparr> pterms = [((''m'', UserValue (Value ''%m'' ''m'')), 1)],
                                            dterms = [], cterm = 0 \<rparr>)] \<rparr>,
            \<lparr> MaxLoopDepth = 1, Parameters = [SCEVUnknown (Value ''%n'' ''n'')],
              ParameterIds = [(SCEVUnknown (Value ''%n'' ''n''), 0)],
              Context = Some (isl_set_universe [] 0), Stmts = [] \<rparr>)
   \<and> getPwAff
       \<lparr> getParamsInAffineExpr = (\<lambda>e. []), outermostLoopInRegion = (\<lambda>l. None),
         regionContains = (\<lambda>l. False) \<rparr> 1
       \<lparr> MaxLoopDepth = 1, Parameters = [SCEVUnknown (Value ''%n'' ''n'')],
         ParameterIds = [(SCEVUnknown (Value ''%n'' ''n''), 0)],
         Context = Some (isl_set_universe [] 0), Stmts = [] \<rparr>
       (SCEVTruncateExpr (SCEVUnknown (Value ''%n'' ''n'')) 32)
     = Inl AssertFailed"
proof -
  let ?E = "\<lparr> getParamsInAffineExpr = (\<lambda>e. [e]), outermostLoopInRegion = (\<lambda>l. None),
       regionContains = (\<lambda>l. False) \<rparr>"
  let ?En = "\<lparr> getParamsInAffineExpr = (\<lambda>e. []), outermostLoopInRegion = (\<lambda>l. None),
       regionContains = (\<lambda>l. False) \<rparr>"
  let ?S = "\<lparr> MaxLoopDepth = 1, Parameters = [SCEVUnknown (Value ''%n'' ''n'')],
       ParameterIds = [(SCEVUnknown (Value ''%n'' ''n''), 0)],
       Context = Some (isl_set_universe [] 0), Stmts = [] \<rparr>"
  let ?e = "SCEVUDivExpr (SCEVUnknown (Value ''%m'' ''m'')) (SCEVConstant 64 2)"
  let ?u = "SCEVUnknown (Value ''%m'' ''m'')"
  let ?t = "SCEVTruncateExpr (SCEVUnknown (Value ''%n'' ''n'')) 32"
  have wf: "wfParams ?S" by (simp add: wfParams_def)
  have rec: "?e \<in> set (Parameters ?S) \<or> ?e \<in> set (getParamsInAffineExpr ?E ?e)" by simp
  from getPwAff_opaque_parameter [where S = ?S and e = ?e and E = ?E and n = 1] wf rec obtain ID d S' where
    r: "getPwAff ?E 1 ?S ?e = Inr (Some (paramAff ID 1), S')"
      "S' = addParams ?S (getParamsInAffineExpr ?E ?e)"
      "pa_pieces (paramAff ID 1) = [(FTrue, \<lparr> pterms = [(ID, 1)], dterms = [], cterm = 0 \<rparr>)]"
      "d < length (Parameters S')" "Parameters S' ! d = ?e"
      "map_of (ParameterIds S') ?e = Some (int d)"
      "length (Parameters ?S) \<le> d"
    by auto
  have "length (Parameters S') = 2" using r(2) by simp
  then have "d = 1" using r(4,7) by simp
  then have first: "\<exists>ID S'. getPwAff ?E 1 ?S ?e = Inr (Some (paramAff ID 1), S')
     \<and> pa_pieces (paramAff ID 1) = [(FTrue, \<lparr> pterms = [(ID, 1)], dterms = [], cterm = 0 \<rparr>)]
     \<and> Parameters S' ! 1 = ?e \<and> map_of (ParameterIds S') ?e = Some 1"
    using r by (intro exI [of _ ID] exI [of _ S']) simp
  have none: "getIdForParam (addParams ?S (getParamsInAffineExpr ?En ?u)) ?u = None"
    by (simp add: getIdForParam_def)
  from getPwAff_opaque_parameter [where S = ?S and e = ?u and E = ?En and n = 1] obtain ID2 where
    u: "getPwAff ?En 1 ?S ?u
          = Inr (Some (paramAff ID2 1), addParams ?S (getParamsInAffineExpr ?En ?u))"
      "case getIdForParam (addParams ?S (getParamsInAffineExpr ?En ?u)) ?u of
         Some I \<Rightarrow> ID2 = I
       | None \<Rightarrow> ID2 = (getName (Value ''%m'' ''m''), UserValue (Value ''%m'' ''m''))"
    by blast
  have "ID2 = (''m'', UserValue (Value ''%m'' ''m''))" using u(2) none by simp
  then have second: "getPwAff ?En 1 ?S ?u
     = Inr (Some \<lparr> pa_params = [(''m'', UserValue (Value ''%m'' ''m''))], pa_n_in = 1,
                    pa_pieces = [(FTrue, \<lparr> pterms = [((''m'', UserValue (Value ''%m'' ''m'')), 1)],
                                            dterms = [], cterm = 0 \<rparr>)] \<rparr>, ?S)"
    using u(1) by (simp add: paramAff_def pw_aff_on_universe_def lin_param_def)
  have pre: "notYetSupported ?t \<and> ?t \<notin> set (Parameters ?S)
      \<and> ?t \<notin> set (getParamsInAffineExpr ?En ?t)" by simp
  from getPwAff_opaque_parameter [where S = ?S and e = ?t and E = ?En and n = 1] wf pre
  have third: "getPwAff ?En 1 ?S ?t = Inl AssertFailed" by blast
  show ?thesis using first second third by blast
qed

subsection \<open>Products\<close>

lemma collect_map_Inr: "collect (map Inr xs) = Inr xs"
  by (induction xs) auto

lemma isl_aff_mul_cst:
  "lin_is_cst l1 \<or> lin_is_cst l2 \<Longrightarrow>
     isl_aff_mul l1 l2 = Inr (if lin_is_cst l2 then lin_scale (cterm l2) l1
                              else lin_scale (cterm l1) l2)"
  by (auto simp: isl_aff_mul_def)

lemma pcoef_scale: "pcoef (lin_scale k l) p = k * pcoef l p"
proof -
  have "sum_list (map snd (filter (\<lambda>t. fst t = p) (map (\<lambda>(q, c). (q, k * c)) ts)))
      = k * sum_list (map snd (filter (\<lambda>t. fst t = p) ts))" for ts :: "(isl_id \<times> rat) list"
    by (induction ts) (auto simp: algebra_simps)
  then show ?thesis by (simp add: pcoef_def lin_scale_def)
qed

lemma dcoef_scale: "dcoef (lin_scale k l) i = k * dcoef l i"
proof -
  have "sum_list (map snd (filter (\<lambda>t. fst t = i) (map (\<lambda>(q, c). (q, k * c)) ts)))
      = k * sum_list (map snd (filter (\<lambda>t. fst t = i) ts))" for ts :: "(nat \<times> rat) list"
    by (induction ts) (auto simp: algebra_simps)
  then show ?thesis by (simp add: dcoef_def lin_scale_def)
qed

lemma lin_is_cst_scale:
  "lin_is_cst (lin_scale k l) \<longleftrightarrow> k = 0 \<or> lin_is_cst l"
proof -
  have p: "list_all (\<lambda>t. pcoef (lin_scale k l) (fst t) = 0) (pterms (lin_scale k l))
      \<longleftrightarrow> k = 0 \<or> list_all (\<lambda>t. pcoef l (fst t) = 0) (pterms l)"
    by (auto simp: pcoef_scale list_all_iff) (auto simp: lin_scale_def)
  have d: "list_all (\<lambda>t. dcoef (lin_scale k l) (fst t) = 0) (dterms (lin_scale k l))
      \<longleftrightarrow> k = 0 \<or> list_all (\<lambda>t. dcoef l (fst t) = 0) (dterms l)"
    by (auto simp: dcoef_scale list_all_iff) (auto simp: lin_scale_def)
  show ?thesis unfolding lin_is_cst_def p d by blast
qed

lemma cterm_scale: "cterm (lin_scale k l) = k * cterm l"
  by (simp add: lin_scale_def)


lemma isl_pw_aff_is_cst_Some:
  "isl_pw_aff_is_cst (Some a) = (if list_all (\<lambda>p. lin_is_cst (snd p)) (pa_pieces a) then 1 else 0)"
  by (simp add: isl_pw_aff_is_cst_def split_def)

lemma set_concat_map2:
  "p \<in> set (concat (map (\<lambda>x. map (F x) ys) xs)) \<longleftrightarrow> (\<exists>x \<in> set xs. \<exists>y \<in> set ys. p = F x y)"
  by auto

lemma isl_pw_aff_mul_total:
  assumes "list_all (\<lambda>p. lin_is_cst (snd p)) (pa_pieces a)
         \<or> list_all (\<lambda>p. lin_is_cst (snd p)) (pa_pieces b)"
  shows "\<exists>c. isl_pw_aff_mul (Some a) (Some b) = Inr (Some c) \<and>
     (\<forall>p. p \<in> set (pa_pieces c) \<longleftrightarrow>
        (\<exists>p1 \<in> set (pa_pieces a). \<exists>p2 \<in> set (pa_pieces b).
           p = (FAnd (fst p1) (fst p2),
                if lin_is_cst (snd p2) then lin_scale (cterm (snd p2)) (snd p1)
                else lin_scale (cterm (snd p1)) (snd p2))))"
proof -
  let ?F = "\<lambda>p1 p2. (FAnd (fst p1) (fst p2),
                if lin_is_cst (snd p2) then lin_scale (cterm (snd p2)) (snd p1)
                else lin_scale (cterm (snd p1)) (snd p2))"
  let ?G = "\<lambda>p1 p2. bindR (isl_aff_mul (snd p1) (snd p2)) (\<lambda>l. Inr (FAnd (fst p1) (fst p2), l))"
  have one: "?G p1 p2 = Inr (?F p1 p2)"
    if "p1 \<in> set (pa_pieces a)" "p2 \<in> set (pa_pieces b)" for p1 p2
  proof -
    have "lin_is_cst (snd p1) \<or> lin_is_cst (snd p2)"
      using assms that by (auto simp: list_all_iff)
    then show ?thesis using isl_aff_mul_cst [of "snd p1" "snd p2"] by simp
  qed
  have inner: "map (?G p1) (pa_pieces b) = map Inr (map (?F p1) (pa_pieces b))"
    if "p1 \<in> set (pa_pieces a)" for p1
    using one [OF that] by simp
  have "concat (map (\<lambda>p1. map (?G p1) (pa_pieces b)) (pa_pieces a))
      = concat (map (\<lambda>p1. map Inr (map (?F p1) (pa_pieces b))) (pa_pieces a))"
    using inner by (metis (no_types, lifting) map_eq_conv)
  also have "\<dots> = map Inr (concat (map (\<lambda>p1. map (?F p1) (pa_pieces b)) (pa_pieces a)))"
    by (simp add: map_concat comp_def)
  finally have rs: "concat (map (\<lambda>p1. map (?G p1) (pa_pieces b)) (pa_pieces a))
      = map Inr (concat (map (\<lambda>p1. map (?F p1) (pa_pieces b)) (pa_pieces a)))" .
  let ?ps = "concat (map (\<lambda>p1. map (?F p1) (pa_pieces b)) (pa_pieces a))"
  let ?c = "\<lparr> pa_params = align_ids (pa_params b) (pa_params a), pa_n_in = pa_n_in a,
               pa_pieces = ?ps \<rparr>"
  have "isl_pw_aff_mul (Some a) (Some b) = Inr (Some ?c)"
    using rs by (simp add: isl_pw_aff_mul_def split_def collect_map_Inr)
  moreover have "\<forall>p. p \<in> set (pa_pieces ?c) \<longleftrightarrow>
        (\<exists>p1 \<in> set (pa_pieces a). \<exists>p2 \<in> set (pa_pieces b). p = ?F p1 p2)"
    by (simp only: isl_pw_aff.select_convs set_concat_map2 simp_thms)
  ultimately show ?thesis by blast
qed


lemma mul_step:
  assumes ne: "pa_pieces a \<noteq> []" "pa_pieces b \<noteq> []"
    and cst: "list_all (\<lambda>p. lin_is_cst (snd p)) (pa_pieces a)
         \<or> list_all (\<lambda>p. lin_is_cst (snd p)) (pa_pieces b)"
  shows "\<exists>c. isl_pw_aff_mul (Some a) (Some b) = Inr (Some c) \<and> pa_pieces c \<noteq> [] \<and>
    (list_all (\<lambda>p. lin_is_cst (snd p)) (pa_pieces a) \<and>
     list_all (\<lambda>p. lin_is_cst (snd p)) (pa_pieces b) \<longrightarrow>
       list_all (\<lambda>p. lin_is_cst (snd p)) (pa_pieces c) \<and>
       (has_nonzero a \<and> has_nonzero b \<longrightarrow> has_nonzero c)) \<and>
    (\<not> list_all (\<lambda>p. lin_is_cst (snd p)) (pa_pieces a) \<and> has_nonzero b \<longrightarrow>
       \<not> list_all (\<lambda>p. lin_is_cst (snd p)) (pa_pieces c)) \<and>
    (\<not> list_all (\<lambda>p. lin_is_cst (snd p)) (pa_pieces b) \<and> has_nonzero a \<longrightarrow>
       \<not> list_all (\<lambda>p. lin_is_cst (snd p)) (pa_pieces c))"
proof -
  let ?F = "\<lambda>p1 p2. (FAnd (fst p1) (fst p2),
                if lin_is_cst (snd p2) then lin_scale (cterm (snd p2)) (snd p1)
                else lin_scale (cterm (snd p1)) (snd p2))"
  from isl_pw_aff_mul_total [OF cst] obtain c where
    c: "isl_pw_aff_mul (Some a) (Some b) = Inr (Some c)"
    and mem: "\<And>p. p \<in> set (pa_pieces c) \<longleftrightarrow>
        (\<exists>p1 \<in> set (pa_pieces a). \<exists>p2 \<in> set (pa_pieces b). p = ?F p1 p2)"
    by blast
  have inI: "?F p1 p2 \<in> set (pa_pieces c)"
    if "p1 \<in> set (pa_pieces a)" "p2 \<in> set (pa_pieces b)" for p1 p2
    using mem that by blast
  have nonempty: "pa_pieces c \<noteq> []"
  proof -
    obtain p1 p2 where "p1 \<in> set (pa_pieces a)" "p2 \<in> set (pa_pieces b)"
      using ne by (meson last_in_set)
    then have "?F p1 p2 \<in> set (pa_pieces c)" by (rule inI)
    then show ?thesis by auto
  qed
  have allc: "list_all (\<lambda>p. lin_is_cst (snd p)) (pa_pieces c)"
    if a: "list_all (\<lambda>p. lin_is_cst (snd p)) (pa_pieces a)"
      and b: "list_all (\<lambda>p. lin_is_cst (snd p)) (pa_pieces b)"
    unfolding list_all_iff
  proof
    fix p assume "p \<in> set (pa_pieces c)"
    then obtain p1 p2 where p: "p1 \<in> set (pa_pieces a)" "p2 \<in> set (pa_pieces b)" "p = ?F p1 p2"
      using mem by blast
    then have "lin_is_cst (snd p1)" "lin_is_cst (snd p2)"
      using a b by (auto simp: list_all_iff)
    then show "lin_is_cst (snd p)" using p(3) by (simp add: lin_is_cst_scale)
  qed
  have nz: "has_nonzero c"
    if b: "list_all (\<lambda>p. lin_is_cst (snd p)) (pa_pieces b)"
      and "has_nonzero a" "has_nonzero b"
  proof -
    from that obtain p1 p2 where p: "p1 \<in> set (pa_pieces a)" "cterm (snd p1) \<noteq> 0"
        "p2 \<in> set (pa_pieces b)" "cterm (snd p2) \<noteq> 0"
      by (auto simp: has_nonzero_def list_ex_iff)
    then have "lin_is_cst (snd p2)" using b by (auto simp: list_all_iff)
    then have "cterm (snd (?F p1 p2)) \<noteq> 0" using p by (simp add: cterm_scale)
    moreover have "?F p1 p2 \<in> set (pa_pieces c)" using p by (intro inI)
    ultimately show ?thesis unfolding has_nonzero_def list_ex_iff by blast
  qed
  have nca: "\<not> list_all (\<lambda>p. lin_is_cst (snd p)) (pa_pieces c)"
    if a: "\<not> list_all (\<lambda>p. lin_is_cst (snd p)) (pa_pieces a)" and "has_nonzero b"
  proof -
    from a cst have b: "list_all (\<lambda>p. lin_is_cst (snd p)) (pa_pieces b)" by blast
    from that obtain p1 p2 where p: "p1 \<in> set (pa_pieces a)" "\<not> lin_is_cst (snd p1)"
        "p2 \<in> set (pa_pieces b)" "cterm (snd p2) \<noteq> 0"
      by (auto simp: has_nonzero_def list_ex_iff list_all_iff)
    then have "lin_is_cst (snd p2)" using b by (auto simp: list_all_iff)
    then have "\<not> lin_is_cst (snd (?F p1 p2))" using p by (simp add: lin_is_cst_scale)
    moreover have "?F p1 p2 \<in> set (pa_pieces c)" using p by (intro inI)
    ultimately show ?thesis unfolding list_all_iff by blast
  qed
  have ncb: "\<not> list_all (\<lambda>p. lin_is_cst (snd p)) (pa_pieces c)"
    if b: "\<not> list_all (\<lambda>p. lin_is_cst (snd p)) (pa_pieces b)" and "has_nonzero a"
  proof -
    from that obtain p1 p2 where p: "p1 \<in> set (pa_pieces a)" "cterm (snd p1) \<noteq> 0"
        "p2 \<in> set (pa_pieces b)" "\<not> lin_is_cst (snd p2)"
      by (auto simp: has_nonzero_def list_ex_iff list_all_iff)
    then have "\<not> lin_is_cst (snd (?F p1 p2))" by (simp add: lin_is_cst_scale)
    moreover have "?F p1 p2 \<in> set (pa_pieces c)" using p by (intro inI)
    ultimately show ?thesis unfolding list_all_iff by blast
  qed
  show ?thesis
    using c nonempty allc nz nca ncb by blast
qed


lemma visit_pieces_nonempty:
  assumes "visit E S n e = Inr (Some c)"
  shows "pa_pieces c \<noteq> []"
proof (rule visit_inv [where P = "\<lambda>a. pa_pieces a \<noteq> []", OF _ _ _ _ _ _ _ assms])
  show "pa_pieces (pw_on_shared_domain lin_add a b) \<noteq> []"
    if ab: "pa_pieces a \<noteq> []" "pa_pieces b \<noteq> []" for a b
  proof -
    obtain p1 p2 where "p1 \<in> set (pa_pieces a)" "p2 \<in> set (pa_pieces b)"
      using ab by (meson last_in_set)
    then have "(FAnd (fst p1) (fst p2), lin_add (snd p1) (snd p2))
        \<in> set (pa_pieces (pw_on_shared_domain lin_add a b))"
      unfolding pw_on_shared_domain_pieces by blast
    then show ?thesis by auto
  qed
  show "pa_pieces c \<noteq> []"
    if "pa_pieces a \<noteq> []" "pa_pieces b \<noteq> []" "isl_pw_aff_mul (Some a) (Some b) = Inr (Some c)"
    for a b c
    using isl_pw_aff_mul_pieces(4) [OF that(3)] that(1,2) by simp
  show "pa_pieces c \<noteq> []"
    if "pa_pieces a \<noteq> []" "pa_pieces b \<noteq> []" "isl_pw_aff_max (Some a) (Some b) = Some c"
    for a b c
    using isl_pw_aff_max_pieces(4) [OF that(3)] that(1,2) by simp
qed (simp_all add: paramAff_def pw_aff_on_universe_def)

lemma mulLoop_null:
  assumes fac: "\<forall>a \<in> set pas. pa_pieces a \<noteq> [] \<and> (isl_pw_aff_is_cst (Some a) = 0 \<or> has_nonzero a)"
    and P: "pa_pieces P \<noteq> []"
    and inv: "(isl_pw_aff_is_cst (Some P) = 0 \<and>
                1 \<le> length (filter (\<lambda>a. isl_pw_aff_is_cst (Some a) = 0) pas)) \<or>
              (isl_pw_aff_is_cst (Some P) \<noteq> 0 \<and> has_nonzero P \<and>
                2 \<le> length (filter (\<lambda>a. isl_pw_aff_is_cst (Some a) = 0) pas))"
  shows "mulLoop (Some P) (map (\<lambda>a. Inr (Some a)) pas) = Inr None"
  using assms
proof (induction pas arbitrary: P)
  case Nil
  then show ?case by simp
next
  case (Cons N pas)
  let ?nc = "\<lambda>a. isl_pw_aff_is_cst (Some a) = 0"
  have Nne: "pa_pieces N \<noteq> []" and Nfac: "?nc N \<or> has_nonzero N"
    and rest: "\<forall>a \<in> set pas. pa_pieces a \<noteq> [] \<and> (?nc a \<or> has_nonzero a)"
    using Cons.prems(1) by simp_all
  show ?case
  proof (cases "?nc P \<and> ?nc N")
    case True
    then show ?thesis by simp
  next
    case False
    then have cst: "list_all (\<lambda>p. lin_is_cst (snd p)) (pa_pieces P)
         \<or> list_all (\<lambda>p. lin_is_cst (snd p)) (pa_pieces N)"
      by (auto simp: isl_pw_aff_is_cst_Some split: if_splits)
    from mul_step [OF Cons.prems(2) Nne cst] obtain c where
      c: "isl_pw_aff_mul (Some P) (Some N) = Inr (Some c)" "pa_pieces c \<noteq> []"
      and cc: "list_all (\<lambda>p. lin_is_cst (snd p)) (pa_pieces P) \<and>
          list_all (\<lambda>p. lin_is_cst (snd p)) (pa_pieces N) \<longrightarrow>
            list_all (\<lambda>p. lin_is_cst (snd p)) (pa_pieces c) \<and>
            (has_nonzero P \<and> has_nonzero N \<longrightarrow> has_nonzero c)"
      and na: "\<not> list_all (\<lambda>p. lin_is_cst (snd p)) (pa_pieces P) \<and> has_nonzero N \<longrightarrow>
          \<not> list_all (\<lambda>p. lin_is_cst (snd p)) (pa_pieces c)"
      and nb: "\<not> list_all (\<lambda>p. lin_is_cst (snd p)) (pa_pieces N) \<and> has_nonzero P \<longrightarrow>
          \<not> list_all (\<lambda>p. lin_is_cst (snd p)) (pa_pieces c)"
      by blast
    have step: "mulLoop (Some P) (map (\<lambda>a. Inr (Some a)) (N # pas))
              = mulLoop (Some c) (map (\<lambda>a. Inr (Some a)) pas)"
      using False c(1) by auto
    have inv': "(?nc c \<and> 1 \<le> length (filter ?nc pas)) \<or>
              (\<not> ?nc c \<and> has_nonzero c \<and> 2 \<le> length (filter ?nc pas))"
    proof (cases "?nc P")
      case True
      then have "\<not> ?nc N" using False by simp
      then have "has_nonzero N" "1 \<le> length (filter ?nc pas)"
        using Nfac Cons.prems(3) True by auto
      moreover have "?nc c"
        using na True \<open>has_nonzero N\<close> by (auto simp: isl_pw_aff_is_cst_Some split: if_splits)
      ultimately show ?thesis by simp
    next
      case nP: False
      then have hP: "has_nonzero P" and two: "2 \<le> length (filter ?nc (N # pas))"
        using Cons.prems(3) by auto
      show ?thesis
      proof (cases "?nc N")
        case True
        then have "?nc c"
          using nb hP by (auto simp: isl_pw_aff_is_cst_Some split: if_splits)
        moreover have "1 \<le> length (filter ?nc pas)" using two True by simp
        ultimately show ?thesis by simp
      next
        case nN: False
        then have "has_nonzero N" using Nfac by simp
        then have "\<not> ?nc c" "has_nonzero c"
          using cc nP nN hP by (auto simp: isl_pw_aff_is_cst_Some split: if_splits)
        moreover have "2 \<le> length (filter ?nc pas)" using two nN by simp
        ultimately show ?thesis by simp
      qed
    qed
    have "mulLoop (Some c) (map (\<lambda>a. Inr (Some a)) pas) = Inr None"
      using Cons.IH [OF rest c(2)] inv' by blast
    then show ?thesis using step by simp
  qed
qed

text \<open>
  Claim C6, as amended. For a product that is not itself on record as a parameter, whose
  factors all translate and whose constant factors are not zero: when two or more factors
  are non-constant, the translation produces no affine result. It returns the null
  pointer (which the callers hand on to the set library); it does not fail an assertion.
\<close>

theorem visitMulExpr_two_nonconstant:
  assumes notrec: "getIdForParam S (SCEVMulExpr ops) = None"
    and tr: "map (visit E S n) ops = map (\<lambda>a. Inr (Some a)) pas"
    and nz: "\<forall>a \<in> set pas. isl_pw_aff_is_cst (Some a) = 0 \<or> has_nonzero a"
    and two: "2 \<le> length (filter (\<lambda>a. isl_pw_aff_is_cst (Some a) = 0) pas)"
  shows "visit E S n (SCEVMulExpr ops) = Inr None"
proof -
  let ?nc = "\<lambda>a. isl_pw_aff_is_cst (Some a) = 0"
  have ne: "pa_pieces a \<noteq> []" if "a \<in> set pas" for a
  proof -
    from that have "Inr (Some a) \<in> set (map (visit E S n) ops)"
      unfolding tr by simp
    then obtain e where "visit E S n e = Inr (Some a)" by auto
    then show ?thesis by (rule visit_pieces_nonempty)
  qed
  from two obtain P rest where pas: "pas = P # rest" by (cases pas) auto
  have fac: "\<forall>a \<in> set rest. pa_pieces a \<noteq> [] \<and> (?nc a \<or> has_nonzero a)"
    using ne nz pas by simp
  have inv: "(?nc P \<and> 1 \<le> length (filter ?nc rest)) \<or>
             (isl_pw_aff_is_cst (Some P) \<noteq> 0 \<and> has_nonzero P \<and> 2 \<le> length (filter ?nc rest))"
    using two nz pas by (cases "?nc P") auto
  have "mulLoop (Some P) (map (\<lambda>a. Inr (Some a)) rest) = Inr None"
    using mulLoop_null [OF fac _ inv] ne pas by simp
  then show ?thesis
    using notrec tr pas by (simp add: ifParam_def visitMulExpr_def)
qed

text \<open>
  Claim C6 as stated fails: the product of two parameters is reported by the validator
  as one parameter and recorded, and then translates to an affine expression.
\<close>

theorem visitMulExpr_two_nonconstant_counterexample:
  "getPwAff
     \<lparr> getParamsInAffineExpr = (\<lambda>e. [e]), outermostLoopInRegion = (\<lambda>l. None),
       regionContains = (\<lambda>l. False) \<rparr> 0
     \<lparr> MaxLoopDepth = 0, Parameters = [], ParameterIds = [],
       Context = Some (isl_set_universe [] 0), Stmts = [] \<rparr>
     (SCEVMulExpr [SCEVUnknown (Value ''%n'' ''n''), SCEVUnknown (Value ''%m'' ''m'')])
   = Inr (Some (paramAff (''p_0'', UserSCEV (SCEVMulExpr
                   [SCEVUnknown (Value ''%n'' ''n''), SCEVUnknown (Value ''%m'' ''m'')])) 0),
          \<lparr> MaxLoopDepth = 0,
            Parameters = [SCEVMulExpr
                   [SCEVUnknown (Value ''%n'' ''n''), SCEVUnknown (Value ''%m'' ''m'')]],
            ParameterIds = [(SCEVMulExpr
                   [SCEVUnknown (Value ''%n'' ''n''), SCEVUnknown (Value ''%m'' ''m'')], 0)],
            Context = Some (isl_set_universe [] 0), Stmts = [] \<rparr>)"
  by (simp add: getPwAff_def ifParam_def getIdForParam_def convertInt_def)


theorem visitMulExpr_two_nonconstant_witness:
  "isl_pw_aff_is_cst (Some (pw_aff_on_universe [(''n'', UserValue (Value ''%n'' ''n''))] 0
        (lin_param (''n'', UserValue (Value ''%n'' ''n''))))) = 0
   \<and> visit
       \<lparr> getParamsInAffineExpr = (\<lambda>e. []), outermostLoopInRegion = (\<lambda>l. None),
         regionContains = (\<lambda>l. False) \<rparr>
       \<lparr> MaxLoopDepth = 0, Parameters = [], ParameterIds = [],
         Context = Some (isl_set_universe [] 0), Stmts = [] \<rparr> 0
       (SCEVMulExpr [SCEVUnknown (Value ''%n'' ''n''), SCEVUnknown (Value ''%m'' ''m'')])
     = Inr None"
proof -
  let ?E = "\<lparr> getParamsInAffineExpr = (\<lambda>e. []), outermostLoopInRegion = (\<lambda>l. None),
         regionContains = (\<lambda>l. False) \<rparr>"
  let ?S = "\<lparr> MaxLoopDepth = 0, Parameters = [], ParameterIds = [],
         Context = Some (isl_set_universe [] 0), Stmts = [] \<rparr>"
  let ?n = "pw_aff_on_universe [(''n'', UserValue (Value ''%n'' ''n''))] 0
        (lin_param (''n'', UserValue (Value ''%n'' ''n'')))"
  let ?m = "pw_aff_on_universe [(''m'', UserValue (Value ''%m'' ''m''))] 0
        (lin_param (''m'', UserValue (Value ''%m'' ''m'')))"
  let ?ops = "[SCEVUnknown (Value ''%n'' ''n''), SCEVUnknown (Value ''%m'' ''m'')]"
  have nc: "isl_pw_aff_is_cst (Some ?n) = 0" "isl_pw_aff_is_cst (Some ?m) = 0"
    by (simp_all add: isl_pw_aff_is_cst_def pw_aff_on_universe_def lin_is_cst_def
        lin_param_def pcoef_def)
  have notrec: "getIdForParam ?S (SCEVMulExpr ?ops) = None"
    by (simp add: getIdForParam_def)
  have tr: "map (visit ?E ?S 0) ?ops = map (\<lambda>a. Inr (Some a)) [?n, ?m]"
    by (simp add: ifParam_def getIdForParam_def visitUnknown_def Let_def)
  have nz: "\<forall>a \<in> set [?n, ?m]. isl_pw_aff_is_cst (Some a) = 0 \<or> has_nonzero a"
    using nc by simp
  have two: "2 \<le> length (filter (\<lambda>a. isl_pw_aff_is_cst (Some a) = 0) [?n, ?m])"
    using nc by simp
  from visitMulExpr_two_nonconstant [OF notrec tr nz two] nc(1) show ?thesis by simp
qed

subsection \<open>Expressions over the input dimensions\<close>

lemma list_all_fst_map:
  "list_all (\<lambda>t. fst t < n) (map (\<lambda>(i, c). (i, f c)) ts) = list_all (\<lambda>t. fst t < (n::nat)) ts"
  by (induction ts) auto

lemma lin_dims_below_simps:
  "lin_dims_below n (lin_const c)"
  "lin_dims_below n (lin_param p)"
  "lin_dims_below n (lin_dim i) = (i < n)"
  "lin_dims_below n (lin_add a b) = (lin_dims_below n a \<and> lin_dims_below n b)"
  "lin_dims_below n (lin_scale k a) = lin_dims_below n a"
  "lin_dims_below n (lin_sub a b) = (lin_dims_below n a \<and> lin_dims_below n b)"
  by (simp_all add: lin_dims_below_def lin_const_def lin_param_def lin_dim_def lin_add_def
      lin_scale_def lin_sub_def list_all_fst_map)

lemma lin_eval_append:
  assumes "lin_dims_below (length x) l"
  shows "lin_eval l nu (x @ y) = lin_eval l nu x"
proof -
  have "list_all (\<lambda>t. fst t < length x) ts \<Longrightarrow>
        sum_list (map (\<lambda>(i, c). c * rat_of_int (dim_val (x @ y) i)) ts)
      = sum_list (map (\<lambda>(i, c). c * rat_of_int (dim_val x i)) ts)" for ts :: "(nat \<times> rat) list"
    by (induction ts) (auto simp: dim_val_def nth_append)
  then show ?thesis using assms by (simp add: lin_eval_def lin_dims_below_def)
qed

lemma holds_append:
  "fml_dims_below (length x) f \<Longrightarrow> holds f nu (x @ y) = holds f nu x"
  by (induction f) (simp_all add: lin_eval_append)

lemma fml_dims_below_foldr_FOr:
  "fml_dims_below n (foldr FOr fs FFalse) \<longleftrightarrow> (\<forall>f \<in> set fs. fml_dims_below n f)"
  by (induction fs) auto

lemma fml_dims_below_cmp_fml:
  assumes "pw_dims_below n a" "pw_dims_below n b"
    and "\<And>d. lin_dims_below n d \<Longrightarrow> fml_dims_below n (atom d)"
  shows "fml_dims_below n (cmp_fml atom a b)"
  unfolding cmp_fml_def fml_dims_below_foldr_FOr
proof
  fix f
  assume "f \<in> set [FAnd (FAnd g1 g2) (atom (lin_sub l1 l2)).
                  (g1, l1) \<leftarrow> pa_pieces a, (g2, l2) \<leftarrow> pa_pieces b]"
  then obtain p1 p2 where p: "p1 \<in> set (pa_pieces a)" "p2 \<in> set (pa_pieces b)"
      "f = FAnd (FAnd (fst p1) (fst p2)) (atom (lin_sub (snd p1) (snd p2)))"
    by (auto simp: split_def)
  then show "fml_dims_below n f"
    using assms by (auto simp: pw_dims_below_def list_all_iff lin_dims_below_simps)
qed

lemma fml_dims_below_ge_fml:
  "pw_dims_below n a \<Longrightarrow> pw_dims_below n b \<Longrightarrow> fml_dims_below n (ge_fml a b)"
  unfolding ge_fml_def by (rule fml_dims_below_cmp_fml) simp_all

lemma fml_dims_below_domain:
  "pw_dims_below n a \<Longrightarrow> fml_dims_below n (pw_domain_fml a)"
  by (auto simp: pw_domain_fml_def fml_dims_below_foldr_FOr pw_dims_below_def list_all_iff)

lemma visit_dims_below:
  assumes "visit E S n e = Inr (Some c)"
  shows "pw_dims_below n c"
proof (rule visit_inv [where P = "pw_dims_below n", OF _ _ _ _ _ _ _ assms])
  show "pw_dims_below n (paramAff ID n)" for ID
    by (simp add: paramAff_def pw_aff_on_universe_def pw_dims_below_def lin_dims_below_simps)
  show "pw_dims_below n (pw_aff_on_universe [] n (lin_const (of_int k)))" for k
    by (simp add: pw_aff_on_universe_def pw_dims_below_def lin_dims_below_simps)
  show "pw_dims_below n (pw_on_shared_domain lin_add a b)"
    if ab: "pw_dims_below n a" "pw_dims_below n b" for a b
    unfolding pw_dims_below_def list_all_iff
  proof
    fix p assume "p \<in> set (pa_pieces (pw_on_shared_domain lin_add a b))"
    then obtain p1 p2 where "p1 \<in> set (pa_pieces a)" "p2 \<in> set (pa_pieces b)"
        "p = (FAnd (fst p1) (fst p2), lin_add (snd p1) (snd p2))"
      unfolding pw_on_shared_domain_pieces by blast
    then show "fml_dims_below n (fst p) \<and> lin_dims_below n (snd p)"
      using ab by (auto simp: pw_dims_below_def list_all_iff lin_dims_below_simps)
  qed
  show "pw_dims_below n c"
    if ab: "pw_dims_below n a" "pw_dims_below n b"
      and m: "isl_pw_aff_mul (Some a) (Some b) = Inr (Some c)" for a b c
    unfolding pw_dims_below_def list_all_iff
  proof
    fix p assume "p \<in> set (pa_pieces c)"
    from isl_pw_aff_mul_pieces(3) [OF m this] obtain p1 p2 where
      p: "p1 \<in> set (pa_pieces a)" "p2 \<in> set (pa_pieces b)"
      "isl_aff_mul (snd p1) (snd p2) = Inr (snd p)" "fst p = FAnd (fst p1) (fst p2)" by blast
    have "lin_dims_below n (snd p1)" "lin_dims_below n (snd p2)"
      "fml_dims_below n (fst p1)" "fml_dims_below n (fst p2)"
      using ab p(1,2) by (auto simp: pw_dims_below_def list_all_iff)
    moreover have "snd p = lin_scale (cterm (snd p2)) (snd p1)
        \<or> snd p = lin_scale (cterm (snd p1)) (snd p2)"
      using p(3) by (auto simp: isl_aff_mul_def split: if_splits)
    ultimately have "lin_dims_below n (snd p)" "fml_dims_below n (fst p1)"
        "fml_dims_below n (fst p2)"
      by (auto simp: lin_dims_below_simps)
    then show "fml_dims_below n (fst p) \<and> lin_dims_below n (snd p)"
      using p(4) by simp
  qed
  show "pw_dims_below n c"
    if ab: "pw_dims_below n a" "pw_dims_below n b"
      and m: "isl_pw_aff_max (Some a) (Some b) = Some c" for a b c
  proof -
    let ?le = "ge_fml b a"
    let ?rest = "FAnd (FAnd (pw_domain_fml a) (pw_domain_fml b)) (FNot ?le)"
    have c: "pa_pieces c = map (\<lambda>q. (FAnd (fst q) ?le, snd q)) (pa_pieces b)
                            @ map (\<lambda>q. (FAnd (fst q) ?rest, snd q)) (pa_pieces a)"
      using m by (auto simp: isl_pw_aff_max_def Let_def split_def)
    have "fml_dims_below n ?le" "fml_dims_below n ?rest"
      using ab by (simp_all add: fml_dims_below_ge_fml fml_dims_below_domain)
    then show ?thesis
      using ab unfolding c pw_dims_below_def list_all_iff by auto
  qed
  show "pw_dims_below n (pw_aff_on_universe [] n (lin_dim i))" if "i < n" for i
    using that by (simp add: pw_aff_on_universe_def pw_dims_below_def lin_dims_below_simps)
  show "pw_dims_below n (pw_aff_on_universe [(getName v, UserValue v)] n
          (lin_param (getName v, UserValue v)))" for v
    by (simp add: pw_aff_on_universe_def pw_dims_below_def lin_dims_below_simps)
qed


lemma getPwAff_dims_below:
  "getPwAff E n S e = Inr (Some c, S') \<Longrightarrow> pw_dims_below n c"
  using getPwAff_visit visit_dims_below by blast

lemma in_map_from_pw_aff:
  assumes db: "pw_dims_below (pa_n_in a) a" and k: "k \<noteq> 0"
  shows "\<exists>m. isl_map_from_pw_aff (Some (a\<lparr> pa_pieces :=
              map (\<lambda>(g, l). (g, lin_scale (1 / of_int k) l)) (pa_pieces a) \<rparr>)) = Some m
      \<and> map_n_in m = pa_n_in a \<and> map_n_out m = 1 \<and> map_params m = pa_params a
      \<and> (\<forall>nu x y. holds (map_fml m) nu (x @ y) \<and> length x = pa_n_in a \<and> length y = 1 \<longleftrightarrow>
            length x = pa_n_in a \<and>
            (\<exists>ov v. y = [ov] \<and> pw_val a nu x v \<and> of_int ov * of_int k = v))"
proof -
  let ?n = "pa_n_in a"
  let ?a' = "a\<lparr> pa_pieces := map (\<lambda>(g, l). (g, lin_scale (1 / of_int k) l)) (pa_pieces a) \<rparr>"
  let ?fs = "[FAnd g (FEq (lin_sub l (lin_dim ?n))). (g, l) \<leftarrow> pa_pieces ?a']"
  let ?m = "\<lparr> map_params = pa_params a, map_in_tuple = [], map_n_in = ?n,
              map_out_tuple = [], map_n_out = 1, map_fml = foldr FOr ?fs FFalse \<rparr>"
  have m: "isl_map_from_pw_aff (Some ?a') = Some ?m"
    by (simp add: isl_map_from_pw_aff_def)
  have sem: "holds (map_fml ?m) nu (x @ [ov]) \<longleftrightarrow>
        (\<exists>v. pw_val a nu x v \<and> of_int ov * of_int k = v)" if lx: "length x = ?n" for nu x ov
  proof -
    have piece: "holds (FAnd (fst p) (FEq (lin_sub (lin_scale (1 / of_int k) (snd p)) (lin_dim ?n))))
            nu (x @ [ov])
        \<longleftrightarrow> holds (fst p) nu x \<and> of_int ov * of_int k = lin_eval (snd p) nu x"
      if p: "p \<in> set (pa_pieces a)" for p
    proof -
      have d: "fml_dims_below (length x) (fst p)" "lin_dims_below (length x) (snd p)"
        using db p lx by (auto simp: pw_dims_below_def list_all_iff)
      have dv: "dim_val (x @ [ov]) ?n = ov"
        using lx by (simp add: dim_val_def nth_append)
      have "(lin_eval (snd p) nu x / of_int k - of_int ov = 0)
          \<longleftrightarrow> (of_int ov * of_int k = lin_eval (snd p) nu x)"
        using k by (auto simp: field_simps)
      then show ?thesis
        using d by (simp add: holds_append lin_eval_append dv)
    qed
    have "holds (map_fml ?m) nu (x @ [ov]) \<longleftrightarrow>
        (\<exists>p \<in> set (pa_pieces a).
           holds (FAnd (fst p) (FEq (lin_sub (lin_scale (1 / of_int k) (snd p)) (lin_dim ?n))))
             nu (x @ [ov]))"
      by (simp add: holds_foldr_FOr split_def Bex_def del: holds.simps)
    also have "\<dots> \<longleftrightarrow> (\<exists>p \<in> set (pa_pieces a).
           holds (fst p) nu x \<and> of_int ov * of_int k = lin_eval (snd p) nu x)"
      using piece by blast
    also have "\<dots> \<longleftrightarrow> (\<exists>v. pw_val a nu x v \<and> of_int ov * of_int k = v)"
      unfolding pw_val_iff by blast
    finally show ?thesis .
  qed
  have "\<forall>nu x y. holds (map_fml ?m) nu (x @ y) \<and> length x = ?n \<and> length y = 1 \<longleftrightarrow>
            length x = ?n \<and> (\<exists>ov v. y = [ov] \<and> pw_val a nu x v \<and> of_int ov * of_int k = v)"
  proof (intro allI)
    fix nu x y
    show "holds (map_fml ?m) nu (x @ y) \<and> length x = ?n \<and> length y = 1 \<longleftrightarrow>
            length x = ?n \<and> (\<exists>ov v. y = [ov] \<and> pw_val a nu x v \<and> of_int ov * of_int k = v)"
    proof (cases "length x = ?n \<and> (\<exists>ov. y = [ov])")
      case True
      then obtain ov where "y = [ov]" "length x = ?n" by blast
      then show ?thesis using sem [of x nu ov] by auto
    next
      case False
      then show ?thesis by (auto simp: length_Suc_conv)
    qed
  qed
  then show ?thesis using m by (intro exI [of _ ?m]) simp
qed


text \<open>
  Claim C4, as amended. For an access with an affine offset that translates and a non-zero
  element size, a pair of a point and an output coordinate is in the access relation
  exactly when the coordinate times the element size equals the translated offset at the
  point. Where the offset is a multiple of the element size the output coordinate is the
  quotient; at any other point the relation has no output coordinate. Nothing in the
  construction makes the division exact.
\<close>

theorem newMemoryAccess_affine:
  assumes aff: "isAffine Access"
    and tr: "getPwAff E n S (getOffset Access) = Inr (Some A, S')"
    and sz: "getElemSizeInBytes Access \<noteq> 0"
  shows "\<exists>MA m. newMemoryAccess E Access n stmtName S = Inr (MA, S')
      \<and> Type MA = (if isRead Access then Read else Write)
      \<and> BaseAddr MA = getBase Access
      \<and> AccessRelation MA = Some m
      \<and> map_n_in m = n \<and> map_in_tuple m = stmtName
      \<and> map_n_out m = 1 \<and> map_out_tuple m = BaseName MA
      \<and> (\<forall>nu x y. in_map m nu x y \<longleftrightarrow>
            length x = n \<and>
            (\<exists>ov v. y = [ov] \<and> pw_val A nu x v
               \<and> of_int ov * of_int (int (getElemSizeInBytes Access)) = v))"
proof -
  let ?k = "int (getElemSizeInBytes Access)"
  let ?A' = "A\<lparr> pa_pieces := map (\<lambda>(g, l). (g, lin_scale (1 / of_int ?k) l)) (pa_pieces A) \<rparr>"
  have nA: "pa_n_in A = n" using getPwAff_n_in [OF tr] .
  have db: "pw_dims_below (pa_n_in A) A" using getPwAff_dims_below [OF tr] nA by simp
  have k: "?k \<noteq> 0" using sz by simp
  from in_map_from_pw_aff [OF db k] obtain m where
    m: "isl_map_from_pw_aff (Some ?A') = Some m" "map_n_in m = n" "map_n_out m = 1"
    and sem: "\<forall>nu x y. holds (map_fml m) nu (x @ y) \<and> length x = n \<and> length y = 1 \<longleftrightarrow>
            length x = n \<and> (\<exists>ov v. y = [ov] \<and> pw_val A nu x v \<and> of_int ov * of_int ?k = v)"
    using nA by auto
  obtain bn where bn: "setBaseName (getBase Access) = Inr bn"
    using setBaseName_total by blast
  let ?m' = "m\<lparr> map_in_tuple := stmtName, map_out_tuple := bn \<rparr>"
  let ?MA = "\<lparr> AccessRelation = Some ?m', newAccessRelation = None, BaseAddr = getBase Access,
                BaseName = bn, Type = (if isRead Access then Read else Write) \<rparr>"
  have sd: "isl_pw_aff_scale_down (Some A) ?k = Inr (Some ?A')"
    using k by (simp add: isl_pw_aff_scale_down_def)
  have res: "newMemoryAccess E Access n stmtName S = Inr (?MA, S')"
    using aff tr bn sd m(1)
    by (simp add: newMemoryAccess_def Let_def isl_map_set_tuple_name_in_def
        isl_map_set_tuple_name_out_def)
  have "in_map ?m' nu x y \<longleftrightarrow>
          length x = n \<and> (\<exists>ov v. y = [ov] \<and> pw_val A nu x v \<and> of_int ov * of_int ?k = v)"
    for nu x y
    using sem m(2,3) by (auto simp: in_map_def)
  then show ?thesis
    using res m(2,3) by (intro exI [of _ ?MA] exI [of _ ?m']) simp
qed


lemma of_int_ne_half: "rat_of_int ov * 4 \<noteq> 2"
proof
  assume "rat_of_int ov * 4 = 2"
  then have "rat_of_int (ov * 4) = rat_of_int 2" by simp
  then have "ov * 4 = 2" by (simp only: of_int_eq_iff)
  then show False by presburger
qed

text \<open>
  Claim C4 as stated fails: a four-byte store at the byte offset \<open>2\<close> from its base is an
  affine access whose offset is not a multiple of the element size; its relation has no
  output coordinate at the single point of the statement's domain.
\<close>

theorem newMemoryAccess_affine_counterexample:
  "\<exists>MA m. newMemoryAccess
          \<lparr> getParamsInAffineExpr = (\<lambda>e. []), outermostLoopInRegion = (\<lambda>l. None),
            regionContains = (\<lambda>l. False) \<rparr>
          \<lparr> getBase = Value ''%A'' ''A'', getOffset = SCEVConstant 64 2,
            getElemSizeInBytes = 4, irType = WRITE, isAffine = True \<rparr>
          0 ''Stmt_entry''
          \<lparr> MaxLoopDepth = 0, Parameters = [], ParameterIds = [],
            Context = Some (isl_set_universe [] 0), Stmts = [] \<rparr>
        = Inr (MA, \<lparr> MaxLoopDepth = 0, Parameters = [], ParameterIds = [],
            Context = Some (isl_set_universe [] 0), Stmts = [] \<rparr>)
      \<and> AccessRelation MA = Some m
      \<and> (\<forall>y. \<not> in_map m (\<lambda>p. 0) [] y)"
proof -
  let ?E = "\<lparr> getParamsInAffineExpr = (\<lambda>e. []), outermostLoopInRegion = (\<lambda>l. None),
            regionContains = (\<lambda>l. False) \<rparr>"
  let ?S = "\<lparr> MaxLoopDepth = 0, Parameters = [], ParameterIds = [],
            Context = Some (isl_set_universe [] 0), Stmts = [] \<rparr>"
  let ?Acc = "\<lparr> getBase = Value ''%A'' ''A'', getOffset = SCEVConstant 64 2,
            getElemSizeInBytes = 4, irType = WRITE, isAffine = True \<rparr>"
  let ?A = "pw_aff_on_universe [] 0 (lin_const 2)"
  let ?A' = "?A\<lparr> pa_pieces := map (\<lambda>(g, l). (g, lin_scale (1 / of_int 4) l)) (pa_pieces ?A) \<rparr>"
  have tr: "getPwAff ?E 0 ?S (getOffset ?Acc) = Inr (Some ?A, ?S)"
    by (simp add: getPwAff_def ifParam_def getIdForParam_def visitConstant_def
        MPZ_from_APInt_signed_def)
  have db: "pw_dims_below (pa_n_in ?A) ?A"
    by (simp add: pw_dims_below_def pw_aff_on_universe_def lin_dims_below_simps)
  from in_map_from_pw_aff [OF db, of 4] obtain m where
    m: "isl_map_from_pw_aff (Some ?A') = Some m" "map_n_in m = 0" "map_n_out m = 1"
    and sem: "\<forall>nu x y. holds (map_fml m) nu (x @ y) \<and> length x = 0 \<and> length y = 1 \<longleftrightarrow>
            length x = 0 \<and> (\<exists>ov v. y = [ov] \<and> pw_val ?A nu x v \<and> of_int ov * of_int 4 = v)"
    by (auto simp: pw_aff_on_universe_def)
  obtain bn where bn: "setBaseName (getBase ?Acc) = Inr bn"
    using setBaseName_total by blast
  let ?m' = "m\<lparr> map_in_tuple := ''Stmt_entry'', map_out_tuple := bn \<rparr>"
  let ?MA = "\<lparr> AccessRelation = Some ?m', newAccessRelation = None, BaseAddr = getBase ?Acc,
                BaseName = bn, Type = Write \<rparr>"
  have sd: "isl_pw_aff_scale_down (Some ?A) 4 = Inr (Some ?A')"
    by (simp add: isl_pw_aff_scale_down_def)
  have res: "newMemoryAccess ?E ?Acc 0 ''Stmt_entry'' ?S = Inr (?MA, ?S)"
    using tr bn sd m(1)
    by (simp add: newMemoryAccess_def Let_def isl_map_set_tuple_name_in_def
        isl_map_set_tuple_name_out_def isRead_def)
  have "\<not> in_map ?m' (\<lambda>p. 0) [] y" for y
  proof
    assume "in_map ?m' (\<lambda>p. 0) [] y"
    then have "holds (map_fml m) (\<lambda>p. 0) ([] @ y) \<and> length ([] :: int list) = 0 \<and> length y = 1"
      using m(2,3) by (simp add: in_map_def)
    then obtain ov v where "pw_val ?A (\<lambda>p. 0) [] v" "rat_of_int ov * of_int 4 = v"
      using sem by blast
    then have "rat_of_int ov * 4 = 2"
      by (simp add: pw_val_on_universe)
    then show False using of_int_ne_half by blast
  qed
  then show ?thesis using res by (intro exI [of _ ?MA] exI [of _ ?m']) simp
qed

theorem newMemoryAccess_affine_witness:
  "\<exists>MA m. newMemoryAccess
          \<lparr> getParamsInAffineExpr = (\<lambda>e. []), outermostLoopInRegion = (\<lambda>l. None),
            regionContains = (\<lambda>l. False) \<rparr>
          \<lparr> getBase = Value ''%A'' ''A'', getOffset = SCEVConstant 64 8,
            getElemSizeInBytes = 4, irType = WRITE, isAffine = True \<rparr>
          0 ''Stmt_entry''
          \<lparr> MaxLoopDepth = 0, Parameters = [], ParameterIds = [],
            Context = Some (isl_set_universe [] 0), Stmts = [] \<rparr>
        = Inr (MA, \<lparr> MaxLoopDepth = 0, Parameters = [], ParameterIds = [],
            Context = Some (isl_set_universe [] 0), Stmts = [] \<rparr>)
      \<and> Type MA = Write \<and> AccessRelation MA = Some m
      \<and> in_map m (\<lambda>p. 0) [] [2] \<and> \<not> in_map m (\<lambda>p. 0) [] [3]"
proof -
  let ?E = "\<lparr> getParamsInAffineExpr = (\<lambda>e. []), outermostLoopInRegion = (\<lambda>l. None),
            regionContains = (\<lambda>l. False) \<rparr>"
  let ?S = "\<lparr> MaxLoopDepth = 0, Parameters = [], ParameterIds = [],
            Context = Some (isl_set_universe [] 0), Stmts = [] \<rparr>"
  let ?Acc = "\<lparr> getBase = Value ''%A'' ''A'', getOffset = SCEVConstant 64 8,
            getElemSizeInBytes = 4, irType = WRITE, isAffine = True \<rparr>"
  let ?A = "pw_aff_on_universe [] 0 (lin_const 8)"
  have aff: "isAffine ?Acc" by simp
  have tr: "getPwAff ?E 0 ?S (getOffset ?Acc) = Inr (Some ?A, ?S)"
    by (simp add: getPwAff_def ifParam_def getIdForParam_def visitConstant_def
        MPZ_from_APInt_signed_def)
  have sz: "getElemSizeInBytes ?Acc \<noteq> 0" by simp
  from newMemoryAccess_affine [OF aff tr sz, of "''Stmt_entry''"] obtain MA m where
    r: "newMemoryAccess ?E ?Acc 0 ''Stmt_entry'' ?S = Inr (MA, ?S)"
      "Type MA = (if isRead ?Acc then Read else Write)" "AccessRelation MA = Some m"
      "\<forall>nu x y. in_map m nu x y \<longleftrightarrow>
            length x = 0 \<and>
            (\<exists>ov v. y = [ov] \<and> pw_val ?A nu x v
               \<and> of_int ov * of_int (int (getElemSizeInBytes ?Acc)) = v)"
    by blast
  have "in_map m (\<lambda>p. 0) [] [2]"
    using r(4) by (simp add: pw_val_on_universe)
  moreover have "\<not> in_map m (\<lambda>p. 0) [] [3]"
    using r(4) by (simp add: pw_val_on_universe)
  ultimately show ?thesis
    using r(1,2,3) by (intro exI [of _ MA] exI [of _ m]) (simp add: isRead_def)
qed


lemma buildIRAccess_offset:
  "buildIRAccess A (StoreInst ptr sz) L = Inr Access \<Longrightarrow>
     \<exists>base. getPointerBase A (getSCEVAtScope A ptr L) = SCEVUnknown base
       \<and> getBase Access = base
       \<and> getOffset Access = getMinusSCEV A (getSCEVAtScope A ptr L) (SCEVUnknown base)
       \<and> getElemSizeInBytes Access = sz"
  by (auto simp: buildIRAccess_def Let_def split: scev.splits)

subsection \<open>The loops of the domain construction\<close>

lemma condLoop_append:
  "condLoop E n (cs1 @ cs2) D S =
     bindR (condLoop E n cs1 D S) (\<lambda>(D', S'). condLoop E n cs2 D' S')"
proof (induction cs1 arbitrary: D S)
  case Nil
  then show ?case by simp
next
  case (Cons c cs1)
  show ?case
  proof (cases "buildConditionSet E n S c")
    case (Inl f)
    then show ?thesis by simp
  next
    case (Inr p)
    then show ?thesis using Cons.IH by (cases p) simp
  qed
qed

lemma regionLoop_condLoop:
  "regionLoop E T n b chain D S = condLoop E n (reachingConds T b chain) D S"
proof (induction chain arbitrary: b D S)
  case Nil
  then show ?case by simp
next
  case (Cons entry chain)
  let ?cs = "if b \<noteq> entry then (case BBConds T b of Some cs \<Rightarrow> cs | None \<Rightarrow> []) else []"
  have first: "(if b \<noteq> entry
            then (case BBConds T b of
                    Some Condition \<Rightarrow> condLoop E n Condition D S
                  | None \<Rightarrow> Inr (D, S))
            else Inr (D, S)) = condLoop E n ?cs D S"
    by (simp split: option.splits)
  have "regionLoop E T n b (entry # chain) D S
      = bindR (condLoop E n ?cs D S) (\<lambda>(D', S'). regionLoop E T n entry chain D' S')"
    unfolding regionLoop.simps first ..
  also have "\<dots> = bindR (condLoop E n ?cs D S)
                     (\<lambda>(D', S'). condLoop E n (reachingConds T entry chain) D' S')"
    using Cons.IH by simp
  also have "\<dots> = condLoop E n (?cs @ reachingConds T entry chain) D S"
    by (simp add: condLoop_append)
  finally show ?case by simp
qed

lemma getPwAffs_append:
  "getPwAffs E n S (es1 @ es2) =
     bindR (getPwAffs E n S es1) (\<lambda>(As1, S1).
     bindR (getPwAffs E n S1 es2) (\<lambda>(As2, S2). Inr (As1 @ As2, S2)))"
proof (induction es1 arbitrary: S)
  case Nil
  show ?case by (cases "getPwAffs E n S es2") (auto simp: split_def)
next
  case (Cons e es1)
  show ?case
  proof (cases "getPwAff E n S e")
    case (Inl f)
    then show ?thesis by simp
  next
    case (Inr p)
    obtain A S1 where p: "p = (A, S1)" by (cases p)
    show ?thesis
      using Inr p Cons.IH [of S1]
      by (cases "getPwAffs E n S1 es1") (auto simp: split_def bindR_def split: sum.splits)
  qed
qed

lemma getPwAffs_split:
  assumes "getPwAffs E n S (es1 @ es2) = Inr (As, S')"
  shows "\<exists>As1 As2 S1. getPwAffs E n S es1 = Inr (As1, S1) \<and> getPwAffs E n S1 es2 = Inr (As2, S')
           \<and> As = As1 @ As2 \<and> length As1 = length es1 \<and> length As2 = length es2"
proof -
  have len: "getPwAffs E n S es = Inr (As, S') \<Longrightarrow> length As = length es" for S es As S'
  proof (induction es arbitrary: S As)
    case Nil
    then show ?case by simp
  next
    case (Cons e es)
    then show ?case
      by (auto simp: bindR_def split: sum.splits prod.splits)
  qed
  from assms show ?thesis
    unfolding getPwAffs_append
    by (auto simp: bindR_def len split: sum.splits prod.splits)
qed


lemma buildConditionSet_supported:
  assumes L: "getPwAff E n S (getLHS Comp) = Inr (Some L, S1)"
    and R: "getPwAff E n S1 (getRHS Comp) = Inr (Some R, S2)"
    and rel: "predicate_rel (getPred Comp) = Some rel"
  shows "\<exists>D. buildConditionSet E n S Comp = Inr (Some D, S2) \<and> set_n_dim D = n \<and>
           (\<forall>nu x. in_set D nu x \<longleftrightarrow>
              length x = n \<and> (\<exists>l r. pw_val L nu x l \<and> pw_val R nu x r \<and> rel l r))"
proof -
  note ev = buildConditionSet_eval [OF L R]
  have nL: "pa_n_in L = n" and nR: "pa_n_in R = n"
    using getPwAff_n_in L R by blast+
  have iL: "l \<in> \<int>" if "pw_val L nu x l" for nu x l
    using getPwAff_int_pw [OF L] int_pw_val that by blast
  have iR: "r \<in> \<int>" if "pw_val R nu x r" for nu x r
    using getPwAff_int_pw [OF R] int_pw_val that by blast
  have ge: "holds (ge_fml L R) nu x \<longleftrightarrow> (\<exists>l r. pw_val L nu x l \<and> pw_val R nu x r \<and> r \<le> l)"
    for nu x by (rule holds_ge_fml)
  have le: "holds (ge_fml R L) nu x \<longleftrightarrow> (\<exists>l r. pw_val L nu x l \<and> pw_val R nu x r \<and> l \<le> r)"
    for nu x unfolding holds_ge_fml by blast
  have gt: "holds (gt_fml L R) nu x \<longleftrightarrow> (\<exists>l r. pw_val L nu x l \<and> pw_val R nu x r \<and> r < l)"
    for nu x unfolding holds_gt_fml using iL iR Ints_less_iff_add_one_le by blast
  have lt: "holds (gt_fml R L) nu x \<longleftrightarrow> (\<exists>l r. pw_val L nu x l \<and> pw_val R nu x r \<and> l < r)"
    for nu x unfolding holds_gt_fml using iL iR Ints_less_iff_add_one_le by blast
  have eq: "holds (eq_fml L R) nu x \<longleftrightarrow> (\<exists>l r. pw_val L nu x l \<and> pw_val R nu x r \<and> l = r)"
    for nu x unfolding holds_eq_fml by blast
  have ne: "holds (FOr (gt_fml R L) (gt_fml L R)) nu x \<longleftrightarrow>
        (\<exists>l r. pw_val L nu x l \<and> pw_val R nu x r \<and> l \<noteq> r)"
    for nu x unfolding holds.simps lt gt by (metis less_irrefl linorder_neqE_linordered_idom)
  show ?thesis
  proof (cases "getPred Comp")
    case ICMP_EQ
    then show ?thesis
      using ev rel by (auto simp: isl_pw_aff_eq_set_def cmp_set_def in_set_def nL eq)
  next
    case ICMP_NE
    then show ?thesis
      using ev rel
      by (auto simp: isl_pw_aff_ne_set_def cmp_set_def in_set_def nL ne simp del: holds.simps)
  next
    case ICMP_SGT
    then show ?thesis
      using ev rel by (auto simp: isl_pw_aff_gt_set_def cmp_set_def in_set_def nL gt)
  next
    case ICMP_SGE
    then show ?thesis
      using ev rel by (auto simp: isl_pw_aff_ge_set_def cmp_set_def in_set_def nL ge)
  next
    case ICMP_SLT
    then show ?thesis
      using ev rel by (auto simp: isl_pw_aff_lt_set_def isl_pw_aff_gt_set_def cmp_set_def
          in_set_def nR lt)
  next
    case ICMP_SLE
    then show ?thesis
      using ev rel by (auto simp: isl_pw_aff_le_set_def isl_pw_aff_ge_set_def cmp_set_def
          in_set_def nR le)
  qed (use rel in simp_all)
qed


lemma all_less_Suc_shift:
  "(\<forall>j < Suc n. Q j) \<longleftrightarrow> Q 0 \<and> (\<forall>j < n. Q (Suc j))"
  by (auto simp: less_Suc_eq_0_disj)

lemma getPwAffs_Cons:
  assumes "getPwAffs E n S (e # es) = Inr (As, S')"
  shows "\<exists>A S1 As'. getPwAff E n S e = Inr (A, S1) \<and> getPwAffs E n S1 es = Inr (As', S')
           \<and> As = A # As'"
  using assms by (auto simp: bindR_def split: sum.splits prod.splits)

lemma condLoop_sem:
  assumes sup: "\<forall>c \<in> set cs. predicate_rel (getPred c) \<noteq> None"
    and tr: "getPwAffs E n S (concat (map (\<lambda>c. [getLHS c, getRHS c]) cs)) = Inr (map Some pas, S')"
    and D: "set_n_dim D = n"
  shows "\<exists>D'. condLoop E n cs (Some D) S = Inr (Some D', S') \<and> set_n_dim D' = n
      \<and> set_tuple D' = set_tuple D
      \<and> (\<forall>nu x. in_set D' nu x \<longleftrightarrow> in_set D nu x \<and>
            (\<forall>j < length cs. \<exists>l r rel. predicate_rel (getPred (cs ! j)) = Some rel
                \<and> pw_val (pas ! (2 * j)) nu x l \<and> pw_val (pas ! (2 * j + 1)) nu x r \<and> rel l r))"
  using assms
proof (induction cs arbitrary: D S pas)
  case Nil
  then show ?case by simp
next
  case (Cons c cs)
  from Cons.prems(2) have tr: "getPwAffs E n S (getLHS c # getRHS c #
        concat (map (\<lambda>c. [getLHS c, getRHS c]) cs)) = Inr (map Some pas, S')"
    by simp
  from getPwAffs_Cons [OF tr] obtain A S1 As1 where
    l: "getPwAff E n S (getLHS c) = Inr (A, S1)"
    and tr1: "getPwAffs E n S1 (getRHS c # concat (map (\<lambda>c. [getLHS c, getRHS c]) cs))
               = Inr (As1, S')"
    and p1: "map Some pas = A # As1" by auto
  from getPwAffs_Cons [OF tr1] obtain B S2 As2 where
    r: "getPwAff E n S1 (getRHS c) = Inr (B, S2)"
    and tr2: "getPwAffs E n S2 (concat (map (\<lambda>c. [getLHS c, getRHS c]) cs)) = Inr (As2, S')"
    and p2: "As1 = B # As2" by auto
  from p1 p2 obtain L R pas' where pas: "pas = L # R # pas'" "A = Some L" "B = Some R"
      "As2 = map Some pas'"
    by (auto simp: map_eq_Cons_conv)
  obtain rel where rel: "predicate_rel (getPred c) = Some rel"
    using Cons.prems(1) by auto
  from buildConditionSet_supported [OF l [unfolded pas(2)] r [unfolded pas(3)] rel]
  obtain Dc where Dc: "buildConditionSet E n S c = Inr (Some Dc, S2)" "set_n_dim Dc = n"
    "\<forall>nu x. in_set Dc nu x \<longleftrightarrow>
        length x = n \<and> (\<exists>l r. pw_val L nu x l \<and> pw_val R nu x r \<and> rel l r)"
    by blast
  from in_set_intersect [of Dc D] Dc(2) Cons.prems(3) obtain D1 where
    D1: "isl_set_intersect (Some D) (Some Dc) = Some D1" "set_n_dim D1 = n"
      "set_tuple D1 = set_tuple D"
      "\<forall>nu x. in_set D1 nu x \<longleftrightarrow> in_set D nu x \<and> in_set Dc nu x"
    by auto
  have sup': "\<forall>c \<in> set cs. predicate_rel (getPred c) \<noteq> None"
    using Cons.prems(1) by simp
  from Cons.IH [OF sup' tr2 [unfolded pas(4)] D1(2)] obtain D' where
    D': "condLoop E n cs (Some D1) S2 = Inr (Some D', S')" "set_n_dim D' = n"
      "set_tuple D' = set_tuple D1"
      "\<forall>nu x. in_set D' nu x \<longleftrightarrow> in_set D1 nu x \<and>
            (\<forall>j < length cs. \<exists>l r rel. predicate_rel (getPred (cs ! j)) = Some rel
                \<and> pw_val (pas' ! (2 * j)) nu x l \<and> pw_val (pas' ! (2 * j + 1)) nu x r \<and> rel l r)"
    by blast
  have run: "condLoop E n (c # cs) (Some D) S = Inr (Some D', S')"
    using Dc(1) D1(1) D'(1) by simp
  have sem: "in_set D' nu x \<longleftrightarrow> in_set D nu x \<and>
            (\<forall>j < length (c # cs). \<exists>l r rel. predicate_rel (getPred ((c # cs) ! j)) = Some rel
                \<and> pw_val (pas ! (2 * j)) nu x l \<and> pw_val (pas ! (2 * j + 1)) nu x r \<and> rel l r)"
    for nu x
  proof -
    let ?Q = "\<lambda>j. \<exists>l r rel. predicate_rel (getPred ((c # cs) ! j)) = Some rel
                \<and> pw_val (pas ! (2 * j)) nu x l \<and> pw_val (pas ! (2 * j + 1)) nu x r \<and> rel l r"
    have q0: "?Q 0 \<longleftrightarrow> (\<exists>l r. pw_val L nu x l \<and> pw_val R nu x r \<and> rel l r)"
      using rel pas(1) by simp
    have qs: "?Q (Suc j) \<longleftrightarrow> (\<exists>l r rel. predicate_rel (getPred (cs ! j)) = Some rel
                \<and> pw_val (pas' ! (2 * j)) nu x l \<and> pw_val (pas' ! (2 * j + 1)) nu x r \<and> rel l r)"
      for j using pas(1) by simp
    have "(\<forall>j < length (c # cs). ?Q j) \<longleftrightarrow> ?Q 0 \<and> (\<forall>j < length cs. ?Q (Suc j))"
      using all_less_Suc_shift [of "length cs" ?Q] by simp
    moreover have "in_set D nu x \<Longrightarrow> length x = n"
      using Cons.prems(3) by (simp add: in_set_def)
    ultimately show ?thesis
      unfolding D'(4) [rule_format] D1(4) [rule_format] Dc(3) [rule_format] q0 qs by blast
  qed
  show ?case
    using run D'(2,3) D1(3) sem by (intro exI [of _ D']) simp
qed


lemma in_nonneg_set:
  "in_set \<lparr> set_params = ps, set_tuple = [], set_n_dim = n,
            set_fml = foldr FOr [FAnd g (FGe l). (g, l) \<leftarrow> pa_pieces a] FFalse \<rparr> nu x
     \<longleftrightarrow> length x = n \<and> (\<exists>v. pw_val a nu x v \<and> 0 \<le> v)"
  unfolding in_set_def pw_val_iff
  by (simp add: split_def holds_foldr_FOr) blast

lemma bounds_step:
  assumes D: "set_n_dim D = n" and U: "pa_n_in U = n" and i: "i < n"
  shows "\<exists>D'. isl_set_intersect
            (isl_set_intersect (Some D)
               (isl_pw_aff_nonneg_set (Some (pw_aff_on_universe ps n (lin_dim i)))))
            (isl_pw_aff_le_set (Some (pw_aff_on_universe ps n (lin_dim i))) (Some U)) = Some D'
        \<and> set_n_dim D' = n \<and> set_tuple D' = set_tuple D
        \<and> (\<forall>nu x. in_set D' nu x \<longleftrightarrow> in_set D nu x \<and> 0 \<le> x ! i
                 \<and> (\<exists>b. pw_val U nu x b \<and> of_int (x ! i) \<le> b))"
proof -
  let ?IV = "pw_aff_on_universe ps n (lin_dim i)"
  obtain N where N: "isl_pw_aff_nonneg_set (Some ?IV) = Some N" "set_n_dim N = n"
    "\<forall>nu x. in_set N nu x \<longleftrightarrow> length x = n \<and> (\<exists>v. pw_val ?IV nu x v \<and> 0 \<le> v)"
    using in_nonneg_set [of "pa_params ?IV" n ?IV]
    by (simp add: isl_pw_aff_nonneg_set_def pw_aff_on_universe_def)
  from in_set_intersect [of N D] N(2) D obtain D1 where
    D1: "isl_set_intersect (Some D) (Some N) = Some D1" "set_n_dim D1 = n"
      "set_tuple D1 = set_tuple D"
      "\<forall>nu x. in_set D1 nu x \<longleftrightarrow> in_set D nu x \<and> in_set N nu x"
    by auto
  obtain L where L0: "cmp_set ge_fml (Some U) (Some ?IV) = Some L"
    by (simp add: cmp_set_def)
  from in_cmp_set [OF L0] U have L: "set_n_dim L = n"
    "\<And>nu x. in_set L nu x \<longleftrightarrow> length x = n \<and> holds (ge_fml U ?IV) nu x"
    by auto
  have L1: "isl_pw_aff_le_set (Some ?IV) (Some U) = Some L"
    using L0 by (simp add: isl_pw_aff_le_set_def isl_pw_aff_ge_set_def)
  from in_set_intersect [of L D1] L(1) D1(2) obtain D2 where
    D2: "isl_set_intersect (Some D1) (Some L) = Some D2" "set_n_dim D2 = n"
      "set_tuple D2 = set_tuple D1"
      "\<forall>nu x. in_set D2 nu x \<longleftrightarrow> in_set D1 nu x \<and> in_set L nu x"
    by auto
  have sem: "in_set D2 nu x \<longleftrightarrow> in_set D nu x \<and> 0 \<le> x ! i
                 \<and> (\<exists>b. pw_val U nu x b \<and> of_int (x ! i) \<le> b)" for nu x
  proof (cases "length x = n")
    case True
    then have dv: "dim_val x i = x ! i" using i by (simp add: dim_val_def)
    have a: "(\<exists>v. pw_val ?IV nu x v \<and> 0 \<le> v) \<longleftrightarrow> 0 \<le> x ! i"
      unfolding pw_val_on_universe lin_eval_dim dv by auto
    have b: "holds (ge_fml U ?IV) nu x \<longleftrightarrow> (\<exists>b. pw_val U nu x b \<and> of_int (x ! i) \<le> b)"
      unfolding holds_ge_fml pw_val_on_universe lin_eval_dim dv by auto
    show ?thesis
      unfolding D2(4) [rule_format] D1(4) [rule_format] N(3) [rule_format] L(2) a b
      using True by blast
  next
    case False
    then show ?thesis
      unfolding D2(4) [rule_format] D1(4) [rule_format] using D by (simp add: in_set_def)
  qed
  show ?thesis
    using N(1) D1(1) L1 D2(1,2,3) D1(3) sem by (intro exI [of _ D2]) simp
qed

lemma boundsLoop_sem:
  assumes bnd: "map (\<lambda>i. LoopBounds T (snd (ivs ! i))) js = map Some Bexprs"
    and tr: "getPwAffs E (length ivs) S Bexprs = Inr (map Some pas, S')"
    and D: "set_n_dim D = length ivs"
    and js: "\<forall>i \<in> set js. i < length ivs"
  shows "\<exists>D'. boundsLoop E T ivs (Some ps) js (Some D) S = Inr (Some D', S')
      \<and> set_n_dim D' = length ivs \<and> set_tuple D' = set_tuple D
      \<and> (\<forall>nu x. in_set D' nu x \<longleftrightarrow> in_set D nu x \<and>
            (\<forall>k < length js. 0 \<le> x ! (js ! k)
                \<and> (\<exists>b. pw_val (pas ! k) nu x b \<and> of_int (x ! (js ! k)) \<le> b)))"
  using assms
proof (induction js arbitrary: D S pas Bexprs)
  case Nil
  then show ?case by simp
next
  case (Cons i js)
  from Cons.prems(1) obtain Bx Bexprs' where bx: "Bexprs = Bx # Bexprs'"
      "LoopBounds T (snd (ivs ! i)) = Some Bx"
      "map (\<lambda>i. LoopBounds T (snd (ivs ! i))) js = map Some Bexprs'"
    by (cases Bexprs) auto
  from getPwAffs_Cons [OF Cons.prems(2) [unfolded bx(1)]] obtain A S1 As1 where
    u: "getPwAff E (length ivs) S Bx = Inr (A, S1)"
    and tr1: "getPwAffs E (length ivs) S1 Bexprs' = Inr (As1, S')"
    and p1: "map Some pas = A # As1" by auto
  from p1 obtain U pas' where pas: "pas = U # pas'" "A = Some U" "As1 = map Some pas'"
    by (auto simp: map_eq_Cons_conv)
  have Un: "pa_n_in U = length ivs"
    using getPwAff_n_in u pas(2) by blast
  have i: "i < length ivs" using Cons.prems(4) by simp
  from bounds_step [OF Cons.prems(3) Un i, of ps] obtain D1 where
    D1: "isl_set_intersect
            (isl_set_intersect (Some D)
               (isl_pw_aff_nonneg_set (Some (pw_aff_on_universe ps (length ivs) (lin_dim i)))))
            (isl_pw_aff_le_set (Some (pw_aff_on_universe ps (length ivs) (lin_dim i))) (Some U))
          = Some D1"
      "set_n_dim D1 = length ivs" "set_tuple D1 = set_tuple D"
      "\<forall>nu x. in_set D1 nu x \<longleftrightarrow> in_set D nu x \<and> 0 \<le> x ! i
                 \<and> (\<exists>b. pw_val U nu x b \<and> of_int (x ! i) \<le> b)"
    by blast
  have js': "\<forall>i \<in> set js. i < length ivs" using Cons.prems(4) by simp
  from Cons.IH [OF bx(3) tr1 [unfolded pas(3)] D1(2) js'] obtain D' where
    D': "boundsLoop E T ivs (Some ps) js (Some D1) S1 = Inr (Some D', S')"
      "set_n_dim D' = length ivs" "set_tuple D' = set_tuple D1"
      "\<forall>nu x. in_set D' nu x \<longleftrightarrow> in_set D1 nu x \<and>
            (\<forall>k < length js. 0 \<le> x ! (js ! k)
                \<and> (\<exists>b. pw_val (pas' ! k) nu x b \<and> of_int (x ! (js ! k)) \<le> b))"
    by blast
  have run: "boundsLoop E T ivs (Some ps) (i # js) (Some D) S = Inr (Some D', S')"
    using bx(2) u pas(2) D1(1) D'(1) by (simp add: Let_def)
  have sem: "in_set D' nu x \<longleftrightarrow> in_set D nu x \<and>
            (\<forall>k < length (i # js). 0 \<le> x ! ((i # js) ! k)
                \<and> (\<exists>b. pw_val (pas ! k) nu x b \<and> of_int (x ! ((i # js) ! k)) \<le> b))"
    for nu x
  proof -
    let ?Q = "\<lambda>k. 0 \<le> x ! ((i # js) ! k)
                \<and> (\<exists>b. pw_val (pas ! k) nu x b \<and> of_int (x ! ((i # js) ! k)) \<le> b)"
    have q0: "?Q 0 \<longleftrightarrow> 0 \<le> x ! i \<and> (\<exists>b. pw_val U nu x b \<and> of_int (x ! i) \<le> b)"
      using pas(1) by simp
    have qs: "?Q (Suc k) \<longleftrightarrow> 0 \<le> x ! (js ! k)
                \<and> (\<exists>b. pw_val (pas' ! k) nu x b \<and> of_int (x ! (js ! k)) \<le> b)"
      for k using pas(1) by simp
    have "(\<forall>k < length (i # js). ?Q k) \<longleftrightarrow> ?Q 0 \<and> (\<forall>k < length js. ?Q (Suc k))"
      using all_less_Suc_shift [of "length js" ?Q] by simp
    then show ?thesis
      unfolding D'(4) [rule_format] D1(4) [rule_format] q0 qs by blast
  qed
  show ?case
    using run D'(2,3) D1(3) sem by (intro exI [of _ D']) simp
qed


subsection \<open>Iteration domains\<close>

text \<open>
  Claim C5. For a statement with \<open>d\<close> enclosing loops whose bounds are on record, whose
  bounds and reaching conditions are translated to non-\<open>NULL\<close> expressions and whose
  conditions carry signed or equality predicates, \<open>buildDomain\<close> returns the set named
  after the statement whose points are the integer vectors \<open>x\<close> of length \<open>d\<close> with
  \<open>0 \<le> x\<^sub>i\<close> and \<open>x\<^sub>i \<le> B\<^sub>i\<close> for every loop level \<open>i\<close>, \<open>B\<^sub>i\<close> being the translation (with
  \<open>d\<close> iterators) of the bound of loop \<open>i\<close>, and which satisfy every comparison of the
  conditions reaching the block. With no enclosing loop the vector is empty and only the
  conditions remain.
\<close>

theorem buildDomain_bounds_and_conditions:
  fixes ivs :: "(llvm_value \<times> loop) list"
  assumes bnd: "map (\<lambda>iv. LoopBounds T (snd iv)) ivs = map Some Bexprs"
    and tb: "getPwAffs E (length ivs) S Bexprs = Inr (map Some Bs, S1)"
    and sup: "\<forall>c \<in> set (reachingConds T bb (CurRegionEntry # parents)).
                predicate_rel (getPred c) \<noteq> None"
    and tc: "getPwAffs E (length ivs) S1
               (concat (map (\<lambda>c. [getLHS c, getRHS c])
                  (reachingConds T bb (CurRegionEntry # parents)))) = Inr (map Some Cs, S')"
  shows "\<exists>D. buildDomain E T bb ivs name CurRegionEntry parents S = Inr (Some D, S')
      \<and> set_n_dim D = length ivs \<and> set_tuple D = name
      \<and> (\<forall>nu x. in_set D nu x \<longleftrightarrow>
            length x = length ivs
            \<and> (\<forall>i < length ivs. 0 \<le> x ! i
                  \<and> (\<exists>b. pw_val (Bs ! i) nu x b \<and> of_int (x ! i) \<le> b))
            \<and> (\<forall>j < length (reachingConds T bb (CurRegionEntry # parents)).
                  \<exists>l r rel.
                    predicate_rel
                      (getPred (reachingConds T bb (CurRegionEntry # parents) ! j)) = Some rel
                    \<and> pw_val (Cs ! (2 * j)) nu x l \<and> pw_val (Cs ! (2 * j + 1)) nu x r
                    \<and> rel l r))"
proof -
  let ?d = "length ivs"
  let ?cs = "reachingConds T bb (CurRegionEntry # parents)"
  let ?U = "isl_set_universe [] ?d"
  have bnd': "map (\<lambda>i. LoopBounds T (snd (ivs ! i))) [0..<?d] = map Some Bexprs"
  proof -
    have "map (\<lambda>i. LoopBounds T (snd (ivs ! i))) [0..<?d]
            = map (\<lambda>iv. LoopBounds T (snd iv)) (map (\<lambda>i. ivs ! i) [0..<?d])"
      by simp
    then show ?thesis using bnd by (simp only: map_nth)
  qed
  have U: "set_n_dim ?U = ?d" "set_tuple ?U = []" "set_params ?U = []"
    "\<And>nu x. in_set ?U nu x \<longleftrightarrow> length x = ?d"
    by (simp_all add: isl_set_universe_def in_set_def)
  have js: "\<forall>i \<in> set [0..<?d]. i < ?d" by simp
  from boundsLoop_sem [OF bnd' tb U(1) js, of "[]"] obtain D1 where
    D1: "boundsLoop E T ivs (Some []) [0..<?d] (Some ?U) S = Inr (Some D1, S1)"
      "set_n_dim D1 = ?d"
      "\<forall>nu x. in_set D1 nu x \<longleftrightarrow> in_set ?U nu x \<and>
            (\<forall>k < length [0..<?d]. 0 \<le> x ! ([0..<?d] ! k)
                \<and> (\<exists>b. pw_val (Bs ! k) nu x b \<and> of_int (x ! ([0..<?d] ! k)) \<le> b))"
    by blast
  have D1sem: "in_set D1 nu x \<longleftrightarrow> length x = ?d \<and>
            (\<forall>i < ?d. 0 \<le> x ! i \<and> (\<exists>b. pw_val (Bs ! i) nu x b \<and> of_int (x ! i) \<le> b))"
    for nu x
    unfolding D1(3) [rule_format] U(4) by simp
  from condLoop_sem [OF sup tc D1(2)] obtain D2 where
    D2: "condLoop E ?d ?cs (Some D1) S1 = Inr (Some D2, S')" "set_n_dim D2 = ?d"
      "\<forall>nu x. in_set D2 nu x \<longleftrightarrow> in_set D1 nu x \<and>
            (\<forall>j < length ?cs. \<exists>l r rel. predicate_rel (getPred (?cs ! j)) = Some rel
                \<and> pw_val (Cs ! (2 * j)) nu x l \<and> pw_val (Cs ! (2 * j + 1)) nu x r \<and> rel l r)"
    by blast
  let ?D = "D2\<lparr> set_tuple := name \<rparr>"
  have run: "buildDomain E T bb ivs name CurRegionEntry parents S = Inr (Some ?D, S')"
    using D1(1) D2(1) U(3)
    by (simp add: buildDomain_def addLoopBoundsToDomain_def addConditionsToDomain_def
        regionLoop_condLoop isl_set_set_tuple_name_def)
  have same: "in_set ?D nu x \<longleftrightarrow> in_set D2 nu x" for nu x
    by (simp add: in_set_def)
  show ?thesis
    using run D2(2)
    by (intro exI [of _ ?D]) (simp add: same D2(3) D1sem conj_assoc)
qed


theorem buildDomain_bounds_and_conditions_witness:
  "\<exists>D. buildDomain
          \<lparr> getParamsInAffineExpr = (\<lambda>e. []), outermostLoopInRegion = (\<lambda>l. None),
            regionContains = (\<lambda>l. False) \<rparr>
          \<lparr> LoopBounds = [Loop ''for.cond'' 1 None \<mapsto> SCEVConstant 32 10],
            BBConds = [''for.body'' \<mapsto>
               [\<lparr> getLHS = SCEVConstant 32 3, getRHS = SCEVConstant 32 5,
                  getPred = ICMP_SLT \<rparr>]],
            AccFuncMap = Map.empty, getMaxLoopDepth = 1 \<rparr>
          ''for.body'' [(Value ''%i'' ''i'', Loop ''for.cond'' 1 None)] ''Stmt_for_body''
          ''entry'' []
          \<lparr> MaxLoopDepth = 1, Parameters = [], ParameterIds = [],
            Context = Some (isl_set_universe [] 0), Stmts = [] \<rparr>
        = Inr (Some D, \<lparr> MaxLoopDepth = 1, Parameters = [], ParameterIds = [],
            Context = Some (isl_set_universe [] 0), Stmts = [] \<rparr>)
      \<and> set_n_dim D = 1 \<and> set_tuple D = ''Stmt_for_body''
      \<and> in_set D (\<lambda>p. 0) [4] \<and> \<not> in_set D (\<lambda>p. 0) [11]"
proof -
  let ?E = "\<lparr> getParamsInAffineExpr = (\<lambda>e. []), outermostLoopInRegion = (\<lambda>l. None),
            regionContains = (\<lambda>l. False) \<rparr>"
  let ?C = "\<lparr> getLHS = SCEVConstant 32 3, getRHS = SCEVConstant 32 5, getPred = ICMP_SLT \<rparr>"
  let ?T = "\<lparr> LoopBounds = [Loop ''for.cond'' 1 None \<mapsto> SCEVConstant 32 10],
            BBConds = [''for.body'' \<mapsto> [?C]],
            AccFuncMap = Map.empty, getMaxLoopDepth = 1 \<rparr>"
  let ?S = "\<lparr> MaxLoopDepth = 1, Parameters = [], ParameterIds = [],
            Context = Some (isl_set_universe [] 0), Stmts = [] \<rparr>"
  let ?ivs = "[(Value ''%i'' ''i'', Loop ''for.cond'' 1 None)]"
  let ?B = "pw_aff_on_universe [] 1 (lin_const 10)"
  let ?L = "pw_aff_on_universe [] 1 (lin_const 3)"
  let ?R = "pw_aff_on_universe [] 1 (lin_const 5)"
  have c: "getPwAff ?E 1 ?S (SCEVConstant 32 v) =
      Inr (Some (pw_aff_on_universe [] 1 (lin_const (of_int (MPZ_from_APInt_signed 32 v)))), ?S)"
    for v
    by (rule getPwAff_constant) simp_all
  have m: "MPZ_from_APInt_signed 32 10 = 10" "MPZ_from_APInt_signed 32 3 = 3"
    "MPZ_from_APInt_signed 32 5 = 5"
    by (simp_all add: MPZ_from_APInt_signed_def)
  have rc: "reachingConds ?T ''for.body'' [''entry''] = [?C]"
    by simp
  have bnd: "map (\<lambda>iv. LoopBounds ?T (snd iv)) ?ivs = map Some [SCEVConstant 32 10]"
    by simp
  have tb: "getPwAffs ?E (length ?ivs) ?S [SCEVConstant 32 10] = Inr (map Some [?B], ?S)"
    using c [of 10] m by simp
  have sup: "\<forall>c \<in> set (reachingConds ?T ''for.body'' (''entry'' # [])).
                predicate_rel (getPred c) \<noteq> None"
    unfolding rc by simp
  have tc: "getPwAffs ?E (length ?ivs) ?S
               (concat (map (\<lambda>c. [getLHS c, getRHS c])
                  (reachingConds ?T ''for.body'' (''entry'' # [])))) = Inr (map Some [?L, ?R], ?S)"
    unfolding rc using c [of 3] c [of 5] m by simp
  from buildDomain_bounds_and_conditions [OF bnd tb sup tc, of "''Stmt_for_body''"]
  obtain D where D: "buildDomain ?E ?T ''for.body'' ?ivs ''Stmt_for_body'' ''entry'' [] ?S
        = Inr (Some D, ?S)" "set_n_dim D = 1" "set_tuple D = ''Stmt_for_body''"
    and sem: "\<And>nu x. in_set D nu x \<longleftrightarrow>
            length x = length ?ivs
            \<and> (\<forall>i < length ?ivs. 0 \<le> x ! i
                  \<and> (\<exists>b. pw_val ([?B] ! i) nu x b \<and> of_int (x ! i) \<le> b))
            \<and> (\<forall>j < length (reachingConds ?T ''for.body'' (''entry'' # [])).
                  \<exists>l r rel.
                    predicate_rel
                      (getPred (reachingConds ?T ''for.body'' (''entry'' # []) ! j)) = Some rel
                    \<and> pw_val ([?L, ?R] ! (2 * j)) nu x l \<and> pw_val ([?L, ?R] ! (2 * j + 1)) nu x r
                    \<and> rel l r)"
    by auto
  have sem': "in_set D nu [v] \<longleftrightarrow> 0 \<le> v \<and> v \<le> 10" for nu v
    unfolding sem rc
    by (simp add: pw_val_on_universe)
  show ?thesis
    using D sem' by (intro exI [of _ D]) simp
qed

subsection \<open>The walk up the dominator tree\<close>

lemma domWalk_self: "domWalk N N = Some []"
  by (cases N) simp

lemma walkUp_self: "walkUp A bb N N Cond = Inr Cond"
  by (cases N) simp

lemma buildAffineCondition_total:
  "c \<noteq> OtherValue \<Longrightarrow> \<exists>cmp. buildAffineCondition A c inverted = Inr cmp"
  by (cases c) (simp_all add: buildAffineCondition_def Let_def)

lemma buildAffineCondition_ConstantInt:
  "buildAffineCondition A (ConstantInt w v) inverted =
     Inr \<lparr> getLHS = SCEVConstant w 0, getRHS = SCEVConstant w (1 mod 2 ^ w),
           getPred = (if inverted then (if isOne w v then ICMP_SLE else ICMP_SGE)
                      else (if isOne w v then ICMP_SGE else ICMP_SLE)) \<rparr>"
  unfolding buildAffineCondition_def Let_def
  by (cases inverted; cases "isOne w v") simp_all

lemma buildAffineCondition_ICmpInst:
  "buildAffineCondition A (ICmpInst p op0 op1 parent) inverted =
     Inr \<lparr> getLHS = getSCEVAtScope A op0 (getLoopFor A parent),
           getRHS = getSCEVAtScope A op1 (getLoopFor A parent),
           getPred = (if inverted then getInversePredicate p else p) \<rparr>"
  by (simp add: buildAffineCondition_def Let_def)

lemma walkUp_sem:
  assumes "domWalk EntryNode N = Some steps"
    and "\<forall>s \<in> set steps. \<not> PDT_dominates A (fst s) (snd s) \<longrightarrow>
            getTerminator A (snd s) \<noteq> OtherTerminator"
    and "\<forall>b \<in> set (conditionalBranches A steps). fst b \<noteq> OtherValue"
  shows "\<exists>cs. walkUp A bb EntryNode N Cond = Inr (Cond @ cs)
      \<and> list_all2 (\<lambda>br cmp. buildAffineCondition A (fst br) (DT_dominates A (snd (snd br)) bb)
                        = Inr cmp) (conditionalBranches A steps) cs"
  using assms
proof (induction EntryNode N arbitrary: steps Cond rule: domWalk.induct)
  case (1 EntryNode CurBB idom)
  show ?case
  proof (cases "DomTreeNode CurBB idom = EntryNode")
    case True
    then have "steps = []" using "1.prems"(1) domWalk_self [of EntryNode] by simp
    then show ?thesis using True walkUp_self [of A bb EntryNode Cond]
      by (simp add: conditionalBranches_def)
  next
    case False
    with "1.prems"(1) obtain BBNode steps' where
      id: "idom = Some BBNode" and w: "domWalk EntryNode BBNode = Some steps'"
      and st: "steps = (CurBB, getBlock BBNode) # steps'"
      by (auto split: option.splits)
    let ?here = "if PDT_dominates A CurBB (getBlock BBNode) then []
        else (case getTerminator A (getBlock BBNode) of
                BrConditional c s0 s1 \<Rightarrow> [(c, s0, s1)]
              | _ \<Rightarrow> [])"
    have cb: "conditionalBranches A steps = ?here @ conditionalBranches A steps'"
      unfolding st by (simp add: conditionalBranches_def)
    have p2: "\<forall>s \<in> set steps'. \<not> PDT_dominates A (fst s) (snd s) \<longrightarrow>
            getTerminator A (snd s) \<noteq> OtherTerminator"
      using "1.prems"(2) st by simp
    have p3: "\<forall>b \<in> set (conditionalBranches A steps'). fst b \<noteq> OtherValue"
      using "1.prems"(3) cb by simp
    note IH = "1.IH" [OF False id w p2 p3]
    show ?thesis
    proof (cases "PDT_dominates A CurBB (getBlock BBNode)")
      case True
      from IH [of Cond] obtain cs where
        cs: "walkUp A bb EntryNode BBNode Cond = Inr (Cond @ cs)"
          "list_all2 (\<lambda>br cmp. buildAffineCondition A (fst br) (DT_dominates A (snd (snd br)) bb)
                        = Inr cmp) (conditionalBranches A steps') cs"
        by blast
      show ?thesis
        using False id True cs cb by (intro exI [of _ cs]) simp
    next
      case nopd: False
      show ?thesis
      proof (cases "getTerminator A (getBlock BBNode)")
        case (BrUnconditional s)
        from IH [of Cond] obtain cs where
          cs: "walkUp A bb EntryNode BBNode Cond = Inr (Cond @ cs)"
            "list_all2 (\<lambda>br cmp. buildAffineCondition A (fst br) (DT_dominates A (snd (snd br)) bb)
                        = Inr cmp) (conditionalBranches A steps') cs"
          by blast
        show ?thesis
          using False id nopd BrUnconditional cs cb by (intro exI [of _ cs]) simp
      next
        case (BrConditional c s0 s1)
        have here: "?here = [(c, s0, s1)]" using nopd BrConditional by simp
        have "c \<noteq> OtherValue" using "1.prems"(3) cb here by simp
        then obtain cmp where cmp: "buildAffineCondition A c (DT_dominates A s1 bb) = Inr cmp"
          using buildAffineCondition_total by blast
        from IH [of "Cond @ [cmp]"] obtain cs where
          cs: "walkUp A bb EntryNode BBNode (Cond @ [cmp]) = Inr ((Cond @ [cmp]) @ cs)"
            "list_all2 (\<lambda>br cmp. buildAffineCondition A (fst br) (DT_dominates A (snd (snd br)) bb)
                        = Inr cmp) (conditionalBranches A steps') cs"
          by blast
        have run: "walkUp A bb EntryNode (DomTreeNode CurBB idom) Cond = Inr (Cond @ cmp # cs)"
          using False id nopd BrConditional cmp cs(1) by simp
        show ?thesis
          using run cs(2) cmp unfolding cb here by (intro exI [of _ "cmp # cs"]) simp
      next
        case OtherTerminator
        then have False using "1.prems"(2) st nopd by simp
        then show ?thesis ..
      qed
    qed
  qed
qed


subsection \<open>Branch conditions of a block\<close>

text \<open>
  Claim C8. When the walk up the dominator tree from the block \<open>B\<close> reaches the region's
  entry, every immediate dominator that is consulted ends in a branch and every
  condition is a constant or an integer comparison, \<open>buildCondition\<close> records for \<open>B\<close>
  exactly one comparison for each conditional branch found on the walk, in the order of
  the walk, a branch being left out when the current node post-dominates the immediate
  dominator that carries it; nothing is recorded when there is none. The comparison of
  an integer comparison has its operands at the scope of its block and its predicate,
  inverted exactly when the else-successor of the branch dominates \<open>B\<close>; the comparison
  of a constant is \<open>0 sge 1\<close> or \<open>0 sle 1\<close>, exchanged exactly when the else-successor
  dominates \<open>B\<close>.
\<close>

theorem buildCondition_dominator_walk:
  assumes bn: "getNode A bb = Some BBNode" and en: "getNode A RegionEntry = Some EntryNode"
    and walk: "domWalk EntryNode BBNode = Some steps"
    and br: "\<forall>s \<in> set steps. \<not> PDT_dominates A (fst s) (snd s) \<longrightarrow>
               getTerminator A (snd s) \<noteq> OtherTerminator"
    and cv: "\<forall>b \<in> set (conditionalBranches A steps). fst b \<noteq> OtherValue"
  shows "\<exists>cs. buildCondition A bb RegionEntry conds
                = Inr (if cs \<noteq> [] then conds(bb \<mapsto> cs) else conds)
      \<and> length cs = length (conditionalBranches A steps)
      \<and> (\<forall>k < length cs.
            case conditionalBranches A steps ! k of (c, s0, s1) \<Rightarrow>
              (case c of
                 ICmpInst p op0 op1 parent \<Rightarrow>
                   cs ! k = \<lparr> getLHS = getSCEVAtScope A op0 (getLoopFor A parent),
                              getRHS = getSCEVAtScope A op1 (getLoopFor A parent),
                              getPred = (if DT_dominates A s1 bb then getInversePredicate p
                                         else p) \<rparr>
               | ConstantInt w v \<Rightarrow>
                   cs ! k = \<lparr> getLHS = SCEVConstant w 0, getRHS = SCEVConstant w (1 mod 2 ^ w),
                              getPred = (if DT_dominates A s1 bb
                                         then (if isOne w v then ICMP_SLE else ICMP_SGE)
                                         else (if isOne w v then ICMP_SGE else ICMP_SLE)) \<rparr>
               | OtherValue \<Rightarrow> False))"
proof -
  from walkUp_sem [OF walk br cv, of bb "[]"] obtain cs where
    cs: "walkUp A bb EntryNode BBNode [] = Inr cs"
      "list_all2 (\<lambda>br cmp. buildAffineCondition A (fst br) (DT_dominates A (snd (snd br)) bb)
                        = Inr cmp) (conditionalBranches A steps) cs"
    by auto
  have run: "buildCondition A bb RegionEntry conds
                = Inr (if cs \<noteq> [] then conds(bb \<mapsto> cs) else conds)"
    using bn en cs(1) by (simp add: buildCondition_def)
  have len: "length cs = length (conditionalBranches A steps)"
    using cs(2) by (simp add: list_all2_lengthD)
  have each: "case conditionalBranches A steps ! k of (c, s0, s1) \<Rightarrow>
              (case c of
                 ICmpInst p op0 op1 parent \<Rightarrow>
                   cs ! k = \<lparr> getLHS = getSCEVAtScope A op0 (getLoopFor A parent),
                              getRHS = getSCEVAtScope A op1 (getLoopFor A parent),
                              getPred = (if DT_dominates A s1 bb then getInversePredicate p
                                         else p) \<rparr>
               | ConstantInt w v \<Rightarrow>
                   cs ! k = \<lparr> getLHS = SCEVConstant w 0, getRHS = SCEVConstant w (1 mod 2 ^ w),
                              getPred = (if DT_dominates A s1 bb
                                         then (if isOne w v then ICMP_SLE else ICMP_SGE)
                                         else (if isOne w v then ICMP_SGE else ICMP_SLE)) \<rparr>
               | OtherValue \<Rightarrow> False)"
    if k: "k < length cs" for k
  proof -
    obtain c s0 s1 where b: "conditionalBranches A steps ! k = (c, s0, s1)"
      by (cases "conditionalBranches A steps ! k") auto
    have mem: "(c, s0, s1) \<in> set (conditionalBranches A steps)"
      using k len b nth_mem [of k "conditionalBranches A steps"] by simp
    have ne: "c \<noteq> OtherValue" using cv mem by auto
    have ev: "buildAffineCondition A c (DT_dominates A s1 bb) = Inr (cs ! k)"
      using list_all2_nthD2 [OF cs(2) k] b by simp
    show ?thesis
    proof (cases c)
      case (ConstantInt w v)
      from ev [unfolded ConstantInt buildAffineCondition_ConstantInt, symmetric]
      show ?thesis unfolding b ConstantInt
        by (simp only: prod.case cond_value.case sum.inject)
    next
      case (ICmpInst p op0 op1 parent)
      from ev [unfolded ICmpInst buildAffineCondition_ICmpInst, symmetric]
      show ?thesis unfolding b ICmpInst
        by (simp only: prod.case cond_value.case sum.inject)
    next
      case OtherValue
      then show ?thesis using ne by simp
    qed
  qed
  show ?thesis
    using run len each by (intro exI [of _ cs]) simp
qed

theorem buildCondition_dominator_walk_witness:
  "buildCondition
     \<lparr> getSCEVAtScope = (\<lambda>v l. SCEVUnknown v), getLoopFor = (\<lambda>b. None),
       getNode = (\<lambda>b. if b = ''entry'' then Some (DomTreeNode ''entry'' None)
                       else if b = ''if.else''
                       then Some (DomTreeNode ''if.else'' (Some (DomTreeNode ''entry'' None)))
                       else None),
       DT_dominates = (\<lambda>a b. a = b \<or> a = ''entry''),
       PDT_dominates = (\<lambda>a b. a = b),
       getTerminator = (\<lambda>b. if b = ''entry''
                             then BrConditional
                                    (ICmpInst ICMP_SLT (Value ''%a'' ''a'') (Value ''%b'' ''b'')
                                       ''entry'') ''if.then'' ''if.else''
                             else OtherTerminator),
       getPointerBase = (\<lambda>e. e), getMinusSCEV = (\<lambda>a b. a), isAffineExpr = (\<lambda>e v. True) \<rparr>
     ''if.else'' ''entry'' Map.empty
   = Inr [''if.else'' \<mapsto> [\<lparr> getLHS = SCEVUnknown (Value ''%a'' ''a''),
                               getRHS = SCEVUnknown (Value ''%b'' ''b''),
                               getPred = ICMP_SGE \<rparr>]]"
proof -
  let ?A = "\<lparr> getSCEVAtScope = (\<lambda>v l. SCEVUnknown v), getLoopFor = (\<lambda>b. None),
       getNode = (\<lambda>b. if b = ''entry'' then Some (DomTreeNode ''entry'' None)
                       else if b = ''if.else''
                       then Some (DomTreeNode ''if.else'' (Some (DomTreeNode ''entry'' None)))
                       else None),
       DT_dominates = (\<lambda>a b. a = b \<or> a = ''entry''),
       PDT_dominates = (\<lambda>a b. a = b),
       getTerminator = (\<lambda>b. if b = ''entry''
                             then BrConditional
                                    (ICmpInst ICMP_SLT (Value ''%a'' ''a'') (Value ''%b'' ''b'')
                                       ''entry'') ''if.then'' ''if.else''
                             else OtherTerminator),
       getPointerBase = (\<lambda>e. e), getMinusSCEV = (\<lambda>a b. a), isAffineExpr = (\<lambda>e v. True) \<rparr>"
  let ?B = "DomTreeNode ''if.else'' (Some (DomTreeNode ''entry'' None))"
  let ?N = "DomTreeNode ''entry'' None"
  let ?steps = "[(''if.else'', ''entry'')]"
  let ?c = "ICmpInst ICMP_SLT (Value ''%a'' ''a'') (Value ''%b'' ''b'') ''entry''"
  have bn: "getNode ?A ''if.else'' = Some ?B" by simp
  have en: "getNode ?A ''entry'' = Some ?N" by simp
  have walk: "domWalk ?N ?B = Some ?steps" by simp
  have cb: "conditionalBranches ?A ?steps = [(?c, ''if.then'', ''if.else'')]"
    by (simp add: conditionalBranches_def)
  have br: "\<forall>s \<in> set ?steps. \<not> PDT_dominates ?A (fst s) (snd s) \<longrightarrow>
               getTerminator ?A (snd s) \<noteq> OtherTerminator"
    by simp
  have cv: "\<forall>b \<in> set (conditionalBranches ?A ?steps). fst b \<noteq> OtherValue"
    unfolding cb by simp
  from buildCondition_dominator_walk [OF bn en walk br cv, of Map.empty]
  obtain cs where run: "buildCondition ?A ''if.else'' ''entry'' Map.empty
                = Inr (if cs \<noteq> [] then [''if.else'' \<mapsto> cs] else Map.empty)"
    and len: "length cs = length (conditionalBranches ?A ?steps)"
    and each: "\<forall>k < length cs.
            case conditionalBranches ?A ?steps ! k of (c, s0, s1) \<Rightarrow>
              (case c of
                 ICmpInst p op0 op1 parent \<Rightarrow>
                   cs ! k = \<lparr> getLHS = getSCEVAtScope ?A op0 (getLoopFor ?A parent),
                              getRHS = getSCEVAtScope ?A op1 (getLoopFor ?A parent),
                              getPred = (if DT_dominates ?A s1 ''if.else''
                                         then getInversePredicate p else p) \<rparr>
               | ConstantInt w v \<Rightarrow>
                   cs ! k = \<lparr> getLHS = SCEVConstant w 0, getRHS = SCEVConstant w (1 mod 2 ^ w),
                              getPred = (if DT_dominates ?A s1 ''if.else''
                                         then (if isOne w v then ICMP_SLE else ICMP_SGE)
                                         else (if isOne w v then ICMP_SGE else ICMP_SLE)) \<rparr>
               | OtherValue \<Rightarrow> False)"
    by blast
  have l1: "length cs = 1" using len unfolding cb by simp
  then obtain c0 where c0: "cs = [c0]"
    by (cases cs) auto
  have "c0 = \<lparr> getLHS = SCEVUnknown (Value ''%a'' ''a''),
                getRHS = SCEVUnknown (Value ''%b'' ''b''), getPred = ICMP_SGE \<rparr>"
    using each [rule_format, of 0] unfolding cb c0 by simp
  then show ?thesis using run c0 by simp
qed

subsection \<open>Parameters of the objects of a Scop\<close>

lemma set_align_ids: "set (align_ids model own) = set model \<union> set own"
  by (auto simp: align_ids_def)

lemma align_ids_subset: "set own \<subseteq> set model \<Longrightarrow> align_ids model own = model"
  by (auto simp: align_ids_def filter_empty_conv)

lemma in_set_map_filter:
  "y \<in> set (List.map_filter f xs) \<longleftrightarrow> (\<exists>x \<in> set xs. f x = Some y)"
  by (induction xs) (auto simp: map_filter_simps split: option.splits)

lemma globalParams_iff:
  assumes "wfParams S"
  shows "ID \<in> set (globalParams S) \<longleftrightarrow> (\<exists>p. getIdForParam S p = Some ID)"
proof
  assume "ID \<in> set (globalParams S)"
  then show "\<exists>p. getIdForParam S p = Some ID"
    by (auto simp: globalParams_def in_set_map_filter)
next
  assume "\<exists>p. getIdForParam S p = Some ID"
  then obtain p where p: "getIdForParam S p = Some ID" by blast
  then have "map_of (ParameterIds S) p \<noteq> None"
    using getIdForParam_Some_iff by blast
  then have "p \<in> set (Parameters S)"
    using wfParams_None [OF assms, of p] by simp
  then show "ID \<in> set (globalParams S)"
    using p by (auto simp: globalParams_def in_set_map_filter)
qed

lemma wfParams_index:
  assumes "wfParams S" "map_of (ParameterIds S) p = Some x"
  shows "\<exists>d. x = int d \<and> d < length (Parameters S) \<and> Parameters S ! d = p"
proof -
  have z: "ParameterIds S = zip (Parameters S) (map int [0..<length (Parameters S)])"
    using assms(1) by (simp add: wfParams_def)
  from assms(2) have "(p, x) \<in> set (ParameterIds S)" by (rule map_of_SomeD)
  then obtain d where "x = int d" "d < length (Parameters S)" "Parameters S ! d = p"
    unfolding z by (auto simp: in_set_zip)
  then show ?thesis by blast
qed

lemma getIdForParam_addParams:
  assumes wf: "wfParams S" and ID: "getIdForParam S p = Some ID"
  shows "getIdForParam (addParams S ps) p = Some ID"
proof -
  from ID obtain x where x: "map_of (ParameterIds S) p = Some x"
    by (auto simp: getIdForParam_def split: option.splits)
  from wfParams_index [OF wf x] obtain d where d: "x = int d" "d < length (Parameters S)"
      "Parameters S ! d = p" by blast
  from addParams_wf [OF wf, of ps] obtain new where
    wf': "wfParams (addParams S ps)" and app: "Parameters (addParams S ps) = Parameters S @ new"
    by blast
  have "d < length (Parameters (addParams S ps)) \<and> Parameters (addParams S ps) ! d = p"
    using d app by (simp add: nth_append)
  then have "map_of (ParameterIds (addParams S ps)) p = Some (int d)"
    using wfParams_lookup [OF wf'] by blast
  then show ?thesis using ID x d(1) by (simp add: getIdForParam_def)
qed

lemma globalParams_addParams:
  assumes "wfParams S"
  shows "set (globalParams S) \<subseteq> set (globalParams (addParams S ps))"
proof
  fix ID assume "ID \<in> set (globalParams S)"
  then obtain p where "getIdForParam S p = Some ID"
    using globalParams_iff [OF assms] by blast
  then have "getIdForParam (addParams S ps) p = Some ID"
    using getIdForParam_addParams [OF assms] by blast
  moreover have "wfParams (addParams S ps)" using addParams_wf [OF assms] by blast
  ultimately show "ID \<in> set (globalParams (addParams S ps))"
    using globalParams_iff by blast
qed


lemma visit_params:
  assumes G: "\<And>p ID. getIdForParam S p = Some ID \<Longrightarrow> ID \<in> G"
    and rec: "\<forall>p \<in> set ps. getIdForParam S p \<noteq> None"
  shows "uncovered ps e = [] \<Longrightarrow> visit E S n e = Inr (Some c) \<Longrightarrow> set (pa_params c) \<subseteq> G"
proof (induction e arbitrary: c)
  case (SCEVConstant w v)
  from SCEVConstant.prems(2) [unfolded visit.simps] show ?case
    by (rule ifParam_cases)
      (auto simp: visitConstant_def paramAff_def pw_aff_on_universe_def intro: G)
next
  case (SCEVTruncateExpr e w)
  from SCEVTruncateExpr.prems(2) [unfolded visit.simps] show ?case
    by (rule ifParam_cases) (auto simp: paramAff_def pw_aff_on_universe_def intro: G)
next
  case (SCEVZeroExtendExpr e w)
  from SCEVZeroExtendExpr.prems(2) [unfolded visit.simps] show ?case
    by (rule ifParam_cases) (auto simp: paramAff_def pw_aff_on_universe_def intro: G)
next
  case (SCEVSignExtendExpr e w)
  from SCEVSignExtendExpr.prems(2) [unfolded visit.simps] show ?case
  proof (rule ifParam_cases)
    fix ID assume "getIdForParam S (SCEVSignExtendExpr e w) = Some ID" "c = paramAff ID n"
    then show ?thesis using G by (auto simp: paramAff_def pw_aff_on_universe_def)
  next
    assume none: "getIdForParam S (SCEVSignExtendExpr e w) = None"
      and v: "visit E S n e = Inr (Some c)"
    have "SCEVSignExtendExpr e w \<notin> set ps" using none rec by auto
    then have "uncovered ps e = []" using SCEVSignExtendExpr.prems(1) by simp
    then show ?thesis using SCEVSignExtendExpr.IH v by simp
  qed
next
  case (SCEVAddExpr ops)
  have ih: "set (pa_params a) \<subseteq> G"
    if "getIdForParam S (SCEVAddExpr ops) = None"
      "r \<in> set (map (visit E S n) ops)" "r = Inr (Some a)" for r a
  proof -
    have nin: "SCEVAddExpr ops \<notin> set ps" using that(1) rec by auto
    from that obtain x where x: "x \<in> set ops" "visit E S n x = Inr (Some a)" by auto
    have "uncovered ps x = []"
      using SCEVAddExpr.prems(1) nin x(1) by simp
    then show ?thesis using SCEVAddExpr.IH [OF x(1) _ x(2)] by blast
  qed
  from SCEVAddExpr.prems(2) [unfolded visit.simps] show ?case
  proof (rule ifParam_cases)
    fix ID assume "getIdForParam S (SCEVAddExpr ops) = Some ID" "c = paramAff ID n"
    then show ?thesis using G by (auto simp: paramAff_def pw_aff_on_universe_def)
  next
    assume none: "getIdForParam S (SCEVAddExpr ops) = None"
      and v: "visitAddExpr (map (visit E S n) ops) = Inr (Some c)"
    then obtain r rs where rs: "map (visit E S n) ops = r # rs"
      by (cases "map (visit E S n) ops") (auto simp: visitAddExpr_def)
    with v obtain A where A: "r = Inr A" "addLoop A rs = Inr (Some c)"
      by (cases r) (auto simp: visitAddExpr_def)
    show ?thesis
    proof (rule addLoop_inv [where P = "\<lambda>a. set (pa_params a) \<subseteq> G", OF _ A(2)])
      fix a assume "A = Some a"
      then show "set (pa_params a) \<subseteq> G" using ih [OF none, of r a] rs A(1) by simp
    next
      fix r' a assume "r' \<in> set rs" "r' = Inr (Some a)"
      then show "set (pa_params a) \<subseteq> G" using ih [OF none, of r' a] rs by simp
    qed (simp add: pw_on_shared_domain_def set_align_ids)
  qed
next
  case (SCEVMulExpr ops)
  have ih: "set (pa_params a) \<subseteq> G"
    if "getIdForParam S (SCEVMulExpr ops) = None"
      "r \<in> set (map (visit E S n) ops)" "r = Inr (Some a)" for r a
  proof -
    have nin: "SCEVMulExpr ops \<notin> set ps" using that(1) rec by auto
    from that obtain x where x: "x \<in> set ops" "visit E S n x = Inr (Some a)" by auto
    have "uncovered ps x = []"
      using SCEVMulExpr.prems(1) nin x(1) by simp
    then show ?thesis using SCEVMulExpr.IH [OF x(1) _ x(2)] by blast
  qed
  from SCEVMulExpr.prems(2) [unfolded visit.simps] show ?case
  proof (rule ifParam_cases)
    fix ID assume "getIdForParam S (SCEVMulExpr ops) = Some ID" "c = paramAff ID n"
    then show ?thesis using G by (auto simp: paramAff_def pw_aff_on_universe_def)
  next
    assume none: "getIdForParam S (SCEVMulExpr ops) = None"
      and v: "visitMulExpr (map (visit E S n) ops) = Inr (Some c)"
    then obtain r rs where rs: "map (visit E S n) ops = r # rs"
      by (cases "map (visit E S n) ops") (auto simp: visitMulExpr_def)
    with v obtain A where A: "r = Inr A" "mulLoop A rs = Inr (Some c)"
      by (cases r) (auto simp: visitMulExpr_def)
    show ?thesis
    proof (rule mulLoop_inv [where P = "\<lambda>a. set (pa_params a) \<subseteq> G", OF _ A(2)])
      fix a assume "A = Some a"
      then show "set (pa_params a) \<subseteq> G" using ih [OF none, of r a] rs A(1) by simp
    next
      fix r' a assume "r' \<in> set rs" "r' = Inr (Some a)"
      then show "set (pa_params a) \<subseteq> G" using ih [OF none, of r' a] rs by simp
    next
      fix a b c
      assume "set (pa_params a) \<subseteq> G" "set (pa_params b) \<subseteq> G"
        "isl_pw_aff_mul (Some a) (Some b) = Inr (Some c)"
      then show "set (pa_params c) \<subseteq> G"
        using isl_pw_aff_mul_pieces(1) [of a b c] by (simp add: set_align_ids)
    qed
  qed
next
  case (SCEVUDivExpr a b)
  from SCEVUDivExpr.prems(2) [unfolded visit.simps] show ?case
    by (rule ifParam_cases) (auto simp: paramAff_def pw_aff_on_universe_def intro: G)
next
  case (SCEVAddRecExpr ops L)
  have ih: "set (pa_params a) \<subseteq> G"
    if "getIdForParam S (SCEVAddRecExpr ops L) = None"
      "r \<in> set (map (visit E S n) ops)" "r = Inr (Some a)" for r a
  proof -
    have nin: "SCEVAddRecExpr ops L \<notin> set ps" using that(1) rec by auto
    from that obtain x where x: "x \<in> set ops" "visit E S n x = Inr (Some a)" by auto
    have "uncovered ps x = []"
      using SCEVAddRecExpr.prems(1) nin x(1) by simp
    then show ?thesis using SCEVAddRecExpr.IH [OF x(1) _ x(2)] by blast
  qed
  from SCEVAddRecExpr.prems(2) [unfolded visit.simps] show ?case
  proof (rule ifParam_cases)
    fix ID assume "getIdForParam S (SCEVAddRecExpr ops L) = Some ID" "c = paramAff ID n"
    then show ?thesis using G by (auto simp: paramAff_def pw_aff_on_universe_def)
  next
    let ?rs = "map (visit E S n) ops"
    assume none: "getIdForParam S (SCEVAddRecExpr ops L) = None"
      and v: "visitAddRecExpr E n L ?rs = Inr (Some c)"
    then have len: "length ?rs = 2"
      by (auto simp: visitAddRecExpr_def split: if_splits)
    from v len obtain Start Step d LP M where
      st: "?rs ! 0 = Inr Start" and sp: "?rs ! 1 = Inr Step"
      and d: "iteratorAff n d = Inr LP"
      and m: "isl_pw_aff_mul Step LP = Inr M"
      and c: "isl_pw_aff_add Start M = Some c"
      by (auto simp: visitAddRecExpr_def bindR_def split: if_splits sum.splits)
    from c obtain s0 m0 where sm: "Start = Some s0" "M = Some m0"
        "c = pw_on_shared_domain lin_add s0 m0"
      by (auto simp: isl_pw_aff_add_def split: option.splits)
    from m sm(2) isl_pw_aff_mul_Some obtain sp0 lp0 where sl: "Step = Some sp0" "LP = Some lp0"
      by blast
    have "set (pa_params s0) \<subseteq> G"
      using ih [OF none, of "?rs ! 0" s0] st sm(1) len by (metis nth_mem zero_less_numeral)
    moreover have "set (pa_params sp0) \<subseteq> G" using ih [OF none, of "?rs ! 1" sp0] sp sl(1) len
      by (metis nth_mem one_less_numeral_iff semiring_norm(76))
    moreover have "set (pa_params lp0) \<subseteq> G" using d sl(2)
      by (auto simp: iteratorAff_def pw_aff_on_universe_def split: if_splits)
    moreover have "pa_params m0 = align_ids (pa_params lp0) (pa_params sp0)"
      using isl_pw_aff_mul_pieces(1) [of sp0 lp0 m0] m sm(2) sl by simp
    ultimately show ?thesis
      unfolding sm(3) by (simp add: pw_on_shared_domain_def set_align_ids)
  qed
next
  case (SCEVSMaxExpr ops)
  have ih: "set (pa_params a) \<subseteq> G"
    if "getIdForParam S (SCEVSMaxExpr ops) = None"
      "r \<in> set (map (visit E S n) ops)" "r = Inr (Some a)" for r a
  proof -
    have nin: "SCEVSMaxExpr ops \<notin> set ps" using that(1) rec by auto
    from that obtain x where x: "x \<in> set ops" "visit E S n x = Inr (Some a)" by auto
    have "uncovered ps x = []"
      using SCEVSMaxExpr.prems(1) nin x(1) by simp
    then show ?thesis using SCEVSMaxExpr.IH [OF x(1) _ x(2)] by blast
  qed
  from SCEVSMaxExpr.prems(2) [unfolded visit.simps] show ?case
  proof (rule ifParam_cases)
    fix ID assume "getIdForParam S (SCEVSMaxExpr ops) = Some ID" "c = paramAff ID n"
    then show ?thesis using G by (auto simp: paramAff_def pw_aff_on_universe_def)
  next
    assume none: "getIdForParam S (SCEVSMaxExpr ops) = None"
      and v: "visitSMaxExpr (map (visit E S n) ops) = Inr (Some c)"
    then obtain r rs where rs: "map (visit E S n) ops = r # rs"
      by (cases "map (visit E S n) ops") (auto simp: visitSMaxExpr_def)
    with v obtain A where A: "r = Inr A" "maxLoop A rs = Inr (Some c)"
      by (cases r) (auto simp: visitSMaxExpr_def)
    show ?thesis
    proof (rule maxLoop_inv [where P = "\<lambda>a. set (pa_params a) \<subseteq> G", OF _ A(2)])
      fix a assume "A = Some a"
      then show "set (pa_params a) \<subseteq> G" using ih [OF none, of r a] rs A(1) by simp
    next
      fix r' a assume "r' \<in> set rs" "r' = Inr (Some a)"
      then show "set (pa_params a) \<subseteq> G" using ih [OF none, of r' a] rs by simp
    next
      fix a b c
      assume "set (pa_params a) \<subseteq> G" "set (pa_params b) \<subseteq> G"
        "isl_pw_aff_max (Some a) (Some b) = Some c"
      then show "set (pa_params c) \<subseteq> G"
        using isl_pw_aff_max_pieces(1) [of a b c] by (simp add: set_align_ids)
    qed
  qed
next
  case (SCEVUMaxExpr ops)
  from SCEVUMaxExpr.prems(2) [unfolded visit.simps] show ?case
    by (rule ifParam_cases) (auto simp: paramAff_def pw_aff_on_universe_def intro: G)
next
  case (SCEVUnknown v)
  have "SCEVUnknown v \<in> set ps"
  proof (rule ccontr)
    assume "SCEVUnknown v \<notin> set ps"
    then show False using SCEVUnknown.prems(1) by simp
  qed
  then have "getIdForParam S (SCEVUnknown v) \<noteq> None" using rec by blast
  with SCEVUnknown.prems(2) [unfolded visit.simps] show ?case
    by (auto simp: ifParam_def paramAff_def pw_aff_on_universe_def intro: G split: option.splits)
next
  case SCEVCouldNotCompute
  from SCEVCouldNotCompute.prems(2) [unfolded visit.simps] show ?case
    by (rule ifParam_cases) (auto simp: paramAff_def pw_aff_on_universe_def intro: G)
qed

lemma grows_refl: "wfParams S \<Longrightarrow> grows S S"
  by (simp add: grows_def)

lemma grows_trans: "grows S S1 \<Longrightarrow> grows S1 S2 \<Longrightarrow> grows S S2"
  by (auto simp: grows_def)

lemma grows_wf: "grows S S' \<Longrightarrow> wfParams S'"
  by (simp add: grows_def)

lemma grows_sub: "grows S S' \<Longrightarrow> A \<subseteq> set (globalParams S) \<Longrightarrow> A \<subseteq> set (globalParams S')"
  by (auto simp: grows_def)

lemma getPwAff_grows:
  assumes "wfParams S" "getPwAff E n S e = Inr (A, S')"
  shows "grows S S'"
proof -
  have S': "S' = addParams S (getParamsInAffineExpr E e)"
    using getPwAff_visit [OF assms(2)] by simp
  show ?thesis
    unfolding S' grows_def
    using addParams_wf [OF assms(1), of "getParamsInAffineExpr E e"]
      globalParams_addParams [OF assms(1), of "getParamsInAffineExpr E e"]
    by simp
qed

lemma getPwAff_params:
  assumes wf: "wfParams S"
    and rep: "reportsUnknowns E e"
    and run: "getPwAff E n S e = Inr (Some c, S')"
  shows "set (pa_params c) \<subseteq> set (globalParams S')"
proof -
  let ?ps = "getParamsInAffineExpr E e"
  have S': "S' = addParams S ?ps" and v: "visit E S' n e = Inr (Some c)"
    using getPwAff_visit [OF run] by blast+
  have wf': "wfParams S'" and ps: "set (Parameters S') = set (Parameters S) \<union> set ?ps"
    using addParams_wf [OF wf, of ?ps] unfolding S' by simp_all
  have un: "\<forall>p \<in> set ?ps. getIdForParam S' p \<noteq> None"
  proof
    fix p assume "p \<in> set ?ps"
    then have "p \<in> set (Parameters S')" using ps by blast
    then have "map_of (ParameterIds S') p \<noteq> None"
      using wfParams_None [OF wf', of p] by simp
    then show "getIdForParam S' p \<noteq> None"
      using getIdForParam_Some_iff [of S' p] by auto
  qed
  have unc: "uncovered ?ps e = []" using rep by (simp add: reportsUnknowns_def)
  show ?thesis
  proof (rule visit_params [OF _ un unc v])
    fix p ID assume "getIdForParam S' p = Some ID"
    then show "ID \<in> set (globalParams S')" using globalParams_iff [OF wf'] by blast
  qed
qed

lemma cmp_set_params:
  "cmp_set F A B = Some d \<Longrightarrow>
     \<exists>a b. A = Some a \<and> B = Some b \<and> set (set_params d) = set (pa_params a) \<union> set (pa_params b)"
  by (auto simp: cmp_set_def set_align_ids split: option.splits)

lemma buildConditionSet_params:
  assumes wf: "wfParams S"
    and repL: "reportsUnknowns E (getLHS Comp)" and repR: "reportsUnknowns E (getRHS Comp)"
    and run: "buildConditionSet E n S Comp = Inr (D, S')"
  shows "grows S S' \<and> (\<forall>d. D = Some d \<longrightarrow> set (set_params d) \<subseteq> set (globalParams S'))"
proof -
  from run obtain L S1 where L: "getPwAff E n S (getLHS Comp) = Inr (L, S1)"
    by (cases "getPwAff E n S (getLHS Comp)") (auto simp: buildConditionSet_def)
  from run L obtain R S2 where R: "getPwAff E n S1 (getRHS Comp) = Inr (R, S2)"
    by (cases "getPwAff E n S1 (getRHS Comp)") (auto simp: buildConditionSet_def)
  have g1: "grows S S1" using getPwAff_grows [OF wf L] .
  have wf1: "wfParams S1" using g1 by (rule grows_wf)
  have g2: "grows S1 S2" using getPwAff_grows [OF wf1 R] .
  from run [unfolded buildConditionSet_eval [OF L R]]
  have S': "S' = S2" and Dc: "\<exists>F A B. D = cmp_set F A B \<and> {A, B} = {L, R}"
    by (auto simp: isl_pw_aff_eq_set_def isl_pw_aff_ne_set_def isl_pw_aff_lt_set_def
        isl_pw_aff_le_set_def isl_pw_aff_gt_set_def isl_pw_aff_ge_set_def
        split: predicate.splits)
  have par: "set (set_params d) \<subseteq> set (globalParams S2)" if d: "D = Some d" for d
  proof -
    from Dc d obtain F A B where c: "cmp_set F A B = Some d" and AB: "{A, B} = {L, R}"
      by metis
    from cmp_set_params [OF c] obtain a b where ab: "A = Some a" "B = Some b"
        "set (set_params d) = set (pa_params a) \<union> set (pa_params b)" by blast
    from AB ab obtain l r where lr: "L = Some l" "R = Some r"
        "set (pa_params a) \<union> set (pa_params b) = set (pa_params l) \<union> set (pa_params r)"
      by (auto simp: doubleton_eq_iff)
    have "set (pa_params l) \<subseteq> set (globalParams S1)"
      using getPwAff_params [OF wf repL L [unfolded lr(1)]] .
    then have "set (pa_params l) \<subseteq> set (globalParams S2)"
      using grows_sub [OF g2] by blast
    moreover have "set (pa_params r) \<subseteq> set (globalParams S2)"
      using getPwAff_params [OF wf1 repR R [unfolded lr(2)]] .
    ultimately show ?thesis using ab(3) lr(3) by simp
  qed
  show ?thesis
    using grows_trans [OF g1 g2] par unfolding S' by blast
qed


lemma intersect_params:
  "isl_set_intersect A B = Some c \<Longrightarrow>
     \<exists>a b. A = Some a \<and> B = Some b \<and> set (set_params c) = set (set_params a) \<union> set (set_params b)"
  by (auto simp: isl_set_intersect_def set_align_ids split: option.splits)

lemma condLoop_params:
  assumes rep: "\<forall>c \<in> set cs. reportsUnknowns E (getLHS c) \<and> reportsUnknowns E (getRHS c)"
  shows "wfParams S \<Longrightarrow> (\<forall>d. D = Some d \<longrightarrow> set (set_params d) \<subseteq> set (globalParams S)) \<Longrightarrow>
         condLoop E n cs D S = Inr (D', S') \<Longrightarrow>
         grows S S' \<and> (\<forall>d. D' = Some d \<longrightarrow> set (set_params d) \<subseteq> set (globalParams S'))"
  using rep
proof (induction cs arbitrary: D S)
  case Nil
  then show ?case by (simp add: grows_refl)
next
  case (Cons c cs)
  have repc: "reportsUnknowns E (getLHS c)" "reportsUnknowns E (getRHS c)"
    and reps: "\<forall>c \<in> set cs. reportsUnknowns E (getLHS c) \<and> reportsUnknowns E (getRHS c)"
    using Cons.prems(4) by simp_all
  from Cons.prems(3) obtain Dc S1 where
    c: "buildConditionSet E n S c = Inr (Dc, S1)"
    and rest: "condLoop E n cs (isl_set_intersect D Dc) S1 = Inr (D', S')"
    by (cases "buildConditionSet E n S c") auto
  from buildConditionSet_params [OF Cons.prems(1) repc c]
  have g1: "grows S S1"
    and pc: "\<forall>d. Dc = Some d \<longrightarrow> set (set_params d) \<subseteq> set (globalParams S1)"
    by blast+
  have p1: "\<forall>d. isl_set_intersect D Dc = Some d \<longrightarrow>
              set (set_params d) \<subseteq> set (globalParams S1)"
  proof (intro allI impI)
    fix d assume "isl_set_intersect D Dc = Some d"
    from intersect_params [OF this] obtain a b where ab: "D = Some a" "Dc = Some b"
        "set (set_params d) = set (set_params a) \<union> set (set_params b)" by blast
    have "set (set_params a) \<subseteq> set (globalParams S1)"
      using Cons.prems(2) ab(1) grows_sub [OF g1] by blast
    then show "set (set_params d) \<subseteq> set (globalParams S1)"
      using pc ab by simp
  qed
  from Cons.IH [OF grows_wf [OF g1] p1 rest reps]
  show ?case using grows_trans [OF g1] by blast
qed

lemma boundsLoop_params:
  assumes rep: "\<forall>l b. LoopBounds T l = Some b \<longrightarrow> reportsUnknowns E b"
  shows "wfParams S \<Longrightarrow> (\<forall>d. D = Some d \<longrightarrow> set (set_params d) \<subseteq> set (globalParams S)) \<Longrightarrow>
         (\<forall>l. LocalSpace = Some l \<longrightarrow> set l \<subseteq> set (globalParams S)) \<Longrightarrow>
         boundsLoop E T ivs LocalSpace js D S = Inr (D', S') \<Longrightarrow>
         grows S S' \<and> (\<forall>d. D' = Some d \<longrightarrow> set (set_params d) \<subseteq> set (globalParams S'))"
proof (induction js arbitrary: D S)
  case Nil
  then show ?case by (simp add: grows_refl)
next
  case (Cons i js)
  let ?IV = "map_option (\<lambda>ps. pw_aff_on_universe ps (length ivs) (lin_dim i)) LocalSpace"
  let ?D1 = "isl_set_intersect D (isl_pw_aff_nonneg_set ?IV)"
  from Cons.prems(4) obtain Bx where bx: "LoopBounds T (snd (ivs ! i)) = Some Bx"
    by (cases "LoopBounds T (snd (ivs ! i))") (auto simp: Let_def)
  from Cons.prems(4) bx obtain UB S1 where
    u: "getPwAff E (length ivs) S Bx = Inr (UB, S1)"
    and rest: "boundsLoop E T ivs LocalSpace js
                 (isl_set_intersect ?D1 (isl_pw_aff_le_set ?IV UB)) S1 = Inr (D', S')"
    by (cases "getPwAff E (length ivs) S Bx") (auto simp: Let_def)
  have g1: "grows S S1" using getPwAff_grows [OF Cons.prems(1) u] .
  have iv: "set (pa_params a) \<subseteq> set (globalParams S)" if "?IV = Some a" for a
    using that Cons.prems(3) by (auto simp: pw_aff_on_universe_def)
  have d1: "set (set_params d) \<subseteq> set (globalParams S)" if "?D1 = Some d" for d
  proof -
    from intersect_params [OF that] obtain a b where ab: "D = Some a"
        "isl_pw_aff_nonneg_set ?IV = Some b"
        "set (set_params d) = set (set_params a) \<union> set (set_params b)" by blast
    from ab(2) obtain v where v: "?IV = Some v" "set_params b = pa_params v"
      by (auto simp: isl_pw_aff_nonneg_set_def)
    show ?thesis using ab(1,3) v(2) iv [OF v(1)] Cons.prems(2) by simp
  qed
  have p1: "\<forall>d. isl_set_intersect ?D1 (isl_pw_aff_le_set ?IV UB) = Some d \<longrightarrow>
              set (set_params d) \<subseteq> set (globalParams S1)"
  proof (intro allI impI)
    fix d assume "isl_set_intersect ?D1 (isl_pw_aff_le_set ?IV UB) = Some d"
    from intersect_params [OF this] obtain a b where ab: "?D1 = Some a"
        "isl_pw_aff_le_set ?IV UB = Some b"
        "set (set_params d) = set (set_params a) \<union> set (set_params b)" by blast
    from ab(2) have "cmp_set ge_fml UB ?IV = Some b"
      by (simp add: isl_pw_aff_le_set_def isl_pw_aff_ge_set_def)
    from cmp_set_params [OF this] obtain ub v where uv: "UB = Some ub" "?IV = Some v"
        "set (set_params b) = set (pa_params ub) \<union> set (pa_params v)" by blast
    have "set (pa_params ub) \<subseteq> set (globalParams S1)"
      using getPwAff_params [OF Cons.prems(1) _ u [unfolded uv(1)]] rep bx by blast
    moreover have "set (pa_params v) \<subseteq> set (globalParams S1)"
      using iv [OF uv(2)] grows_sub [OF g1] by blast
    moreover have "set (set_params a) \<subseteq> set (globalParams S1)"
      using d1 [OF ab(1)] grows_sub [OF g1] by blast
    ultimately show "set (set_params d) \<subseteq> set (globalParams S1)"
      using ab(3) uv(3) by simp
  qed
  have l1: "\<forall>l. LocalSpace = Some l \<longrightarrow> set l \<subseteq> set (globalParams S1)"
    using Cons.prems(3) grows_sub [OF g1] by blast
  from Cons.IH [OF grows_wf [OF g1] p1 l1 rest]
  show ?case using grows_trans [OF g1] by blast
qed

lemma reachingConds_BBConds:
  "c \<in> set (reachingConds T blk chain) \<Longrightarrow> \<exists>b' cs. BBConds T b' = Some cs \<and> c \<in> set cs"
proof (induction chain arbitrary: blk)
  case Nil
  then show ?case by simp
next
  case (Cons entry chain)
  from Cons.prems have "c \<in> set (if blk \<noteq> entry
        then (case BBConds T blk of Some cs \<Rightarrow> cs | None \<Rightarrow> []) else [])
      \<or> c \<in> set (reachingConds T entry chain)"
    unfolding reachingConds.simps set_append Un_iff .
  then show ?case
  proof
    assume a: "c \<in> set (if blk \<noteq> entry
        then (case BBConds T blk of Some cs \<Rightarrow> cs | None \<Rightarrow> []) else [])"
    have ne: "blk \<noteq> entry"
    proof
      assume "blk = entry"
      then show False using a by simp
    qed
    show ?thesis
    proof (cases "BBConds T blk")
      case None
      then show ?thesis using a ne by simp
    next
      case (Some cs)
      then have "c \<in> set cs" using a ne by simp
      then show ?thesis using Some by blast
    qed
  next
    assume "c \<in> set (reachingConds T entry chain)"
    then show ?thesis by (rule Cons.IH)
  qed
qed

lemma buildDomain_params:
  assumes rep: "validated E T"
    and wf: "wfParams S"
    and run: "buildDomain E T bb ivs name CurRegionEntry parents S = Inr (D, S')"
  shows "grows S S' \<and> (\<forall>d. D = Some d \<longrightarrow> set (set_params d) \<subseteq> set (globalParams S'))"
proof -
  let ?U = "isl_set_universe [] (length ivs)"
  from run obtain D1 S1 where
    b: "boundsLoop E T ivs (Some []) [0..<length ivs] (Some ?U) S = Inr (D1, S1)"
    by (cases "boundsLoop E T ivs (Some []) [0..<length ivs] (Some ?U) S")
       (auto simp: buildDomain_def addLoopBoundsToDomain_def isl_set_universe_def)
  from run b obtain D2 where
    c: "condLoop E (length ivs) (reachingConds T bb (CurRegionEntry # parents)) D1 S1
          = Inr (D2, S')"
    and D: "D = isl_set_set_tuple_name D2 name"
    by (cases "condLoop E (length ivs) (reachingConds T bb (CurRegionEntry # parents)) D1 S1")
       (auto simp: buildDomain_def addLoopBoundsToDomain_def addConditionsToDomain_def
          regionLoop_condLoop isl_set_universe_def)
  have u: "\<forall>d. Some ?U = Some d \<longrightarrow> set (set_params d) \<subseteq> set (globalParams S)"
    by (simp add: isl_set_universe_def)
  have l: "\<forall>l. Some [] = Some l \<longrightarrow> set l \<subseteq> set (globalParams S)" by auto
  have repb: "\<forall>l b. LoopBounds T l = Some b \<longrightarrow> reportsUnknowns E b"
    using rep by (simp add: validated_def)
  have repc: "\<forall>c \<in> set (reachingConds T bb (CurRegionEntry # parents)).
      reportsUnknowns E (getLHS c) \<and> reportsUnknowns E (getRHS c)"
  proof
    fix c assume "c \<in> set (reachingConds T bb (CurRegionEntry # parents))"
    from reachingConds_BBConds [OF this] obtain b' cs where
      "BBConds T b' = Some cs" "c \<in> set cs" by blast
    then show "reportsUnknowns E (getLHS c) \<and> reportsUnknowns E (getRHS c)"
      using rep unfolding validated_def by blast
  qed
  from boundsLoop_params [OF repb wf u l b]
  have g1: "grows S S1"
    and p1: "\<forall>d. D1 = Some d \<longrightarrow> set (set_params d) \<subseteq> set (globalParams S1)" by blast+
  from condLoop_params [OF repc grows_wf [OF g1] p1 c]
  have g2: "grows S1 S'"
    and p2: "\<forall>d. D2 = Some d \<longrightarrow> set (set_params d) \<subseteq> set (globalParams S')" by blast+
  show ?thesis
    using grows_trans [OF g1 g2] p2 unfolding D
    by (auto simp: isl_set_set_tuple_name_def)
qed


lemma newMemoryAccess_params:
  assumes rep: "isAffine Access \<longrightarrow> reportsUnknowns E (getOffset Access)"
    and wf: "wfParams S"
    and run: "newMemoryAccess E Access n name S = Inr (MA, S')"
  shows "grows S S' \<and>
     (\<forall>m. AccessRelation MA = Some m \<longrightarrow> set (map_params m) \<subseteq> set (globalParams S'))"
proof (cases "isAffine Access")
  case False
  with run obtain baseName where "S' = S"
      "AccessRelation MA = Some (createBasicAccessMap n name baseName)"
    by (cases "setBaseName (getBase Access)") (auto simp: newMemoryAccess_def Let_def)
  then show ?thesis
    using grows_refl [OF wf] by (simp add: createBasicAccessMap_def isl_map_universe_def)
next
  case True
  with run obtain Affine S1 where
    a: "getPwAff E n S (getOffset Access) = Inr (Affine, S1)"
    by (cases "getPwAff E n S (getOffset Access)") (auto simp: newMemoryAccess_def Let_def)
  from run True a obtain baseName where b: "setBaseName (getBase Access) = Inr baseName"
    by (cases "setBaseName (getBase Access)") (auto simp: newMemoryAccess_def Let_def)
  from run True a b obtain Affine' where
    sd: "isl_pw_aff_scale_down Affine (int (getElemSizeInBytes Access)) = Inr Affine'"
    and S': "S' = S1"
    and rel: "AccessRelation MA =
        isl_map_set_tuple_name_out
          (isl_map_set_tuple_name_in (isl_map_from_pw_aff Affine') name) baseName"
    by (cases "isl_pw_aff_scale_down Affine (int (getElemSizeInBytes Access))")
       (auto simp: newMemoryAccess_def Let_def)
  have g: "grows S S1" using getPwAff_grows [OF wf a] .
  have "set (map_params m) \<subseteq> set (globalParams S1)" if m: "AccessRelation MA = Some m" for m
  proof -
    from m rel obtain a' where a': "Affine' = Some a'" "map_params m = pa_params a'"
      by (auto simp: isl_map_set_tuple_name_out_def isl_map_set_tuple_name_in_def
          isl_map_from_pw_aff_def)
    from sd a'(1) obtain a0 where a0: "Affine = Some a0" "pa_params a' = pa_params a0"
      by (auto simp: isl_pw_aff_scale_down_def split: option.splits if_splits)
    show ?thesis
      using getPwAff_params [OF wf _ a [unfolded a0(1)]] rep True a'(2) a0(2) by simp
  qed
  then show ?thesis using g S' by blast
qed

lemma buildAccessesLoop_params:
  assumes rep: "\<forall>f \<in> set fs. isAffine (fst f) \<longrightarrow> reportsUnknowns E (getOffset (fst f))"
  shows "wfParams S \<Longrightarrow>
     (\<forall>MA \<in> set accs. \<forall>m. AccessRelation MA = Some m \<longrightarrow>
         set (map_params m) \<subseteq> set (globalParams S)) \<Longrightarrow>
     buildAccessesLoop E n name fs accs i2a S = Inr (accs', i2a', S') \<Longrightarrow>
     grows S S' \<and>
     (\<forall>MA \<in> set accs'. \<forall>m. AccessRelation MA = Some m \<longrightarrow>
         set (map_params m) \<subseteq> set (globalParams S'))"
  using rep
proof (induction fs arbitrary: accs i2a S)
  case Nil
  then show ?case by (simp add: grows_refl)
next
  case (Cons f fs)
  obtain Access Inst where f: "f = (Access, Inst)" by (cases f)
  have repa: "isAffine Access \<longrightarrow> reportsUnknowns E (getOffset Access)"
    and reps: "\<forall>f \<in> set fs. isAffine (fst f) \<longrightarrow> reportsUnknowns E (getOffset (fst f))"
    using Cons.prems(4) f by simp_all
  from Cons.prems(3) f obtain MA S1 where
    ma: "newMemoryAccess E Access n name S = Inr (MA, S1)"
    and rest: "buildAccessesLoop E n name fs (accs @ [MA])
         ((Inst, length accs) # filter (\<lambda>p. fst p \<noteq> Inst) i2a) S1 = Inr (accs', i2a', S')"
    by (cases "newMemoryAccess E Access n name S") auto
  from newMemoryAccess_params [OF repa Cons.prems(1) ma]
  have g1: "grows S S1"
    and p: "\<forall>m. AccessRelation MA = Some m \<longrightarrow> set (map_params m) \<subseteq> set (globalParams S1)"
    by blast+
  have all: "\<forall>MA \<in> set (accs @ [MA]). \<forall>m. AccessRelation MA = Some m \<longrightarrow>
         set (map_params m) \<subseteq> set (globalParams S1)"
    using Cons.prems(2) p grows_sub [OF g1] by auto
  from Cons.IH [OF grows_wf [OF g1] all rest reps]
  show ?case using grows_trans [OF g1] by blast
qed

lemma equateLoop_params:
  "equateLoop M js = Inr (Some m') \<Longrightarrow> \<exists>m. M = Some m \<and> map_params m' = map_params m"
proof (induction js arbitrary: M)
  case Nil
  then show ?case by simp
next
  case (Cons i js)
  from Cons.prems obtain M1 where s: "isl_map_equate_out_in M (2 * i + 1) i = Inr M1"
    and r: "equateLoop M1 js = Inr (Some m')"
    by (cases "isl_map_equate_out_in M (2 * i + 1) i") auto
  from Cons.IH [OF r] obtain m1 where m1: "M1 = Some m1" "map_params m' = map_params m1"
    by blast
  from s m1(1) obtain m where "M = Some m" "map_params m1 = map_params m"
    by (auto simp: isl_map_equate_out_in_def split: option.splits if_splits)
  then show ?case using m1(2) by simp
qed

lemma fixLoop_params:
  "fixLoop Scatter M js = Inr (Some m') \<Longrightarrow> \<exists>m. M = Some m \<and> map_params m' = map_params m"
proof (induction js arbitrary: M)
  case Nil
  then show ?case by simp
next
  case (Cons i js)
  from Cons.prems obtain v where v: "scatterAt Scatter i = Inr v"
    by (cases "scatterAt Scatter i") auto
  from Cons.prems v obtain M1 where
    s: "isl_map_fix_si_out M (2 * i) (unsigned_to_int v) = Inr M1"
    and r: "fixLoop Scatter M1 js = Inr (Some m')"
    by (cases "isl_map_fix_si_out M (2 * i) (unsigned_to_int v)") auto
  from Cons.IH [OF r] obtain m1 where m1: "M1 = Some m1" "map_params m' = map_params m1"
    by blast
  from s m1(1) obtain m where "M = Some m" "map_params m1 = map_params m"
    by (auto simp: isl_map_fix_si_out_def split: option.splits if_splits)
  then show ?case using m1(2) by simp
qed

lemma fillLoop_params:
  "fillLoop M js = Inr (Some m') \<Longrightarrow> \<exists>m. M = Some m \<and> map_params m' = map_params m"
proof (induction js arbitrary: M)
  case Nil
  then show ?case by simp
next
  case (Cons i js)
  from Cons.prems obtain M1 where s: "isl_map_fix_si_out M i 0 = Inr M1"
    and r: "fillLoop M1 js = Inr (Some m')"
    by (cases "isl_map_fix_si_out M i 0") auto
  from Cons.IH [OF r] obtain m1 where m1: "M1 = Some m1" "map_params m' = map_params m1"
    by blast
  from s m1(1) obtain m where "M = Some m" "map_params m1 = map_params m"
    by (auto simp: isl_map_fix_si_out_def split: option.splits if_splits)
  then show ?case using m1(2) by simp
qed

lemma buildScattering_params:
  assumes ctx: "Context Parent = Some (isl_set_universe [] 0)"
    and run: "buildScattering Parent n name Scatter = Inr (Some m)"
  shows "map_params m = []"
proof -
  let ?U = "isl_map_universe [] name n ''scattering'' (MaxLoopDepth Parent * 2 + 1)"
  from run obtain S1 where s1: "equateLoop (Some ?U) [0..<n] = Inr S1"
    by (cases "equateLoop (Some ?U) [0..<n]") (auto simp: buildScattering_def Let_def)
  from run s1 obtain S2 where s2: "fixLoop Scatter S1 [0..<n + 1] = Inr S2"
    by (cases "fixLoop Scatter S1 [0..<n + 1]") (auto simp: buildScattering_def Let_def)
  from run s1 s2 obtain S3 where
    s3: "fillLoop S2 [2 * n + 1..<MaxLoopDepth Parent * 2 + 1] = Inr S3"
    and al: "isl_map_align_params S3 (getParamSpace Parent) = Some m"
    by (cases "fillLoop S2 [2 * n + 1..<MaxLoopDepth Parent * 2 + 1]")
       (auto simp: buildScattering_def Let_def)
  from al obtain m3 where m3: "S3 = Some m3" "map_params m = align_ids [] (map_params m3)"
    using ctx
    by (auto simp: isl_map_align_params_def getParamSpace_def isl_set_universe_def
        split: option.splits)
  from fillLoop_params [OF s3 [unfolded m3(1)]] obtain m2 where
    m2: "S2 = Some m2" "map_params m3 = map_params m2" by blast
  from fixLoop_params [OF s2 [unfolded m2(1)]] obtain m1 where
    m1: "S1 = Some m1" "map_params m2 = map_params m1" by blast
  from equateLoop_params [OF s1 [unfolded m1(1)]] have "map_params m1 = map_params ?U"
    by auto
  then show ?thesis using m3(2) m2(2) m1(2)
    by (simp add: isl_map_universe_def align_ids_def)
qed


lemma stmtParamsIn_mono: "stmtParamsIn G Stmt \<Longrightarrow> G \<subseteq> G' \<Longrightarrow> stmtParamsIn G' Stmt"
  unfolding stmtParamsIn_def by blast

lemma getIdForParam_Stmts [simp]: "getIdForParam (S\<lparr> Stmts := x \<rparr>) = getIdForParam S"
  by (rule ext) (simp add: getIdForParam_def)

lemma globalParams_Stmts [simp]: "globalParams (S\<lparr> Stmts := x \<rparr>) = globalParams S"
  by (simp add: globalParams_def)

lemma wfParams_Stmts [simp]: "wfParams (S\<lparr> Stmts := x \<rparr>) = wfParams S"
  by (simp add: wfParams_def)

lemma newScopStmt_inv:
  assumes rep: "validated E T"
    and inv: "scopInv S"
    and run: "newScopStmt E T entry parents bb NestLoops Scatter S = Inr (Stmt, S')"
  shows "scopInv (S'\<lparr> Stmts := Stmts S' @ [Stmt] \<rparr>)"
proof -
  have wf: "wfParams S" and ctx: "Context S = Some (isl_set_universe [] 0)"
    and old: "\<forall>Stmt \<in> set (Stmts S). stmtParamsIn (set (globalParams S)) Stmt"
    using inv by (simp_all add: scopInv_def)
  from run obtain ivs where ivs: "setupIVS NestLoops = Inr ivs"
    by (cases "setupIVS NestLoops") (auto simp: newScopStmt_def)
  from run ivs obtain s where s: "makeIslCompatible bb = Inr s"
    by (cases "makeIslCompatible bb") (auto simp: newScopStmt_def)
  let ?name = "''Stmt_'' @ s"
  from run ivs s obtain D S1 where
    d: "buildDomain E T bb ivs ?name entry parents S = Inr (D, S1)"
    by (cases "buildDomain E T bb ivs ?name entry parents S") (auto simp: newScopStmt_def Let_def)
  from run ivs s d obtain Sc where sc: "buildScattering S1 (length ivs) ?name Scatter = Inr Sc"
    by (cases "buildScattering S1 (length ivs) ?name Scatter")
       (auto simp: newScopStmt_def Let_def)
  from run ivs s d sc obtain accs i2a where
    ac: "buildAccesses E T bb (length ivs) ?name S1 = Inr (accs, i2a, S')"
    and st: "Domain Stmt = D" "Scattering Stmt = Sc" "MemAccs Stmt = accs"
    by (cases "buildAccesses E T bb (length ivs) ?name S1")
       (auto simp: newScopStmt_def Let_def)
  from buildDomain_params [OF rep wf d]
  have g1: "grows S S1"
    and pd: "\<forall>d. D = Some d \<longrightarrow> set (set_params d) \<subseteq> set (globalParams S1)" by blast+
  have ctx1: "Context S1 = Some (isl_set_universe [] 0)"
    using g1 ctx by (simp add: grows_def)
  have psc: "\<forall>m. Sc = Some m \<longrightarrow> map_params m = []"
    using buildScattering_params [OF ctx1] sc by blast
  from ac obtain fs where fs: "AccFuncMap T bb = Some fs"
    and lp: "buildAccessesLoop E (length ivs) ?name fs [] [] S1 = Inr (accs, i2a, S')"
    by (cases "AccFuncMap T bb") (auto simp: buildAccesses_def)
  have repa: "\<forall>f \<in> set fs. isAffine (fst f) \<longrightarrow> reportsUnknowns E (getOffset (fst f))"
    using rep fs unfolding validated_def by blast
  from buildAccessesLoop_params [OF repa grows_wf [OF g1] _ lp]
  have g2: "grows S1 S'"
    and pa: "\<forall>MA \<in> set accs. \<forall>m. AccessRelation MA = Some m \<longrightarrow>
         set (map_params m) \<subseteq> set (globalParams S')" by simp_all
  have g: "grows S S'" using grows_trans [OF g1 g2] .
  have new: "stmtParamsIn (set (globalParams S')) Stmt"
    unfolding stmtParamsIn_def st
    using pd psc pa grows_sub [OF g2] by auto
  have olds: "\<forall>Stmt \<in> set (Stmts S'). stmtParamsIn (set (globalParams S')) Stmt"
    using old g stmtParamsIn_mono by (auto simp: grows_def)
  show ?thesis
    unfolding scopInv_def
    using grows_wf [OF g] g ctx new olds by (auto simp: grows_def)
qed


lemma buildScop_inv:
  shows "validated E T \<Longrightarrow>
           scopInv (bsScop st) \<Longrightarrow> buildScop E T parents R st = Inr st' \<Longrightarrow>
           scopInv (bsScop st')"
    and "validated E T \<Longrightarrow>
           scopInv (bsScop st) \<Longrightarrow>
           buildElements E T parents entry loopDepth elems st = Inr st' \<Longrightarrow>
           scopInv (bsScop st')"
proof (induction E T parents R st and E T parents entry loopDepth elems st
    arbitrary: st' and st' rule: buildScop_buildElements.induct)
  case (1 E T parents entry L elems st)
  let ?NL = "case L of None \<Rightarrow> bsNestLoops st | Some l \<Rightarrow> bsNestLoops st @ [l]"
  from "1.prems"(3) have len: "length (bsScatter st) > length ?NL"
    by (auto simp: Let_def split: if_splits)
  from "1.prems"(3) len obtain st1 where
    el: "buildElements E T parents entry (length ?NL) elems (st\<lparr> bsNestLoops := ?NL \<rparr>) = Inr st1"
    and res: "bsScop st' = bsScop st1"
    by (cases "buildElements E T parents entry (length ?NL) elems (st\<lparr> bsNestLoops := ?NL \<rparr>)")
       (auto simp: Let_def split: if_splits)
  have "scopInv (bsScop (st\<lparr> bsNestLoops := ?NL \<rparr>))" using "1.prems"(2) by simp
  from "1.IH" [OF refl refl _ "1.prems"(1) this el] len
  show ?case using res by simp
next
  case (2 E T parents entry loopDepth st)
  then show ?case by simp
next
  case (3 E T parents entry loopDepth R rest st)
  from "3.prems"(3) obtain st1 where
    a: "buildScop E T (entry # parents) R st = Inr st1"
    and b: "buildElements E T parents entry loopDepth rest st1 = Inr st'"
    by (cases "buildScop E T (entry # parents) R st") auto
  from "3.IH"(1) [OF "3.prems"(1,2) a] have "scopInv (bsScop st1)" .
  from "3.IH"(2) [OF "3.prems"(1) this b] show ?case .
next
  case (4 E T parents entry loopDepth bb rest st)
  show ?case
  proof (cases "isTrivialBB T bb")
    case True
    then have "buildElements E T parents entry loopDepth rest st = Inr st'"
      using "4.prems"(3) by simp
    from "4.IH"(1) [OF True "4.prems"(1,2) this] show ?thesis .
  next
    case False
    from "4.prems"(3) False obtain Stmt S' where
      a: "newScopStmt E T entry parents bb (bsNestLoops st) (bsScatter st) (bsScop st)
            = Inr (Stmt, S')"
      and b: "buildElements E T parents entry loopDepth rest
                 (st\<lparr> bsScop := S'\<lparr> Stmts := Stmts S' @ [Stmt] \<rparr>,
                      bsScatter := incr (bsScatter st) loopDepth \<rparr>) = Inr st'"
      by (cases "newScopStmt E T entry parents bb (bsNestLoops st) (bsScatter st) (bsScop st)")
         auto
    have i: "scopInv (bsScop (st\<lparr> bsScop := S'\<lparr> Stmts := Stmts S' @ [Stmt] \<rparr>,
                      bsScatter := incr (bsScatter st) loopDepth \<rparr>))"
      using newScopStmt_inv [OF "4.prems"(1,2) a] by simp
    from "4.IH"(2) [OF False "4.prems"(1) i b] show ?thesis .
  qed
qed


lemma setDimIds_sem:
  "distinct (map snd rest) \<Longrightarrow>
   \<forall>pd \<in> set rest. 0 \<le> snd pd \<and> snd pd < int (length ids) \<and> getIdForParam S (fst pd) \<noteq> None \<Longrightarrow>
   \<exists>ids'. setDimIds S rest (Some ids) = Inr (Some ids') \<and> length ids' = length ids \<and>
     (\<forall>pd \<in> set rest. ids' ! nat (snd pd) = getIdForParam S (fst pd)) \<and>
     (\<forall>i < length ids. int i \<notin> snd ` set rest \<longrightarrow> ids' ! i = ids ! i)"
proof (induction rest arbitrary: ids)
  case Nil
  then show ?case by simp
next
  case (Cons pd rest)
  obtain p d where pd: "pd = (p, d)" by (cases pd)
  from Cons.prems(2) pd obtain ident where
    d: "0 \<le> d" "d < int (length ids)" and ident: "getIdForParam S p = Some ident"
    by auto
  let ?ids1 = "ids[nat d := Some ident]"
  have nd: "nat d < length ids" using d by linarith
  have dist: "distinct (map snd rest)" and dn: "d \<notin> snd ` set rest"
    using Cons.prems(1) pd by auto
  have pre: "\<forall>pd \<in> set rest. 0 \<le> snd pd \<and> snd pd < int (length ?ids1)
                \<and> getIdForParam S (fst pd) \<noteq> None"
    using Cons.prems(2) by simp
  from Cons.IH [OF dist pre] obtain ids' where
    r: "setDimIds S rest (Some ?ids1) = Inr (Some ids')" and len: "length ids' = length ids"
    and set: "\<forall>pd \<in> set rest. ids' ! nat (snd pd) = getIdForParam S (fst pd)"
    and keep: "\<forall>i < length ids. int i \<notin> snd ` set rest \<longrightarrow> ids' ! i = ?ids1 ! i"
    by auto
  have run: "setDimIds S (pd # rest) (Some ids) = Inr (Some ids')"
    using pd ident d r by simp
  have here: "ids' ! nat d = getIdForParam S p"
  proof -
    have "int (nat d) \<notin> snd ` set rest" using dn d(1) by simp
    then have "ids' ! nat d = ?ids1 ! nat d" using keep nd by blast
    then show ?thesis using ident nd by simp
  qed
  have keep': "ids' ! i = ids ! i"
    if "i < length ids" "int i \<notin> snd ` set (pd # rest)" for i
  proof -
    have "int i \<noteq> d" "int i \<notin> snd ` set rest" using that(2) pd by auto
    have ne: "i \<noteq> nat d" using \<open>int i \<noteq> d\<close> d(1) by auto
    have "ids' ! i = ?ids1 ! i" using keep that(1) \<open>int i \<notin> snd ` set rest\<close> by blast
    then show ?thesis using ne by simp
  qed
  show ?case
    using run len set here keep' pd by (intro exI [of _ ids']) auto
qed

lemma map_filter_all_Some:
  "\<forall>x \<in> set xs. f x \<noteq> None \<Longrightarrow> List.map_filter f xs = map (\<lambda>x. the (f x)) xs"
  by (induction xs) (auto simp: map_filter_simps split: option.splits)

lemma wfParams_on_record:
  assumes "wfParams S" "p \<in> set (Parameters S)"
  shows "getIdForParam S p \<noteq> None"
proof -
  have "map_of (ParameterIds S) p \<noteq> None"
    using wfParams_None [OF assms(1), of p] assms(2) by simp
  then show ?thesis using getIdForParam_Some_iff [of S p] by auto
qed

lemma realign_model:
  assumes wf: "wfParams S"
  shows "\<exists>ids. setDimIds S (ParameterIds S) (Some (replicate (length (ParameterIds S)) None))
            = Inr (Some ids)
      \<and> modelParams (Some ids) = Inr (Some (globalParams S))"
proof -
  let ?Ps = "Parameters S"
  let ?n = "length ?Ps"
  have z: "ParameterIds S = zip ?Ps (map int [0..<?n])"
    using wf by (simp add: wfParams_def)
  have ln: "length (ParameterIds S) = ?n" unfolding z by simp
  have sn: "map snd (ParameterIds S) = map int [0..<?n]" unfolding z by simp
  have dist: "distinct (map snd (ParameterIds S))"
    unfolding sn by (simp add: distinct_map inj_on_def)
  have pre: "\<forall>pd \<in> set (ParameterIds S). 0 \<le> snd pd
       \<and> snd pd < int (length (replicate (length (ParameterIds S)) (None :: isl_id option)))
       \<and> getIdForParam S (fst pd) \<noteq> None"
  proof
    fix pd assume m: "pd \<in> set (ParameterIds S)"
    then obtain i where i: "i < ?n" "pd = (?Ps ! i, int i)"
      unfolding z by (auto simp: in_set_zip)
    have "getIdForParam S (?Ps ! i) \<noteq> None"
      using wfParams_on_record [OF wf] i(1) by simp
    then show "0 \<le> snd pd
       \<and> snd pd < int (length (replicate (length (ParameterIds S)) (None :: isl_id option)))
       \<and> getIdForParam S (fst pd) \<noteq> None"
      using i ln by simp
  qed
  from setDimIds_sem [OF dist pre] obtain ids where
    r: "setDimIds S (ParameterIds S) (Some (replicate (length (ParameterIds S)) None))
          = Inr (Some ids)"
    and len: "length ids = ?n"
    and set: "\<forall>pd \<in> set (ParameterIds S). ids ! nat (snd pd) = getIdForParam S (fst pd)"
    using ln by auto
  have each: "ids ! i = getIdForParam S (?Ps ! i)" if "i < ?n" for i
  proof -
    have "(?Ps ! i, int i) \<in> set (ParameterIds S)"
      unfolding z using that by (auto simp: in_set_zip)
    from set [rule_format, OF this] show ?thesis by simp
  qed
  have ids: "ids = map (getIdForParam S) ?Ps"
    using len each by (intro nth_equalityI) simp_all
  have all: "\<forall>x \<in> set ?Ps. getIdForParam S x \<noteq> None"
    using wfParams_on_record [OF wf] by blast
  have "list_all (\<lambda>i. i \<noteq> None) ids"
    unfolding ids using all by (simp add: list_all_iff)
  moreover have "map the ids = globalParams S"
    unfolding ids globalParams_def map_filter_all_Some [OF all] by simp
  ultimately have "modelParams (Some ids) = Inr (Some (globalParams S))"
    by (simp add: modelParams_def)
  then show ?thesis using r by blast
qed

lemma realignParams_sem:
  assumes inv: "scopInv S"
  shows "\<exists>S' C. realignParams S = Inr S' \<and> Parameters S' = Parameters S
      \<and> ParameterIds S' = ParameterIds S
      \<and> Context S' = Some C \<and> set_params C = globalParams S
      \<and> (\<forall>Stmt \<in> set (Stmts S').
           (\<forall>D. Domain Stmt = Some D \<longrightarrow> set_params D = globalParams S)
         \<and> (\<forall>M. Scattering Stmt = Some M \<longrightarrow> map_params M = globalParams S)
         \<and> (\<forall>MA \<in> set (MemAccs Stmt). \<forall>M. AccessRelation MA = Some M \<longrightarrow>
                map_params M = globalParams S))"
proof -
  let ?G = "globalParams S"
  have wf: "wfParams S" and ctx: "Context S = Some (isl_set_universe [] 0)"
    and old: "\<forall>Stmt \<in> set (Stmts S). stmtParamsIn (set ?G) Stmt"
    using inv by (simp_all add: scopInv_def)
  from realign_model [OF wf] obtain ids where
    ids: "setDimIds S (ParameterIds S) (Some (replicate (length (ParameterIds S)) None))
            = Inr (Some ids)"
    and model: "modelParams (Some ids) = Inr (Some ?G)" by blast
  let ?C = "(isl_set_universe [] 0)\<lparr> set_params := ?G \<rparr>"
  let ?S1 = "S\<lparr> Context := Some ?C \<rparr>"
  let ?S' = "?S1\<lparr> Stmts := map (ScopStmt_realignParams ?S1) (Stmts ?S1) \<rparr>"
  have al: "isl_set_align_params (Context S) (Some ?G) = Some ?C"
    using ctx by (simp add: isl_set_align_params_def align_ids_def isl_set_universe_def)
  have run: "realignParams S = Inr ?S'"
    using ids model ctx al by (simp add: realignParams_def Let_def)
  have sp: "getParamSpace ?S1 = Some ?G" by (simp add: getParamSpace_def)
  have stm: "(\<forall>D. Domain Stmt = Some D \<longrightarrow> set_params D = ?G)
         \<and> (\<forall>M. Scattering Stmt = Some M \<longrightarrow> map_params M = ?G)
         \<and> (\<forall>MA \<in> set (MemAccs Stmt). \<forall>M. AccessRelation MA = Some M \<longrightarrow> map_params M = ?G)"
    if "Stmt \<in> set (Stmts ?S')" for Stmt
  proof -
    from that obtain St where St: "St \<in> set (Stmts S)" "Stmt = ScopStmt_realignParams ?S1 St"
      by auto
    have ok: "stmtParamsIn (set ?G) St" using old St(1) by blast
    have d: "set_params D = ?G" if "Domain Stmt = Some D" for D
    proof -
      from that St(2) obtain d0 where "Domain St = Some d0"
          "set_params D = align_ids ?G (set_params d0)"
        unfolding ScopStmt_realignParams_def sp
        by (auto simp: isl_set_align_params_def split: option.splits)
      then show ?thesis using ok align_ids_subset by (simp add: stmtParamsIn_def)
    qed
    have m: "map_params M = ?G" if "Scattering Stmt = Some M" for M
    proof -
      from that St(2) obtain m0 where "Scattering St = Some m0"
          "map_params M = align_ids ?G (map_params m0)"
        unfolding ScopStmt_realignParams_def sp
        by (auto simp: isl_map_align_params_def split: option.splits)
      then show ?thesis using ok align_ids_subset by (simp add: stmtParamsIn_def)
    qed
    have a: "map_params M = ?G" if "MA \<in> set (MemAccs Stmt)" "AccessRelation MA = Some M"
      for MA M
    proof -
      from that(1) St(2) obtain MA0 where MA0: "MA0 \<in> set (MemAccs St)"
          "MA = MemoryAccess_realignParams ?S1 MA0"
        unfolding ScopStmt_realignParams_def by auto
      from that(2) MA0(2) obtain m0 where m0: "AccessRelation MA0 = Some m0"
          "map_params M = align_ids ?G (map_params m0)"
        unfolding MemoryAccess_realignParams_def sp
        by (auto simp: isl_map_align_params_def split: option.splits)
      have "set (map_params m0) \<subseteq> set ?G"
        using ok MA0(1) m0(1) by (auto simp: stmtParamsIn_def)
      then show ?thesis using m0(2) align_ids_subset by simp
    qed
    show ?thesis using d m a by blast
  qed
  show ?thesis
    using run stm by (intro exI [of _ ?S'] exI [of _ ?C]) simp
qed


lemma globalParams_cong:
  "Parameters S' = Parameters S \<Longrightarrow> ParameterIds S' = ParameterIds S \<Longrightarrow>
     globalParams S' = globalParams S"
proof -
  assume a: "Parameters S' = Parameters S" "ParameterIds S' = ParameterIds S"
  then have "getIdForParam S' = getIdForParam S"
    by (intro ext) (simp add: getIdForParam_def)
  then show ?thesis using a(1) by (simp add: globalParams_def)
qed

subsection \<open>The global parameter space\<close>

text \<open>
  Claim C2. When the validator reports, for every \<open>SCEVUnknown\<close> of a loop bound, of an
  operand of a condition and of the offset of an affine access, that expression or an
  expression around it as a parameter, a Scop that has been built completely,
  \<open>realignParams\<close> included, has its
  context, the domain and the scattering of each statement and every access relation,
  as far as they are not \<open>NULL\<close>, over the same parameters: the identifiers of the
  parameters on record, one for each, in the order of their dimensions.
\<close>

theorem newScop_global_parameter_space:
  assumes rep: "validated E T"
    and run: "newScop E T R = Inr S"
  shows "\<exists>C. Context S = Some C \<and> set_params C = globalParams S
      \<and> length (globalParams S) = length (Parameters S)
      \<and> (\<forall>Stmt \<in> set (Stmts S).
           (\<forall>D. Domain Stmt = Some D \<longrightarrow> set_params D = globalParams S)
         \<and> (\<forall>M. Scattering Stmt = Some M \<longrightarrow> map_params M = globalParams S)
         \<and> (\<forall>MA \<in> set (MemAccs Stmt). \<forall>M. AccessRelation MA = Some M \<longrightarrow>
                map_params M = globalParams S))"
proof -
  let ?S0 = "buildContext \<lparr> MaxLoopDepth = getMaxLoopDepth T, Parameters = [],
                            ParameterIds = [], Context = None, Stmts = [] \<rparr>"
  let ?st0 = "\<lparr> bsScop = ?S0, bsNestLoops = [],
                bsScatter = replicate (getMaxLoopDepth T + 1) 0 \<rparr>"
  from run obtain st where b: "buildScop E T [] R ?st0 = Inr st"
    by (cases "buildScop E T [] R ?st0") (auto simp: newScop_def Let_def)
  from run b have r: "realignParams (bsScop st) = Inr S"
    by (cases "realignParams (bsScop st)") (auto simp: newScop_def Let_def split: if_splits)
  have "scopInv ?S0"
    by (simp add: scopInv_def wfParams_def buildContext_def)
  then have "scopInv (bsScop ?st0)" by simp
  from buildScop_inv(1) [OF rep this b] have inv: "scopInv (bsScop st)" .
  from realignParams_sem [OF inv] r obtain C where
    P: "Parameters S = Parameters (bsScop st)" "ParameterIds S = ParameterIds (bsScop st)"
    and C: "Context S = Some C" "set_params C = globalParams (bsScop st)"
    and St: "\<forall>Stmt \<in> set (Stmts S).
           (\<forall>D. Domain Stmt = Some D \<longrightarrow> set_params D = globalParams (bsScop st))
         \<and> (\<forall>M. Scattering Stmt = Some M \<longrightarrow> map_params M = globalParams (bsScop st))
         \<and> (\<forall>MA \<in> set (MemAccs Stmt). \<forall>M. AccessRelation MA = Some M \<longrightarrow>
                map_params M = globalParams (bsScop st))"
    by auto
  have G: "globalParams (bsScop st) = globalParams S"
    using globalParams_cong [OF P] by simp
  have wf: "wfParams (bsScop st)" using inv by (simp add: scopInv_def)
  have "\<forall>x \<in> set (Parameters (bsScop st)). getIdForParam (bsScop st) x \<noteq> None"
    using wfParams_on_record [OF wf] by blast
  from map_filter_all_Some [OF this] have "length (globalParams (bsScop st))
      = length (Parameters (bsScop st))"
    by (simp add: globalParams_def)
  then have len: "length (globalParams S) = length (Parameters S)"
    using G P(1) by simp
  show ?thesis
    using C St len unfolding G by blast
qed

theorem newScop_global_parameter_space_witness:
  "\<exists>S C Stmt MA D M A.
     newScop
       \<lparr> getParamsInAffineExpr = (\<lambda>e. [e]),
         outermostLoopInRegion = (\<lambda>l. None), regionContains = (\<lambda>l. False) \<rparr>
       \<lparr> LoopBounds = Map.empty, BBConds = Map.empty,
         AccFuncMap = [''%bb'' \<mapsto>
            [(\<lparr> getBase = Value ''%A'' ''A'', getOffset = SCEVUnknown (Value ''%n'' ''n''),
                getElemSizeInBytes = 1, irType = READ, isAffine = True \<rparr>, ''load'')]],
         getMaxLoopDepth = 0 \<rparr>
       (Region ''%entry'' None [BlockNode ''%bb'']) = Inr S
     \<and> Context S = Some C \<and> Stmts S = [Stmt] \<and> MemAccs Stmt = [MA]
     \<and> Domain Stmt = Some D \<and> Scattering Stmt = Some M \<and> AccessRelation MA = Some A
     \<and> set_params C = [(''n'', UserSCEV (SCEVUnknown (Value ''%n'' ''n'')))]
     \<and> set_params D = [(''n'', UserSCEV (SCEVUnknown (Value ''%n'' ''n'')))]
     \<and> map_params M = [(''n'', UserSCEV (SCEVUnknown (Value ''%n'' ''n'')))]
     \<and> map_params A = [(''n'', UserSCEV (SCEVUnknown (Value ''%n'' ''n'')))]"
proof -
  let ?E = "\<lparr> getParamsInAffineExpr = (\<lambda>e. [e]),
         outermostLoopInRegion = (\<lambda>l. None), regionContains = (\<lambda>l. False) \<rparr>"
  let ?T = "\<lparr> LoopBounds = Map.empty, BBConds = Map.empty,
         AccFuncMap = [''%bb'' \<mapsto>
            [(\<lparr> getBase = Value ''%A'' ''A'', getOffset = SCEVUnknown (Value ''%n'' ''n''),
                getElemSizeInBytes = 1, irType = READ, isAffine = True \<rparr>, ''load'')]],
         getMaxLoopDepth = 0 \<rparr>"
  let ?R = "Region ''%entry'' None [BlockNode ''%bb'']"
  let ?n = "SCEVUnknown (Value ''%n'' ''n'')"
  have mk: "makeIslCompatible ''%bb'' = Inr ''bb''"
    by (simp add: makeIslCompatible_def replace_def replaceAll.simps)
  have sb: "setBaseName (Value ''%A'' ''A'') = Inr ''MemRef_A''"
    by (simp add: setBaseName_def makeIslCompatible_def replace_def replaceAll.simps)
  have "\<exists>S Stmt MA D M A. newScop ?E ?T ?R = Inr S
      \<and> Parameters S = [?n] \<and> ParameterIds S = [(?n, 0)]
      \<and> Stmts S = [Stmt] \<and> MemAccs Stmt = [MA]
      \<and> Domain Stmt = Some D \<and> Scattering Stmt = Some M \<and> AccessRelation MA = Some A"
    by (simp add: newScop_def buildContext_def Let_def isTrivialBB_def newScopStmt_def mk
      sb buildDomain_def addLoopBoundsToDomain_def addConditionsToDomain_def
      isl_set_set_tuple_name_def isl_set_universe_def buildScattering_def isl_map_universe_def
      scatterAt_def isl_map_fix_si_out_def unsigned_to_int_def isl_map_align_params_def
      getParamSpace_def align_ids_def buildAccesses_def newMemoryAccess_def isRead_def
      getPwAff_def ifParam_def getIdForParam_def paramAff_def pw_aff_on_universe_def
      isl_pw_aff_scale_down_def isl_map_from_pw_aff_def isl_map_set_tuple_name_in_def
      isl_map_set_tuple_name_out_def incr_def realignParams_def modelParams_def
      isl_set_align_params_def ScopStmt_realignParams_def MemoryAccess_realignParams_def)
  then obtain S Stmt MA D M A where run: "newScop ?E ?T ?R = Inr S"
    and P: "Parameters S = [?n]" "ParameterIds S = [(?n, 0)]"
    and o: "Stmts S = [Stmt]" "MemAccs Stmt = [MA]" "Domain Stmt = Some D"
      "Scattering Stmt = Some M" "AccessRelation MA = Some A"
    by blast
  have rep: "validated ?E ?T"
    by (simp add: validated_def reportsUnknowns_def)
  from newScop_global_parameter_space [OF rep run] obtain C where
    C: "Context S = Some C" "set_params C = globalParams S"
    and St: "\<forall>Stmt \<in> set (Stmts S).
           (\<forall>D. Domain Stmt = Some D \<longrightarrow> set_params D = globalParams S)
         \<and> (\<forall>M. Scattering Stmt = Some M \<longrightarrow> map_params M = globalParams S)
         \<and> (\<forall>MA \<in> set (MemAccs Stmt). \<forall>M. AccessRelation MA = Some M \<longrightarrow>
                map_params M = globalParams S)"
    by blast
  have G: "globalParams S = [(''n'', UserSCEV ?n)]"
    using P by (simp add: globalParams_def map_filter_simps getIdForParam_def Let_def)
  have "set_params D = globalParams S" "map_params M = globalParams S"
    "map_params A = globalParams S"
    using St o by simp_all
  then show ?thesis
    using run C o unfolding G
    by (intro exI [of _ S] exI [of _ C] exI [of _ Stmt] exI [of _ MA] exI [of _ D]
        exI [of _ M] exI [of _ A]) simp
qed

end
